(* ===== verification/Prelude.thy ===== *)
theory Prelude
  imports Main "HOL-Library.Word" "HOL-Library.Code_Target_Nat"
begin

text \<open>
  What the components share: the names of the C integer types, byte strings and their
  big-endian and little-endian values, the outcome type of an operation that returns 1 or 0
  and updates a structure in place.
  Lengths and capacities (\<open>size_t\<close>, 64 bits on the targets of the application) are
  \<^typ>\<open>nat\<close> values with every addition or product that the code checks for overflow reduced
  modulo \<open>2 ^ 64\<close>; every other integer is a word of its C width.
\<close>

unbundle bit_operations_syntax

type_synonym u8 = "8 word"
type_synonym u16 = "16 word"
type_synonym u32 = "32 word"
type_synonym u64 = "64 word"
type_synonym bytes = "u8 list"

named_theorems size_arith \<open>the wrap-around of size_t\<close>
named_theorems word_bytes \<open>bytes as words and numbers\<close>

subsection \<open>size_t arithmetic\<close>

definition SIZE_LIMIT :: nat where
  "SIZE_LIMIT = 2 ^ 64"

definition size_add :: "nat \<Rightarrow> nat \<Rightarrow> nat" where
  "size_add a b = (a + b) mod SIZE_LIMIT"

definition size_mul :: "nat \<Rightarrow> nat \<Rightarrow> nat" where
  "size_mul a b = (a * b) mod SIZE_LIMIT"

lemma size_limit_pos [simp]: "0 < SIZE_LIMIT"
  by (simp add: SIZE_LIMIT_def)

lemma size_add_small [size_arith]: "a + b < SIZE_LIMIT \<Longrightarrow> size_add a b = a + b"
  by (simp add: size_add_def)

lemma size_add_less [simp]: "size_add a b < SIZE_LIMIT"
  by (simp add: size_add_def)

lemma size_mul_small [size_arith]: "a * b < SIZE_LIMIT \<Longrightarrow> size_mul a b = a * b"
  by (simp add: size_mul_def)

text \<open>The test \<open>a + b < a\<close> of the code detects exactly the sums that do not fit.\<close>

lemma size_add_overflow [size_arith]:
  assumes "a < SIZE_LIMIT" and "b < SIZE_LIMIT"
  shows "size_add a b < a \<longleftrightarrow> SIZE_LIMIT \<le> a + b"
proof (cases "a + b < SIZE_LIMIT")
  case True
  then show ?thesis by (simp add: size_add_small)
next
  case False
  then have "(a + b) mod SIZE_LIMIT = a + b - SIZE_LIMIT"
    using assms by (simp add: mod_if)
  then show ?thesis using False assms by (simp add: size_add_def)
qed

subsection \<open>Outcomes\<close>

text \<open>
  A C function that updates a structure in place and returns 1 or 0 is a function from the
  structure to a pair: \<^const>\<open>None\<close> for 0 or \<^const>\<open>Some\<close> of the values stored through the
  other out-parameters for 1, and the structure as the function leaves it (also on failure).
  \<open>and_then\<close> is \<open>if (!f(...)) return 0;\<close> followed by the rest of the function.
\<close>

type_synonym ('a, 's) outcome = "'a option \<times> 's"

fun and_then :: "('a, 's) outcome \<Rightarrow> ('a \<Rightarrow> 's \<Rightarrow> ('b, 's) outcome) \<Rightarrow> ('b, 's) outcome" where
  "and_then (None, s) k = (None, s)"
| "and_then (Some a, s) k = k a s"

definition succeeded :: "('a, 's) outcome \<Rightarrow> bool" where
  "succeeded r = (fst r \<noteq> None)"

lemma and_then_Some:
  "and_then r k = (Some b, t) \<longleftrightarrow> (\<exists>a s. r = (Some a, s) \<and> k a s = (Some b, t))"
  by (cases "(r, k)" rule: and_then.cases) auto

lemma and_then_None:
  "and_then r k = (None, t) \<longleftrightarrow> r = (None, t) \<or> (\<exists>a s. r = (Some a, s) \<and> k a s = (None, t))"
  by (cases "(r, k)" rule: and_then.cases) auto

lemma and_then_cong [fundef_cong]:
  "r = r' \<Longrightarrow> (\<And>a s. r' = (Some a, s) \<Longrightarrow> k a s = k' a s) \<Longrightarrow> and_then r k = and_then r' k'"
  by (cases "(r', k')" rule: and_then.cases) auto

text \<open>For evaluation, a case distinction: the rest is looked at only when the first part is known.\<close>

lemma and_then_case [code_unfold]:
  "and_then r k = (case r of (x, s) \<Rightarrow> (case x of None \<Rightarrow> (None, s) | Some a \<Rightarrow> k a s))"
  by (cases "(r, k)" rule: and_then.cases) auto

text \<open>A property of the structure that both parts keep is kept by the sequence.\<close>

lemma and_then_snd:
  assumes "P (snd r)" and "\<And>a s. r = (Some a, s) \<Longrightarrow> P s \<Longrightarrow> P (snd (k a s))"
  shows "P (snd (and_then r k))"
  using assms by (cases "(r, k)" rule: and_then.cases) auto

subsection \<open>Bit fields of words as numbers\<close>

lemma unat_u8_less [simp]: "unat (b :: u8) < 256"
  using unsigned_less [of b, where ?'a = nat] by simp

lemma unat_u8_le: "unat (b :: u8) \<le> 255"
  using unat_u8_less [of b] by linarith

lemma take_mask: "x AND mask n = (take_bit n x :: 'a::len word)" by (simp add: take_bit_eq_mask)

lemma unat_take [word_bytes]: "unat (take_bit n x :: 'a::len word) = unat x mod 2 ^ n"
  by (simp add: unsigned_take_bit_eq take_bit_nat_def)

lemma unat_drop [word_bytes]: "unat (drop_bit n (x::'a::len word)) = unat x div 2^n"
  by (simp add: unat_drop_bit_eq drop_bit_nat_def)

lemma take_bit_small:
  fixes x :: "'a::len word"
  assumes "unat x < 2 ^ n"
  shows "take_bit n x = x"
  using assms by (simp add: word_unat_eq_iff unat_take)


lemma unat_and_7f [word_bytes]: "unat (b AND 0x7f :: 'a::len word) = unat b mod 128"
  using unat_take [of 7 b] by (simp add: mask_eq_exp_minus_1 flip: take_mask)

lemma unat_and_1f [word_bytes]: "unat (b AND 0x1f :: 'a::len word) = unat b mod 32"
  using unat_take [of 5 b] by (simp add: mask_eq_exp_minus_1 flip: take_mask)

lemma unat_of_nat_less: "n < 2 ^ LENGTH('a) \<Longrightarrow> unat (of_nat n :: 'a::len word) = n"
  by (simp only: unat_of_nat) simp

lemma high_byte: "128 \<le> unat b \<Longrightarrow> unat (b :: u8) mod 128 + 128 = unat b"
proof -
  assume "128 \<le> unat b"
  then have "unat b mod 128 = (unat b - 128) mod 128" by (rule le_mod_geq)
  also have "\<dots> = unat b - 128" using unat_u8_less [of b] by (intro mod_less) linarith
  finally show ?thesis using \<open>128 \<le> unat b\<close> by simp
qed

lemma unat_ucast_up:
  fixes x :: "'a::len word"
  assumes "LENGTH('a) \<le> LENGTH('b)"
  shows "unat (ucast x :: 'b::len word) = unat x"
proof -
  have "unat x < 2 ^ LENGTH('a)" by (rule unsigned_less)
  also have "(2::nat) ^ LENGTH('a) \<le> 2 ^ LENGTH('b)" using assms by (intro power_increasing) simp_all
  finally show ?thesis by (simp add: unsigned_ucast_eq take_bit_nat_eq_self)
qed

lemma push_bit_or:
  fixes v x :: "'a::len word"
  assumes "unat x < 2 ^ n"
  shows "push_bit n v OR x = push_bit n v + x"
proof (rule disjunctive_add_eq_or [symmetric], rule bit_word_eqI)
  fix k 
  have "bit x k = bit (take_bit n x) k" by (simp add: take_bit_small assms)
  then show "bit (push_bit n v AND x) k = bit (0::'a word) k"
    by (auto simp: bit_simps)
qed

lemma unat_push_or:
  fixes v x :: "'a::len word"
  assumes "unat x < 2 ^ n" and "unat v * 2 ^ n + unat x < 2 ^ LENGTH('a)"
  shows "unat (push_bit n v OR x) = unat v * 2 ^ n + unat x"
proof -
  have "push_bit n v OR x = push_bit n v + x" by (rule push_bit_or) fact
  then have "push_bit n v OR x = of_nat (unat v * 2 ^ n + unat x)"
    by (simp add: push_bit_eq_mult)
  then show ?thesis using assms(2) by (simp only: unat_of_nat) simp
qed

lemma xor_eq_0_word: "x XOR y = (0 :: 'a::len word) \<longleftrightarrow> x = y"
  by (auto simp: bit_eq_iff bit_simps)

lemma bit_unat: "bit (w::'a::len word) n = odd (unat w div 2^n)"
proof -
  have "bit w n = bit (unat w) n" by (simp add: bit_unsigned_iff)
  then show ?thesis by (simp only: bit_iff_odd)
qed
 
lemma and_80_zero [word_bytes]: "(b :: u8) AND 0x80 = 0 \<longleftrightarrow> unat b < 128"
proof -
  have "b AND 0x80 = 0 \<longleftrightarrow> \<not> bit b 7" 
    using and_exp_eq_0_iff_not_bit [of b 7] by simp
  also have "\<dots> \<longleftrightarrow> even (unat b div 128)"
    by (simp only: bit_unat) simp
  also have "\<dots> \<longleftrightarrow> unat b < 128"
  proof (cases "unat b < 128")
    case False
    then have "unat b div 128 = 1" using unat_u8_less [of b] by linarith
    with False show ?thesis by simp
  qed simp
  finally show ?thesis .
qed

subsection \<open>Byte strings as numbers\<close>

text \<open>\<open>be_val\<close> is the specification value of a big-endian byte string, \<open>le_val\<close> little-endian.\<close>

fun be_val :: "bytes \<Rightarrow> nat" where
  "be_val [] = 0"
| "be_val (b # bs) = unat b * 256 ^ length bs + be_val bs"

fun le_val :: "bytes \<Rightarrow> nat" where
  "le_val [] = 0"
| "le_val (b # bs) = unat b + 256 * le_val bs"

lemma be_val_append [word_bytes]: "be_val (xs @ ys) = be_val xs * 256 ^ length ys + be_val ys"
  by (induction xs) (simp_all add: power_add algebra_simps)

lemma le_val_append [word_bytes]: "le_val (xs @ ys) = le_val xs + 256 ^ length xs * le_val ys"
  by (induction xs) (simp_all add: algebra_simps)

lemma be_val_less: "be_val bs < 256 ^ length bs"
proof (induction bs)
  case (Cons b bs)
  have "unat b * 256 ^ length bs + be_val bs < (unat b + 1) * 256 ^ length bs"
    using Cons by simp
  also have "\<dots> \<le> 256 * 256 ^ length bs"
    using unat_u8_less [of b] by (intro mult_right_mono) linarith+
  finally show ?case by simp
qed simp

lemma int_be_val_less: "int (be_val bs) < 256 ^ length bs"
proof -
  have "int (be_val bs) < int (256 ^ length bs)" by (simp only: of_nat_less_iff be_val_less)
  then show ?thesis by (simp only: of_nat_power of_nat_numeral)
qed

lemma le_val_rev: "le_val bs = be_val (rev bs)"
  by (induction bs) (simp_all add: be_val_append)

lemma le_val_less: "le_val bs < 256 ^ length bs"
  using be_val_less [of "rev bs"] by (simp add: le_val_rev)

lemma be_val_inj: "length xs = length ys \<Longrightarrow> be_val xs = be_val ys \<Longrightarrow> xs = ys"
proof (induction xs ys rule: list_induct2)
  case (Cons x xs y ys)
  have div_x: "be_val (x # xs) div 256 ^ length xs = unat x"
    using be_val_less [of xs] by simp
  have div_y: "be_val (y # ys) div 256 ^ length xs = unat y"
    using be_val_less [of ys] Cons.hyps by simp
  have "unat x = unat y" using div_x div_y Cons.prems by metis
  moreover from this have "be_val xs = be_val ys"
    using Cons.prems Cons.hyps by simp
  ultimately show ?case using Cons.IH by (simp add: word_unat_eq_iff)
qed simp

text \<open>The shift-and-or step \<open>r = (r << 8) | b\<close> of the big-endian readers.\<close>

lemma shift_or_byte [word_bytes]:
  fixes r :: "'a::len word" and b :: u8
  assumes "8 \<le> LENGTH('a)"
  shows "push_bit 8 r OR ucast b = r * 256 + ucast b"
proof -
  have "push_bit 8 r AND ucast b = 0"
    by (rule bit_word_eqI) (auto simp: bit_simps dest: bit_imp_le_length)
  then have "push_bit 8 r OR ucast b = push_bit 8 r + ucast b"
    by (rule disjunctive_add_eq_or [symmetric])
  then show ?thesis by (simp add: push_bit_eq_mult)
qed

definition be_word :: "bytes \<Rightarrow> 'a::len word" where
  "be_word bs = foldl (\<lambda>r b. push_bit 8 r OR ucast b) 0 bs"

lemma be_word_snoc: "be_word (bs @ [b]) = push_bit 8 (be_word bs) OR ucast b"
  by (simp add: be_word_def)

lemma be_word_of_nat:
  assumes "8 \<le> LENGTH('a)"
  shows "(be_word bs :: 'a::len word) = of_nat (be_val bs)"
proof (induction bs rule: rev_induct)
  case Nil
  then show ?case by (simp add: be_word_def)
next
  case (snoc b bs)
  have "(ucast b :: 'a word) = of_nat (unat b)"
    by (simp add: of_nat_unat)
  with snoc show ?case
    by (simp add: be_word_snoc shift_or_byte [OF assms] be_val_append)
qed

lemma unat_be_word:
  assumes "8 \<le> LENGTH('a)" and "length bs * 8 \<le> LENGTH('a)"
  shows "unat (be_word bs :: 'a::len word) = be_val bs"
proof -
  have "be_val bs < 2 ^ (8 * length bs)"
    using be_val_less [of bs] by (simp add: power_mult)
  also have "\<dots> \<le> 2 ^ LENGTH('a)"
    using assms(2) by (intro power_increasing) (simp_all add: mult.commute)
  finally show ?thesis
    by (simp add: be_word_of_nat [OF assms(1)] unat_of_nat)
qed

text \<open>The fixed-width big-endian encoding of a number, as a specification.\<close>

fun be_bytes :: "nat \<Rightarrow> nat \<Rightarrow> bytes" where
  "be_bytes 0 n = []"
| "be_bytes (Suc k) n = be_bytes k (n div 256) @ [of_nat n]"

lemma length_be_bytes [simp]: "length (be_bytes k n) = k"
  by (induction k arbitrary: n) simp_all

lemma unat_of_nat_u8: "unat (of_nat n :: u8) = n mod 256"
  by (simp add: unat_of_nat)

lemma be_val_be_bytes [word_bytes]: "be_val (be_bytes k n) = n mod 256 ^ k"
proof (induction k arbitrary: n)
  case (Suc k)
  have "n mod (256 * 256 ^ k) = 256 * (n div 256 mod 256 ^ k) + n mod 256"
    by (rule mod_mult2_eq)
  with Suc show ?case by (simp add: be_val_append unat_of_nat_u8)
qed simp

lemma be_bytes_be_val [word_bytes]: "be_bytes (length bs) (be_val bs) = bs"
  by (rule be_val_inj) (use be_val_less [of bs] in \<open>simp_all add: be_val_be_bytes\<close>)

end
