(* ===== verification/Mem.thy ===== *)
theory Mem
  imports Prelude
begin

text \<open>
  \<open>crypto/mem.c\<close> and the wrappers of \<open>crypto/internal.h\<close>: allocation, comparison and C
  strings. Memory is a byte list; a C string is a byte list that holds a zero byte. \<open>mem_env\<close>
  is the behaviour of \<open>malloc\<close>: which sizes it can serve (never one above \<open>PTRDIFF_MAX\<close>) and
  the unspecified contents of the memory it returns.
\<close>

unbundle bit_operations_syntax

section \<open>Allocation\<close>

record mem_env =
  fits :: "nat \<Rightarrow> bool"
  fresh :: "nat \<Rightarrow> u8"

text \<open>An allocator that always succeeds, for concrete instances.\<close>

definition roomy_env :: mem_env where
  "roomy_env = \<lparr>fits = (\<lambda>_. True), fresh = (\<lambda>_. 0)\<rparr>"

definition PTRDIFF_LIMIT :: nat where
  "PTRDIFF_LIMIT = 2 ^ 63"

definition libc_malloc :: "mem_env \<Rightarrow> nat \<Rightarrow> bytes option" where
  "libc_malloc env n = (if n < PTRDIFF_LIMIT \<and> fits env n then Some (map (fresh env) [0..<n]) else None)"

definition OPENSSL_MALLOC_PREFIX :: nat where
  "OPENSSL_MALLOC_PREFIX = 8"

text \<open>
  The size of the block is stored in its first \<open>OPENSSL_MALLOC_PREFIX\<close> bytes; the result is the
  memory behind them. The sum of the two sizes is not checked for overflow.
\<close>

definition OPENSSL_malloc :: "mem_env \<Rightarrow> nat \<Rightarrow> bytes option" where
  "OPENSSL_malloc env sz =
     map_option (drop OPENSSL_MALLOC_PREFIX) (libc_malloc env (size_add sz OPENSSL_MALLOC_PREFIX))"

definition OPENSSL_realloc :: "mem_env \<Rightarrow> bytes \<Rightarrow> nat \<Rightarrow> bytes option" where
  "OPENSSL_realloc env orig new_size =
     (case OPENSSL_malloc env new_size of
        None \<Rightarrow> None
      | Some ret \<Rightarrow>
          let old_size = length orig;
              to_copy = (if old_size < new_size then old_size else new_size)
          in Some (take to_copy orig @ drop to_copy ret))"

definition OPENSSL_memdup :: "mem_env \<Rightarrow> bytes \<Rightarrow> nat \<Rightarrow> bytes option" where
  "OPENSSL_memdup env data sz =
     (if sz = 0 then None
      else case OPENSSL_malloc env sz of None \<Rightarrow> None | Some ret \<Rightarrow> Some (take sz data @ drop sz ret))"

lemma OPENSSL_malloc_length:
  assumes "sz < SIZE_LIMIT - OPENSSL_MALLOC_PREFIX" and "OPENSSL_malloc env sz = Some p"
  shows "length p = sz" "sz + OPENSSL_MALLOC_PREFIX < PTRDIFF_LIMIT"
proof -
  have "size_add sz OPENSSL_MALLOC_PREFIX = sz + OPENSSL_MALLOC_PREFIX"
    using assms(1) by (intro size_add_small) simp
  with assms(2) show "length p = sz" "sz + OPENSSL_MALLOC_PREFIX < PTRDIFF_LIMIT"
    by (auto simp: OPENSSL_malloc_def libc_malloc_def split: if_splits)
qed

lemma roomy_malloc:
  assumes "sz + OPENSSL_MALLOC_PREFIX < PTRDIFF_LIMIT"
  shows "OPENSSL_malloc roomy_env sz = Some (replicate sz 0)"
proof -
  have "size_add sz OPENSSL_MALLOC_PREFIX = sz + OPENSSL_MALLOC_PREFIX"
    using assms by (intro size_add_small) (simp add: PTRDIFF_LIMIT_def SIZE_LIMIT_def)
  then show ?thesis using assms
    by (simp add: OPENSSL_malloc_def libc_malloc_def roomy_env_def map_replicate_const)
qed

lemma OPENSSL_realloc_prefix:
  assumes "OPENSSL_realloc env orig n = Some p" and "n < SIZE_LIMIT - OPENSSL_MALLOC_PREFIX"
  shows "length p = n \<and> take (min n (length orig)) p = take n orig \<and> n + OPENSSL_MALLOC_PREFIX < PTRDIFF_LIMIT"
  using assms OPENSSL_malloc_length
  by (auto simp: OPENSSL_realloc_def Let_def min_def split: option.splits)

lemma OPENSSL_memdup_eq:
  assumes "OPENSSL_memdup env data n = Some p" and "n \<le> length data" and "n < SIZE_LIMIT - OPENSSL_MALLOC_PREFIX"
  shows "p = take n data"
  using assms OPENSSL_malloc_length by (auto simp: OPENSSL_memdup_def split: if_splits option.splits)

section \<open>Comparison and hashing\<close>

text \<open>\<open>memchr\<close> and \<open>memcmp\<close> of the C library; only the sign of \<open>memcmp\<close> is specified.\<close>

definition OPENSSL_memchr :: "bytes \<Rightarrow> u8 \<Rightarrow> nat \<Rightarrow> nat option" where
  "OPENSSL_memchr s c n =
     (if n = 0 then None else find (\<lambda>i. s ! i = c) [0..<n])"

fun libc_memcmp :: "bytes \<Rightarrow> bytes \<Rightarrow> nat \<Rightarrow> int" where
  "libc_memcmp (a # as) (b # bs) (Suc n) =
     (if a = b then libc_memcmp as bs n else if a < b then -1 else 1)"
| "libc_memcmp _ _ _ = 0"

definition OPENSSL_memcmp :: "bytes \<Rightarrow> bytes \<Rightarrow> nat \<Rightarrow> int" where
  "OPENSSL_memcmp s1 s2 n = (if n = 0 then 0 else libc_memcmp s1 s2 n)"

definition CRYPTO_memcmp :: "bytes \<Rightarrow> bytes \<Rightarrow> nat \<Rightarrow> int" where
  "CRYPTO_memcmp a b n = uint (fold (\<lambda>i x. x OR (a ! i XOR b ! i)) [0..<n] (0 :: u8))"

definition OPENSSL_hash32 :: "bytes \<Rightarrow> nat \<Rightarrow> u32" where
  "OPENSSL_hash32 input n =
     fold (\<lambda>i h. (h XOR ucast (input ! i)) * 16777619) [0..<n] 2166136261"

lemma CRYPTO_memcmp_zero:
  "CRYPTO_memcmp a b n = 0 \<longleftrightarrow> (\<forall>i < n. a ! i = b ! i)"
proof -
  have "fold (\<lambda>i x. x OR (a ! i XOR b ! i)) [0..<n] x = (0 :: u8) \<longleftrightarrow> x = 0 \<and> (\<forall>i < n. a ! i = b ! i)" for x
    by (induction n) (auto simp: less_Suc_eq or_eq_0_iff xor_eq_0_word)
  then show ?thesis by (simp add: CRYPTO_memcmp_def uint_0_iff)
qed

lemma CRYPTO_memcmp_take:
  assumes "n \<le> length a" and "n \<le> length b"
  shows "CRYPTO_memcmp a b n = 0 \<longleftrightarrow> take n a = take n b"
  using assms by (auto simp: CRYPTO_memcmp_zero list_eq_iff_nth_eq)

lemma OPENSSL_memchr_None: "n \<le> length s \<Longrightarrow> OPENSSL_memchr s c n = None \<longleftrightarrow> c \<notin> set (take n s)"
  by (auto simp: OPENSSL_memchr_def find_None_iff in_set_conv_nth)

lemma libc_memcmp_zero:
  "n \<le> length a \<Longrightarrow> n \<le> length b \<Longrightarrow> libc_memcmp a b n = 0 \<longleftrightarrow> take n a = take n b"
  by (induction a b n rule: libc_memcmp.induct) auto

section \<open>C strings\<close>

text \<open>A C string in memory: a zero byte ends it. Reading past the memory is \<^const>\<open>None\<close>.\<close>

fun strnlen_loop :: "bytes \<Rightarrow> nat \<Rightarrow> nat \<Rightarrow> nat" where
  "strnlen_loop s i 0 = i"
| "strnlen_loop s i (Suc k) = (if s ! i = 0 then i else strnlen_loop s (Suc i) k)"

definition OPENSSL_strnlen :: "bytes \<Rightarrow> nat \<Rightarrow> nat" where
  "OPENSSL_strnlen s n = strnlen_loop s 0 n"

fun libc_strlen :: "bytes \<Rightarrow> nat option" where
  "libc_strlen [] = None"
| "libc_strlen (c # cs) = (if c = 0 then Some 0 else map_option Suc (libc_strlen cs))"

definition OPENSSL_strdup :: "mem_env \<Rightarrow> bytes \<Rightarrow> bytes option" where
  "OPENSSL_strdup env s =
     (case libc_strlen s of None \<Rightarrow> None
      | Some k \<Rightarrow>
        let n = size_add k 1
        in case OPENSSL_malloc env n of None \<Rightarrow> None | Some ret \<Rightarrow> Some (take n s @ drop n ret))"

definition OPENSSL_strndup :: "mem_env \<Rightarrow> bytes \<Rightarrow> nat \<Rightarrow> bytes option" where
  "OPENSSL_strndup env str sz =
     (let sz = OPENSSL_strnlen str sz;
          alloc_size = size_add sz 1
      in if alloc_size < sz then None
         else case OPENSSL_malloc env alloc_size of
                None \<Rightarrow> None
              | Some ret \<Rightarrow> Some ((take sz str @ drop sz ret)[sz := 0]))"

definition OPENSSL_tolower :: "int \<Rightarrow> int" where
  "OPENSSL_tolower c = (if 65 \<le> c \<and> c \<le> 90 then c + (97 - 65) else c)"

fun OPENSSL_strcasecmp :: "bytes \<Rightarrow> bytes \<Rightarrow> int option" where
  "OPENSSL_strcasecmp (a # as) (b # bs) =
     (let aa = OPENSSL_tolower (sint a); bb = OPENSSL_tolower (sint b)
      in if aa < bb then Some (-1) else if aa > bb then Some 1 else if aa = 0 then Some 0
         else OPENSSL_strcasecmp as bs)"
| "OPENSSL_strcasecmp _ _ = None"

fun OPENSSL_strncasecmp :: "bytes \<Rightarrow> bytes \<Rightarrow> nat \<Rightarrow> int option" where
  "OPENSSL_strncasecmp _ _ 0 = Some 0"
| "OPENSSL_strncasecmp (a # as) (b # bs) (Suc n) =
     (let aa = OPENSSL_tolower (sint a); bb = OPENSSL_tolower (sint b)
      in if aa < bb then Some (-1) else if aa > bb then Some 1 else if aa = 0 then Some 0
         else OPENSSL_strncasecmp as bs n)"
| "OPENSSL_strncasecmp _ _ (Suc n) = None"

text \<open>
  \<open>strlcpy\<close> writes into \<open>dst\<close>, of which \<open>dst_size\<close> bytes may be used; the result is the
  length of \<open>src\<close> and the memory of \<open>dst\<close> after the call. The loop state is the position in
  both strings.
\<close>

function strlcpy_loop :: "bytes \<Rightarrow> bytes \<Rightarrow> nat \<Rightarrow> nat \<Rightarrow> (nat \<times> bytes)" where
  "strlcpy_loop dst src dst_size l =
     (if dst_size > 1 \<and> src ! l \<noteq> 0
      then strlcpy_loop (dst[l := src ! l]) src (dst_size - 1) (Suc l)
      else (l, if dst_size \<noteq> 0 then dst[l := 0] else dst))"
  by pat_completeness auto
termination
  by (relation "measure (\<lambda>(dst, src, n, l). n)") auto

declare strlcpy_loop.simps [simp del]

definition OPENSSL_strlcpy :: "bytes \<Rightarrow> bytes \<Rightarrow> nat \<Rightarrow> (nat \<times> bytes) option" where
  "OPENSSL_strlcpy dst src dst_size =
     (let (l, dst) = strlcpy_loop dst src dst_size 0
      in map_option (\<lambda>r. (size_add l r, dst)) (libc_strlen (drop l src)))"

fun strlcat_skip :: "bytes \<Rightarrow> nat \<Rightarrow> nat \<Rightarrow> nat" where
  "strlcat_skip dst 0 l = l"
| "strlcat_skip dst (Suc n) l = (if dst ! l \<noteq> 0 then strlcat_skip dst n (Suc l) else l)"

definition OPENSSL_strlcat :: "bytes \<Rightarrow> bytes \<Rightarrow> nat \<Rightarrow> (nat \<times> bytes) option" where
  "OPENSSL_strlcat dst src dst_size =
     (let l = strlcat_skip dst dst_size 0
      in map_option (\<lambda>(r, tail). (size_add l r, take l dst @ tail))
           (OPENSSL_strlcpy (drop l dst) src (dst_size - l)))"

section \<open>Formatting\<close>

text \<open>\<open>strlen\<close> of memory that holds a zero byte.\<close>

definition c_strlen :: "bytes \<Rightarrow> nat" where
  "c_strlen s = length (takeWhile (\<lambda>c. c \<noteq> 0) s)"

text \<open>
  \<open>BIO_snprintf\<close> with the decimal directives: the digits of \<open>%d\<close>, filled with zeros on the left for
  \<open>%02d\<close> and \<open>%04d\<close>. At most \<open>len - 1\<close> characters and a zero byte go to the buffer \<open>p\<close>.
\<close>

fun dec_digits :: "nat \<Rightarrow> bytes" where
  "dec_digits n = (if n < 10 then [48 + of_nat n] else dec_digits (n div 10) @ [48 + of_nat (n mod 10)])"

declare dec_digits.simps [simp del]

definition zero_fill :: "nat \<Rightarrow> bytes \<Rightarrow> bytes" where
  "zero_fill w s = replicate (w - length s) 48 @ s"

definition fmt_dec :: "nat \<Rightarrow> int \<Rightarrow> bytes" where
  "fmt_dec w x = (if x < 0 then 45 # zero_fill (w - 1) (dec_digits (nat (- x))) else zero_fill w (dec_digits (nat x)))"

definition BIO_snprintf :: "bytes \<Rightarrow> nat \<Rightarrow> bytes \<Rightarrow> bytes" where
  "BIO_snprintf p len text = (let out = take (len - 1) text @ [0] in out @ drop (length out) p)"

lemma snprintf_fits:
  assumes "length str < len" and "len \<le> length p" and "0 \<notin> set str"
  shows "BIO_snprintf p len str = str @ 0 # drop (Suc (length str)) p" "c_strlen (BIO_snprintf p len str) = length str"
proof -
  show e: "BIO_snprintf p len str = str @ 0 # drop (Suc (length str)) p" using assms(1) by (simp add: BIO_snprintf_def)
  have "takeWhile (\<lambda>c. c \<noteq> 0) (str @ 0 # r) = str" for r
    using assms(3) by (induction str) auto
  then show "c_strlen (BIO_snprintf p len str) = length str" by (simp add: c_strlen_def e)
qed

end
