(* ===== verification/CBS.thy ===== *)
theory CBS
  imports Mem
begin

text \<open>
  \<open>crypto/bytestring/cbs.c\<close>: the byte-string parser. A \<open>CBS\<close> is a pointer and a length.
  \<open>cbs_data\<close> is the memory from the pointer to the end of the object it points into and
  \<open>cbs_len\<close> is the length field; \<open>cbs_bytes\<close> is the string a \<open>CBS\<close> stands for, and
  \<open>wf_cbs\<close> says that the length field stays inside the object. Every operation is an
  outcome over the \<open>CBS\<close> it consumes; an out-parameter that may be \<open>NULL\<close> is always
  returned, and out-parameters are meaningful on success only.
\<close>

unbundle bit_operations_syntax

record cbs_st =
  cbs_data :: bytes
  cbs_len :: nat

definition wf_cbs :: "cbs_st \<Rightarrow> bool" where
  "wf_cbs c = (cbs_len c \<le> length (cbs_data c) \<and> length (cbs_data c) < SIZE_LIMIT)"

definition cbs_bytes :: "cbs_st \<Rightarrow> bytes" where
  "cbs_bytes c = take (cbs_len c) (cbs_data c)"

section \<open>Raw bytes\<close>

definition CBS_init :: "bytes \<Rightarrow> nat \<Rightarrow> cbs_st" where
  "CBS_init data n = \<lparr>cbs_data = data, cbs_len = n\<rparr>"

definition cbs_get :: "cbs_st \<Rightarrow> nat \<Rightarrow> (bytes, cbs_st) outcome" where
  "cbs_get c n =
     (if cbs_len c < n then (None, c)
      else (Some (cbs_data c), \<lparr>cbs_data = drop n (cbs_data c), cbs_len = cbs_len c - n\<rparr>))"

definition CBS_skip :: "cbs_st \<Rightarrow> nat \<Rightarrow> (unit, cbs_st) outcome" where
  "CBS_skip c n = and_then (cbs_get c n) (\<lambda>_ c. (Some (), c))"

definition CBS_data :: "cbs_st \<Rightarrow> bytes" where
  "CBS_data c = cbs_data c"

definition CBS_len :: "cbs_st \<Rightarrow> nat" where
  "CBS_len c = cbs_len c"

text \<open>\<open>CBS_stow\<close> releases \<open>*out_ptr\<close> and stores a copy; the pair is \<open>*out_ptr\<close> (\<^const>\<open>None\<close>
  for \<open>NULL\<close>) and \<open>*out_len\<close> after the call.\<close>

definition CBS_stow :: "mem_env \<Rightarrow> cbs_st \<Rightarrow> (unit, bytes option \<times> nat) outcome" where
  "CBS_stow env c =
     (if cbs_len c = 0 then (Some (), (None, 0))
      else (case OPENSSL_memdup env (cbs_data c) (cbs_len c) of
              None \<Rightarrow> (None, (None, 0))
            | Some copy \<Rightarrow> (Some (), (Some copy, cbs_len c))))"

definition CBS_strdup :: "mem_env \<Rightarrow> cbs_st \<Rightarrow> bytes option" where
  "CBS_strdup env c = OPENSSL_strndup env (cbs_data c) (cbs_len c)"

definition CBS_contains_zero_byte :: "cbs_st \<Rightarrow> bool" where
  "CBS_contains_zero_byte c = (OPENSSL_memchr (cbs_data c) 0 (cbs_len c) \<noteq> None)"

definition CBS_mem_equal :: "cbs_st \<Rightarrow> bytes \<Rightarrow> nat \<Rightarrow> bool" where
  "CBS_mem_equal c data n =
     (if n \<noteq> cbs_len c then False else CRYPTO_memcmp (cbs_data c) data n = 0)"

section \<open>Fixed-width integers\<close>

definition cbs_get_u :: "cbs_st \<Rightarrow> nat \<Rightarrow> (u64, cbs_st) outcome" where
  "cbs_get_u c n =
     and_then (cbs_get c n) (\<lambda>data c. (Some (foldl (\<lambda>result b. push_bit 8 result OR ucast b) 0 (take n data)), c))"

definition CBS_get_u8 :: "cbs_st \<Rightarrow> (u8, cbs_st) outcome" where
  "CBS_get_u8 c = and_then (cbs_get c 1) (\<lambda>v c. (Some (v ! 0), c))"

definition CBS_get_u16 :: "cbs_st \<Rightarrow> (u16, cbs_st) outcome" where
  "CBS_get_u16 c = and_then (cbs_get_u c 2) (\<lambda>v c. (Some (ucast v), c))"

definition CRYPTO_bswap2 :: "u16 \<Rightarrow> u16" where
  "CRYPTO_bswap2 x = drop_bit 8 x OR push_bit 8 x"

definition CRYPTO_bswap4 :: "u32 \<Rightarrow> u32" where
  "CRYPTO_bswap4 x =
     (let x = drop_bit 16 x OR push_bit 16 x
      in drop_bit 8 (x AND 0xff00ff00) OR push_bit 8 (x AND 0x00ff00ff))"

definition CRYPTO_bswap8 :: "u64 \<Rightarrow> u64" where
  "CRYPTO_bswap8 x =
     ucast (CRYPTO_bswap4 (ucast (drop_bit 32 x))) OR push_bit 32 (ucast (CRYPTO_bswap4 (ucast x)))"

definition CBS_get_u16le :: "cbs_st \<Rightarrow> (u16, cbs_st) outcome" where
  "CBS_get_u16le c = and_then (CBS_get_u16 c) (\<lambda>v c. (Some (CRYPTO_bswap2 v), c))"

definition CBS_get_u24 :: "cbs_st \<Rightarrow> (u32, cbs_st) outcome" where
  "CBS_get_u24 c = and_then (cbs_get_u c 3) (\<lambda>v c. (Some (ucast v), c))"

definition CBS_get_u32 :: "cbs_st \<Rightarrow> (u32, cbs_st) outcome" where
  "CBS_get_u32 c = and_then (cbs_get_u c 4) (\<lambda>v c. (Some (ucast v), c))"

definition CBS_get_u32le :: "cbs_st \<Rightarrow> (u32, cbs_st) outcome" where
  "CBS_get_u32le c = and_then (CBS_get_u32 c) (\<lambda>v c. (Some (CRYPTO_bswap4 v), c))"

definition CBS_get_u64 :: "cbs_st \<Rightarrow> (u64, cbs_st) outcome" where
  "CBS_get_u64 c = cbs_get_u c 8"

definition CBS_get_u64le :: "cbs_st \<Rightarrow> (u64, cbs_st) outcome" where
  "CBS_get_u64le c = and_then (cbs_get_u c 8) (\<lambda>v c. (Some (CRYPTO_bswap8 v), c))"

definition CBS_get_last_u8 :: "cbs_st \<Rightarrow> (u8, cbs_st) outcome" where
  "CBS_get_last_u8 c =
     (if cbs_len c = 0 then (None, c)
      else (Some (cbs_data c ! (cbs_len c - 1)), c\<lparr>cbs_len := cbs_len c - 1\<rparr>))"

definition CBS_get_bytes :: "cbs_st \<Rightarrow> nat \<Rightarrow> (cbs_st, cbs_st) outcome" where
  "CBS_get_bytes c n = and_then (cbs_get c n) (\<lambda>v c. (Some (CBS_init v n), c))"

definition CBS_copy_bytes :: "cbs_st \<Rightarrow> nat \<Rightarrow> (bytes, cbs_st) outcome" where
  "CBS_copy_bytes c n = and_then (cbs_get c n) (\<lambda>v c. (Some (take n v), c))"

section \<open>Length-prefixed strings\<close>

definition cbs_get_length_prefixed :: "cbs_st \<Rightarrow> nat \<Rightarrow> (cbs_st, cbs_st) outcome" where
  "cbs_get_length_prefixed c len_len =
     and_then (cbs_get_u c len_len) (\<lambda>n c. CBS_get_bytes c (unat n))"

definition CBS_get_u8_length_prefixed :: "cbs_st \<Rightarrow> (cbs_st, cbs_st) outcome" where
  "CBS_get_u8_length_prefixed c = cbs_get_length_prefixed c 1"

definition CBS_get_u16_length_prefixed :: "cbs_st \<Rightarrow> (cbs_st, cbs_st) outcome" where
  "CBS_get_u16_length_prefixed c = cbs_get_length_prefixed c 2"

definition CBS_get_u24_length_prefixed :: "cbs_st \<Rightarrow> (cbs_st, cbs_st) outcome" where
  "CBS_get_u24_length_prefixed c = cbs_get_length_prefixed c 3"

section \<open>DER elements\<close>

definition CBS_ASN1_TAG_SHIFT :: nat where "CBS_ASN1_TAG_SHIFT = 24"
definition CBS_ASN1_CONSTRUCTED :: u32 where "CBS_ASN1_CONSTRUCTED = push_bit CBS_ASN1_TAG_SHIFT 0x20"
definition CBS_ASN1_TAG_NUMBER_MASK :: u32 where
  "CBS_ASN1_TAG_NUMBER_MASK = push_bit (5 + CBS_ASN1_TAG_SHIFT) 1 - 1"
definition CBS_ASN1_BOOLEAN :: u32 where "CBS_ASN1_BOOLEAN = 0x1"
definition CBS_ASN1_INTEGER :: u32 where "CBS_ASN1_INTEGER = 0x2"
definition CBS_ASN1_BITSTRING :: u32 where "CBS_ASN1_BITSTRING = 0x3"
definition CBS_ASN1_OCTETSTRING :: u32 where "CBS_ASN1_OCTETSTRING = 0x4"
definition CBS_ASN1_SEQUENCE :: u32 where "CBS_ASN1_SEQUENCE = 0x10 OR CBS_ASN1_CONSTRUCTED"

lemma CBS_get_u8_eq:
  "CBS_get_u8 c =
     (if cbs_len c = 0 then (None, c)
      else (Some (cbs_data c ! 0), \<lparr>cbs_data = drop 1 (cbs_data c), cbs_len = cbs_len c - 1\<rparr>))"
  by (auto simp: CBS_get_u8_def cbs_get_def)

text \<open>The do-while loop of \<open>parse_base128_integer\<close>, with \<open>v\<close> as its state.\<close>

function parse_base128_loop :: "cbs_st \<Rightarrow> u64 \<Rightarrow> (u64, cbs_st) outcome" where
  "parse_base128_loop c v =
     and_then (CBS_get_u8 c) (\<lambda>b c.
       if drop_bit (64 - 7) v \<noteq> 0 then (None, c)
       else if v = 0 \<and> b = 0x80 then (None, c)
       else let v = push_bit 7 v OR ucast (b AND 0x7f)
            in if b AND 0x80 \<noteq> 0 then parse_base128_loop c v else (Some v, c))"
  by pat_completeness auto
termination
  by (relation "measure (\<lambda>(c, v). cbs_len c)") (auto simp: CBS_get_u8_eq split: if_splits)

declare parse_base128_loop.simps [simp del]

definition parse_base128_integer :: "cbs_st \<Rightarrow> (u64, cbs_st) outcome" where
  "parse_base128_integer c = parse_base128_loop c 0"

definition parse_asn1_tag :: "cbs_st \<Rightarrow> (u32, cbs_st) outcome" where
  "parse_asn1_tag c =
     and_then (CBS_get_u8 c) (\<lambda>tag_byte c.
       let tag = push_bit CBS_ASN1_TAG_SHIFT (ucast tag_byte AND 0xe0);
           tag_number = ucast (tag_byte AND 0x1f)
       in if tag_number = 0x1f
          then and_then (parse_base128_integer c) (\<lambda>v c.
                 if v > ucast CBS_ASN1_TAG_NUMBER_MASK \<or> v < 0x1f then (None, c)
                 else (Some (tag OR ucast v), c))
          else (Some (tag OR tag_number), c))"

text \<open>
  \<open>cbs_get_any_asn1_element\<close> works on a copy \<open>header\<close> of the \<open>CBS\<close>: the caller's is only
  advanced by the final \<open>CBS_get_bytes\<close>. The result is the element, its tag and the
  header length.
\<close>

definition cbs_get_any_asn1_element :: "cbs_st \<Rightarrow> bool \<Rightarrow> (cbs_st \<times> u32 \<times> nat, cbs_st) outcome" where
  "cbs_get_any_asn1_element c ber_ok =
     (case parse_asn1_tag c of (None, _) \<Rightarrow> (None, c)
      | (Some tag, header) \<Rightarrow>
     (case CBS_get_u8 header of (None, _) \<Rightarrow> (None, c)
      | (Some length_byte, header) \<Rightarrow>
        let header_len = CBS_len c - CBS_len header
        in if length_byte AND 0x80 = 0
           then let n = size_add (unat length_byte) header_len
                in and_then (CBS_get_bytes c n) (\<lambda>out c. (Some (out, tag, header_len), c))
           else
             let num_bytes = unat (length_byte AND 0x7f)
             in if ber_ok \<and> tag AND CBS_ASN1_CONSTRUCTED \<noteq> 0 \<and> num_bytes = 0
                then and_then (CBS_get_bytes c header_len) (\<lambda>out c. (Some (out, tag, header_len), c))
                else if num_bytes = 0 \<or> num_bytes > 4 then (None, c)
                else (case cbs_get_u header num_bytes of (None, _) \<Rightarrow> (None, c)
                      | (Some len64, _) \<Rightarrow>
                        if len64 < 128 then (None, c)
                        else if drop_bit ((num_bytes - 1) * 8) len64 = 0 then (None, c)
                        else let n = unat len64
                             in if size_add (size_add n header_len) num_bytes < n then (None, c)
                                else let n = size_add n (size_add header_len num_bytes)
                                     in and_then (CBS_get_bytes c n)
                                          (\<lambda>out c. (Some (out, tag, size_add header_len num_bytes), c)))))"

definition CBS_get_any_asn1_element :: "cbs_st \<Rightarrow> (cbs_st \<times> u32 \<times> nat, cbs_st) outcome" where
  "CBS_get_any_asn1_element c = cbs_get_any_asn1_element c False"

definition CBS_get_any_ber_asn1_element :: "cbs_st \<Rightarrow> (cbs_st \<times> u32 \<times> nat, cbs_st) outcome" where
  "CBS_get_any_ber_asn1_element c = cbs_get_any_asn1_element c True"

definition CBS_get_any_asn1 :: "cbs_st \<Rightarrow> (cbs_st \<times> u32, cbs_st) outcome" where
  "CBS_get_any_asn1 c =
     and_then (CBS_get_any_asn1_element c) (\<lambda>(out, tag, header_len) c.
       case CBS_skip out header_len of (None, _) \<Rightarrow> (None, c) | (Some _, out) \<Rightarrow> (Some (out, tag), c))"

definition cbs_get_asn1 :: "cbs_st \<Rightarrow> u32 \<Rightarrow> bool \<Rightarrow> (cbs_st, cbs_st) outcome" where
  "cbs_get_asn1 c tag_value skip_header =
     and_then (CBS_get_any_asn1_element c) (\<lambda>(out, tag, header_len) c.
       if tag \<noteq> tag_value then (None, c)
       else if skip_header
       then (case CBS_skip out header_len of (None, _) \<Rightarrow> (None, c) | (Some _, out) \<Rightarrow> (Some out, c))
       else (Some out, c))"

definition CBS_get_asn1 :: "cbs_st \<Rightarrow> u32 \<Rightarrow> (cbs_st, cbs_st) outcome" where
  "CBS_get_asn1 c tag_value = cbs_get_asn1 c tag_value True"

definition CBS_get_asn1_element :: "cbs_st \<Rightarrow> u32 \<Rightarrow> (cbs_st, cbs_st) outcome" where
  "CBS_get_asn1_element c tag_value = cbs_get_asn1 c tag_value False"

definition CBS_peek_asn1_tag :: "cbs_st \<Rightarrow> u32 \<Rightarrow> bool" where
  "CBS_peek_asn1_tag c tag_value =
     (if CBS_len c < 1 then False
      else (case parse_asn1_tag c of (None, _) \<Rightarrow> False | (Some actual_tag, _) \<Rightarrow> tag_value = actual_tag))"

section \<open>Consumption\<close>

text \<open>
  On success an operation moves its \<open>CBS\<close> forward over the bytes it read: \<open>advance c n\<close> is
  \<open>c\<close> moved over \<open>n\<close> bytes.
\<close>

definition advance :: "cbs_st \<Rightarrow> nat \<Rightarrow> cbs_st" where
  "advance c n = \<lparr>cbs_data = drop n (cbs_data c), cbs_len = cbs_len c - n\<rparr>"

named_theorems cbs \<open>the readers in terms of advance\<close>

lemma advance_sel [simp]:
  "cbs_len (advance c n) = cbs_len c - n" "cbs_data (advance c n) = drop n (cbs_data c)"
  by (simp_all add: advance_def)

lemma advance_0 [simp]: "advance c 0 = c"
  by (simp add: advance_def)

lemma advance_advance [simp]: "advance (advance c m) n = advance c (m + n)"
  by (simp add: advance_def add.commute)

lemma wf_advance [simp]: "wf_cbs c \<Longrightarrow> wf_cbs (advance c n)"
  by (auto simp: wf_cbs_def)

lemma length_cbs_bytes [simp]: "wf_cbs c \<Longrightarrow> length (cbs_bytes c) = cbs_len c"
  by (simp add: wf_cbs_def cbs_bytes_def)

lemma cbs_len_less [simp]: "wf_cbs c \<Longrightarrow> cbs_len c < SIZE_LIMIT"
  by (simp add: wf_cbs_def)

lemma bytes_advance [simp]: "cbs_bytes (advance c n) = drop n (cbs_bytes c)"
  by (simp add: cbs_bytes_def drop_take)

lemma take_data: "n \<le> cbs_len c \<Longrightarrow> take n (cbs_data c) = take n (cbs_bytes c)"
  by (simp add: cbs_bytes_def min_def)

lemma nth_data: "n < cbs_len c \<Longrightarrow> cbs_data c ! n = cbs_bytes c ! n"
  by (simp add: cbs_bytes_def)

lemma first_byte: "wf_cbs c \<Longrightarrow> 0 < cbs_len c \<Longrightarrow> cbs_bytes c = cbs_bytes c ! 0 # drop 1 (cbs_bytes c)"
  using length_cbs_bytes [of c] by (cases "cbs_bytes c") auto

lemma wf_init [simp]: "n \<le> length xs \<Longrightarrow> length xs < SIZE_LIMIT \<Longrightarrow> wf_cbs (CBS_init xs n)"
  by (simp add: wf_cbs_def CBS_init_def)

lemma init_sel [simp]: "cbs_len (CBS_init xs n) = n" "cbs_data (CBS_init xs n) = xs"
  "cbs_bytes (CBS_init xs n) = take n xs"
  by (simp_all add: CBS_init_def cbs_bytes_def)

lemma cbs_get_eq [cbs]:
  "cbs_get c n = (if cbs_len c < n then (None, c) else (Some (cbs_data c), advance c n))"
  by (simp add: cbs_get_def advance_def)

lemma CBS_skip_eq [cbs]:
  "CBS_skip c n = (if cbs_len c < n then (None, c) else (Some (), advance c n))"
  by (simp add: CBS_skip_def cbs_get_eq)

lemma CBS_get_bytes_eq [cbs]:
  "CBS_get_bytes c n =
     (if cbs_len c < n then (None, c) else (Some (CBS_init (cbs_data c) n), advance c n))"
  by (simp add: CBS_get_bytes_def cbs_get_eq)

lemma CBS_get_u8_advance [cbs]:
  "CBS_get_u8 c = (if cbs_len c = 0 then (None, c) else (Some (cbs_data c ! 0), advance c 1))"
  by (simp add: CBS_get_u8_eq advance_def)

lemma cbs_get_u_eq [cbs]:
  "cbs_get_u c n =
     (if cbs_len c < n then (None, c) else (Some (be_word (take n (cbs_data c))), advance c n))"
  by (simp add: cbs_get_u_def cbs_get_eq be_word_def)

lemma cbs_get_length_prefixed_eq [cbs]:
  "cbs_get_length_prefixed c n = and_then (cbs_get_u c n) (\<lambda>n c. CBS_get_bytes c (unat n))"
  by (simp add: cbs_get_length_prefixed_def)

section \<open>Readers and codecs\<close>

text \<open>
  The contract of a reader: whether it succeeds or fails, the \<open>CBS\<close> it leaves is the one it
  was given, moved forward inside the original bounds.
\<close>

locale reader =
  fixes rd :: "cbs_st \<Rightarrow> ('a, cbs_st) outcome"
  assumes consumes: "wf_cbs c \<Longrightarrow> \<exists>n \<le> cbs_len c. snd (rd c) = advance c n"
begin

lemma stays_wf: "wf_cbs c \<Longrightarrow> wf_cbs (snd (rd c))"
  using consumes [of c] by auto

lemma never_grows: "wf_cbs c \<Longrightarrow> cbs_len (snd (rd c)) \<le> cbs_len c"
  using consumes [of c] by auto

lemma leaves_suffix:
  assumes "wf_cbs c"
  shows "\<exists>p. cbs_bytes c = p @ cbs_bytes (snd (rd c))"
proof -
  obtain n where "snd (rd c) = advance c n" using consumes [OF assms] by auto
  then have "cbs_bytes c = take n (cbs_bytes c) @ cbs_bytes (snd (rd c))" by simp
  then show ?thesis by blast
qed

end

text \<open>
  The contract of a reader that decodes a format: \<open>enc v\<close> is the encoding of a \<open>valid\<close> value
  and the reader succeeds on exactly the strings that begin with one. The reader's client
  gets that no encoding is a prefix of another.
\<close>

locale codec =
  fixes rd :: "cbs_st \<Rightarrow> ('a, cbs_st) outcome"
    and enc :: "'a \<Rightarrow> bytes"
    and valid :: "'a \<Rightarrow> bool"
  assumes complete: "wf_cbs c \<Longrightarrow> valid v \<Longrightarrow> cbs_bytes c = enc v @ rest \<Longrightarrow>
      rd c = (Some v, advance c (length (enc v)))"
    and sound: "wf_cbs c \<Longrightarrow> rd c = (Some v, c') \<Longrightarrow>
      valid v \<and> c' = advance c (length (enc v)) \<and> (\<exists>rest. cbs_bytes c = enc v @ rest)"
begin

lemma reads_iff:
  assumes "wf_cbs c"
  shows "rd c = (Some v, c') \<longleftrightarrow>
    valid v \<and> cbs_bytes c = enc v @ cbs_bytes c' \<and> c' = advance c (length (enc v))"
proof
  assume "rd c = (Some v, c')"
  from sound [OF assms this] show
    "valid v \<and> cbs_bytes c = enc v @ cbs_bytes c' \<and> c' = advance c (length (enc v))"
    by auto
next
  assume "valid v \<and> cbs_bytes c = enc v @ cbs_bytes c' \<and> c' = advance c (length (enc v))"
  then show "rd c = (Some v, c')" using complete [OF assms] by metis
qed

lemma read_init:
  assumes "valid v" and "length (enc v @ rest) < SIZE_LIMIT"
  shows "rd (CBS_init (enc v @ rest) (length (enc v @ rest))) =
    (Some v, CBS_init rest (length rest))"
proof -
  have "rd (CBS_init (enc v @ rest) (length (enc v @ rest))) =
      (Some v, advance (CBS_init (enc v @ rest) (length (enc v @ rest))) (length (enc v)))"
    using assms by (intro complete [where rest = rest]) simp_all
  then show ?thesis by (simp add: advance_def CBS_init_def)
qed

lemma prefix_free:
  assumes "valid v" and "valid w" and "enc v @ x = enc w @ y" and "length (enc v @ x) < SIZE_LIMIT"
  shows "v = w \<and> x = y"
proof -
  let ?c = "CBS_init (enc v @ x) (length (enc v @ x))"
  have wf: "wf_cbs ?c" using assms(4) by simp
  have "rd ?c = (Some v, advance ?c (length (enc v)))"
    by (rule complete [OF wf assms(1)]) simp
  moreover have "rd ?c = (Some w, advance ?c (length (enc w)))"
    by (rule complete [OF wf assms(2), where rest = y]) (use assms(3) in simp)
  ultimately have "v = w" by simp
  with assms(3) show ?thesis by simp
qed

end

end
