(* ===== verification/CBB.thy ===== *)
theory CBB
  imports CBS
begin

text \<open>
  \<open>crypto/bytestring/cbb.c\<close>: the byte-string builder. All \<open>CBB\<close>s of one builder share a
  \<open>cbb_buffer_st\<close>; each \<open>CBB\<close> points to at most one child whose length prefix is pending, so
  the live \<open>CBB\<close>s form a chain from the root. \<open>cbb_frames\<close> is that chain, root first, and a
  \<open>CBB *\<close> is its depth in the chain; a depth past the end is a child that was flushed or
  discarded (its \<open>base\<close> is \<open>NULL\<close>). \<open>cbb_base\<close> is the shared buffer, \<^const>\<open>None\<close> before
  initialisation and after \<open>CBB_cleanup\<close>. \<open>buf\<close> holds all \<open>cap\<close> bytes of the buffer, of which
  the first \<open>blen\<close> are valid.
\<close>

unbundle bit_operations_syntax

record cbb_buffer_st =
  buf :: bytes
  blen :: nat
  cap :: nat
  can_resize :: bool
  error :: bool

record cbb_st =
  offset :: nat
  pending_len_len :: nat
  pending_is_asn1 :: bool
  is_child :: bool

record cbb_state =
  cbb_base :: "cbb_buffer_st option"
  cbb_frames :: "cbb_st list"

section \<open>Initialisation\<close>

definition CBB_zero :: cbb_state where
  "CBB_zero = \<lparr>cbb_base = None,
     cbb_frames = [\<lparr>offset = 0, pending_len_len = 0, pending_is_asn1 = False, is_child = False\<rparr>]\<rparr>"

text \<open>\<open>sizeof(struct cbb_buffer_st)\<close> is allocated for the buffer header.\<close>

definition sizeof_cbb_buffer :: nat where
  "sizeof_cbb_buffer = 32"

definition cbb_init :: "mem_env \<Rightarrow> cbb_state \<Rightarrow> bytes \<Rightarrow> nat \<Rightarrow> (unit, cbb_state) outcome" where
  "cbb_init env s b n =
     (case OPENSSL_malloc env sizeof_cbb_buffer of
        None \<Rightarrow> (None, s)
      | Some _ \<Rightarrow>
          (Some (), \<lparr>cbb_base = Some \<lparr>buf = b, blen = 0, cap = n, can_resize = True, error = False\<rparr>,
                     cbb_frames = (case cbb_frames s of [] \<Rightarrow> [] | f # fs \<Rightarrow> f\<lparr>is_child := False\<rparr> # fs)\<rparr>))"

definition CBB_init :: "mem_env \<Rightarrow> nat \<Rightarrow> (unit, cbb_state) outcome" where
  "CBB_init env initial_capacity =
     (case OPENSSL_malloc env initial_capacity of
        None \<Rightarrow> if initial_capacity > 0 then (None, CBB_zero) else cbb_init env CBB_zero [] initial_capacity
      | Some b \<Rightarrow> cbb_init env CBB_zero b initial_capacity)"

definition CBB_init_fixed :: "mem_env \<Rightarrow> bytes \<Rightarrow> nat \<Rightarrow> (unit, cbb_state) outcome" where
  "CBB_init_fixed env b n =
     and_then (cbb_init env CBB_zero b n) (\<lambda>_ s.
       (Some (), s\<lparr>cbb_base := map_option (\<lambda>base. base\<lparr>can_resize := False\<rparr>) (cbb_base s)\<rparr>))"

text \<open>\<open>CBB_cleanup\<close> of a child does nothing (and fails an assertion in debug builds).\<close>

definition CBB_cleanup :: "nat \<Rightarrow> cbb_state \<Rightarrow> cbb_state" where
  "CBB_cleanup d s =
     (if d < length (cbb_frames s) \<and> \<not> is_child (cbb_frames s ! d) then s\<lparr>cbb_base := None\<rparr> else s)"

section \<open>The buffer\<close>

definition cbb_buffer_reserve :: "mem_env \<Rightarrow> cbb_buffer_st \<Rightarrow> nat \<Rightarrow> (nat, cbb_buffer_st) outcome" where
  "cbb_buffer_reserve env base n =
     (let newlen = size_add (blen base) n
      in if newlen < blen base then (None, base\<lparr>error := True\<rparr>)
         else if newlen > cap base
         then let newcap = size_mul (cap base) 2
              in if \<not> can_resize base then (None, base\<lparr>error := True\<rparr>)
                 else let newcap = (if newcap < cap base \<or> newcap < newlen then newlen else newcap)
                      in case OPENSSL_realloc env (buf base) newcap of
                           None \<Rightarrow> (None, base\<lparr>error := True\<rparr>)
                         | Some newbuf \<Rightarrow> (Some (blen base), base\<lparr>buf := newbuf, cap := newcap\<rparr>)
         else (Some (blen base), base))"

definition cbb_buffer_add :: "mem_env \<Rightarrow> cbb_buffer_st \<Rightarrow> nat \<Rightarrow> (nat, cbb_buffer_st) outcome" where
  "cbb_buffer_add env base n =
     and_then (cbb_buffer_reserve env base n) (\<lambda>out base. (Some out, base\<lparr>blen := blen base + n\<rparr>))"

text \<open>
  The store loops \<open>for (i = n - 1; i < n; i--) { p[i] = v; v >>= 8; }\<close>: the memory after the
  loop and what is left of \<open>v\<close>.
\<close>

fun store_be :: "bytes \<Rightarrow> nat \<Rightarrow> nat \<Rightarrow> u64 \<Rightarrow> bytes \<times> u64" where
  "store_be m p 0 v = (m, v)"
| "store_be m p (Suc i) v = store_be (m[p + i := ucast v]) p i (drop_bit 8 v)"

definition cbb_buffer_add_u :: "mem_env \<Rightarrow> cbb_buffer_st \<Rightarrow> u64 \<Rightarrow> nat \<Rightarrow> (unit, cbb_buffer_st) outcome" where
  "cbb_buffer_add_u env base v len_len =
     (if len_len = 0 then (Some (), base)
      else and_then (cbb_buffer_add env base len_len) (\<lambda>p base.
        let (m, v) = store_be (buf base) p len_len v; base = base\<lparr>buf := m\<rparr>
        in if v \<noteq> 0 then (None, base\<lparr>error := True\<rparr>) else (Some (), base)))"

section \<open>Flushing\<close>

definition mem_move :: "bytes \<Rightarrow> nat \<Rightarrow> nat \<Rightarrow> nat \<Rightarrow> bytes" where
  "mem_move m dst src n = take dst m @ take n (drop src m) @ drop (dst + n) m"

text \<open>The number of octets of an ASN.1 length, its first octet, and what is left to write.\<close>

definition asn1_length_form :: "nat \<Rightarrow> nat \<times> u8 \<times> nat" where
  "asn1_length_form n =
     (if n > 0xffffff then (5, 0x80 OR 4, n)
      else if n > 0xffff then (4, 0x80 OR 3, n)
      else if n > 0xff then (3, 0x80 OR 2, n)
      else if n > 0x7f then (2, 0x80 OR 1, n)
      else (1, of_nat n, 0))"

text \<open>
  \<open>cbb_flush_chain env base cs\<close> is \<open>CBB_flush\<close> on a \<open>CBB\<close> whose chain of descendants is
  \<open>cs\<close>: the first is flushed recursively and its length prefix is written. A success detaches
  the child, so no descendant is left.
\<close>

fun cbb_flush_chain :: "mem_env \<Rightarrow> cbb_buffer_st \<Rightarrow> cbb_st list \<Rightarrow> (unit, cbb_buffer_st \<times> cbb_st list) outcome" where
  "cbb_flush_chain env base [] = (if error base then None else Some (), base, [])"
| "cbb_flush_chain env base (child # cs) =
     (if error base then (None, base, child # cs)
      else if pending_len_len child = 0 then (Some (), base, child # cs)
      else let child_start = size_add (offset child) (pending_len_len child)
      in case cbb_flush_chain env base cs of (flushed, base, cs) \<Rightarrow>
      if flushed = None \<or> child_start < offset child \<or> blen base < child_start
      then (None, base\<lparr>error := True\<rparr>, child # cs)
      else let n = blen base - child_start
      in if pending_is_asn1 child \<and> n > 0xfffffffe then (None, base\<lparr>error := True\<rparr>, child # cs)
      else case (if pending_is_asn1 child
            then let (len_len, initial_length_byte, rest) = asn1_length_form n
                 in case (if len_len \<noteq> 1
                          then and_then (cbb_buffer_add env base (len_len - 1)) (\<lambda>_ base.
                                 (Some (), base\<lparr>buf := mem_move (buf base) (child_start + (len_len - 1)) child_start rest\<rparr>))
                          else (Some (), base))
                    of (moved, base) \<Rightarrow>
                      if moved = None then (None, base, child)
                      else (Some rest, base\<lparr>buf := (buf base)[offset child := initial_length_byte]\<rparr>,
                            child\<lparr>offset := offset child + 1, pending_len_len := len_len - 1\<rparr>)
            else (Some n, base, child))
      of (None, base, child) \<Rightarrow> (None, base\<lparr>error := True\<rparr>, child # cs)
       | (Some n, base, child) \<Rightarrow>
           (case store_be (buf base) (offset child) (pending_len_len child) (of_nat n) of (m, n) \<Rightarrow>
              if n \<noteq> 0 then (None, base\<lparr>buf := m, error := True\<rparr>, child # cs)
              else (Some (), base\<lparr>buf := m\<rparr>, [])))"

definition CBB_flush :: "mem_env \<Rightarrow> nat \<Rightarrow> cbb_state \<Rightarrow> (unit, cbb_state) outcome" where
  "CBB_flush env d s =
     (if length (cbb_frames s) \<le> d then (None, s)
      else case cbb_base s of
        None \<Rightarrow> (None, s)
      | Some base \<Rightarrow>
          (case cbb_flush_chain env base (drop (Suc d) (cbb_frames s)) of (r, base, cs) \<Rightarrow>
             (r, s\<lparr>cbb_base := Some base, cbb_frames := take (Suc d) (cbb_frames s) @ cs\<rparr>)))"

text \<open>A call on the shared buffer after a successful flush.\<close>

definition on_base :: "(cbb_buffer_st \<Rightarrow> ('a, cbb_buffer_st) outcome) \<Rightarrow> cbb_state \<Rightarrow> ('a, cbb_state) outcome" where
  "on_base f s =
     (case cbb_base s of None \<Rightarrow> (None, s)
      | Some base \<Rightarrow> (case f base of (r, base) \<Rightarrow> (r, s\<lparr>cbb_base := Some base\<rparr>)))"

text \<open>
  \<open>CBB_finish\<close> stores the buffer and its length where \<open>out_data\<close> and \<open>out_len\<close> are not
  \<open>NULL\<close>; the booleans say whether they are given.
\<close>

definition CBB_finish :: "mem_env \<Rightarrow> nat \<Rightarrow> bool \<Rightarrow> bool \<Rightarrow> cbb_state \<Rightarrow> (bytes option \<times> nat option, cbb_state) outcome" where
  "CBB_finish env d out_data out_len s =
     (if length (cbb_frames s) \<le> d \<or> is_child (cbb_frames s ! d) then (None, s)
      else and_then (CBB_flush env d s) (\<lambda>_ s.
        case cbb_base s of None \<Rightarrow> (None, s)
        | Some base \<Rightarrow>
            if can_resize base \<and> (\<not> out_data \<or> \<not> out_len) then (None, s)
            else (Some (if out_data then Some (buf base) else None, if out_len then Some (blen base) else None),
                  CBB_cleanup d s)))"

text \<open>\<open>CBB_data\<close> and \<open>CBB_len\<close> assert that there is no child; \<^const>\<open>None\<close> is a failed assertion.\<close>

definition CBB_data :: "nat \<Rightarrow> cbb_state \<Rightarrow> bytes option" where
  "CBB_data d s =
     (case cbb_base s of None \<Rightarrow> None
      | Some base \<Rightarrow>
          if length (cbb_frames s) \<noteq> Suc d then None
          else Some (drop (offset (cbb_frames s ! d) + pending_len_len (cbb_frames s ! d)) (buf base)))"

definition CBB_len :: "nat \<Rightarrow> cbb_state \<Rightarrow> nat option" where
  "CBB_len d s =
     (case cbb_base s of None \<Rightarrow> None
      | Some base \<Rightarrow>
          let f = cbb_frames s ! d
          in if length (cbb_frames s) \<noteq> Suc d \<or> blen base < offset f + pending_len_len f then None
             else Some (blen base - offset f - pending_len_len f))"

section \<open>Children\<close>

definition add_child :: "nat \<Rightarrow> nat \<Rightarrow> nat \<Rightarrow> bool \<Rightarrow> cbb_state \<Rightarrow> cbb_state" where
  "add_child d off len_len asn1 s =
     s\<lparr>cbb_frames := take (Suc d) (cbb_frames s) @
        [\<lparr>offset = off, pending_len_len = len_len, pending_is_asn1 = asn1, is_child = True\<rparr>]\<rparr>"

definition base_len :: "cbb_state \<Rightarrow> nat" where
  "base_len s = (case cbb_base s of None \<Rightarrow> 0 | Some base \<Rightarrow> blen base)"

definition cbb_add_length_prefixed :: "mem_env \<Rightarrow> nat \<Rightarrow> nat \<Rightarrow> cbb_state \<Rightarrow> (unit, cbb_state) outcome" where
  "cbb_add_length_prefixed env d len_len s =
     and_then (CBB_flush env d s) (\<lambda>_ s.
     let off = base_len s in
     and_then (on_base (\<lambda>base. cbb_buffer_add env base len_len) s) (\<lambda>prefix_bytes s.
     and_then (on_base (\<lambda>base. (Some (), base\<lparr>buf :=
         take prefix_bytes (buf base) @ replicate len_len 0 @ drop (prefix_bytes + len_len) (buf base)\<rparr>)) s) (\<lambda>_ s.
     (Some (), add_child d off len_len False s))))"

definition CBB_add_u8_length_prefixed :: "mem_env \<Rightarrow> nat \<Rightarrow> cbb_state \<Rightarrow> (unit, cbb_state) outcome" where
  "CBB_add_u8_length_prefixed env d s = cbb_add_length_prefixed env d 1 s"

definition CBB_add_u16_length_prefixed :: "mem_env \<Rightarrow> nat \<Rightarrow> cbb_state \<Rightarrow> (unit, cbb_state) outcome" where
  "CBB_add_u16_length_prefixed env d s = cbb_add_length_prefixed env d 2 s"

definition CBB_add_u24_length_prefixed :: "mem_env \<Rightarrow> nat \<Rightarrow> cbb_state \<Rightarrow> (unit, cbb_state) outcome" where
  "CBB_add_u24_length_prefixed env d s = cbb_add_length_prefixed env d 3 s"

section \<open>Integers and bytes\<close>

definition CBB_add_uint :: "mem_env \<Rightarrow> nat \<Rightarrow> u64 \<Rightarrow> nat \<Rightarrow> cbb_state \<Rightarrow> (unit, cbb_state) outcome" where
  "CBB_add_uint env d v len_len s =
     and_then (CBB_flush env d s) (\<lambda>_ s. on_base (\<lambda>base. cbb_buffer_add_u env base v len_len) s)"

definition CBB_add_u8 :: "mem_env \<Rightarrow> nat \<Rightarrow> u8 \<Rightarrow> cbb_state \<Rightarrow> (unit, cbb_state) outcome" where
  "CBB_add_u8 env d v s = CBB_add_uint env d (ucast v) 1 s"

definition CBB_add_u16 :: "mem_env \<Rightarrow> nat \<Rightarrow> u16 \<Rightarrow> cbb_state \<Rightarrow> (unit, cbb_state) outcome" where
  "CBB_add_u16 env d v s = CBB_add_uint env d (ucast v) 2 s"

definition CBB_add_u16le :: "mem_env \<Rightarrow> nat \<Rightarrow> u16 \<Rightarrow> cbb_state \<Rightarrow> (unit, cbb_state) outcome" where
  "CBB_add_u16le env d v s = CBB_add_u16 env d (CRYPTO_bswap2 v) s"

definition CBB_add_u24 :: "mem_env \<Rightarrow> nat \<Rightarrow> u32 \<Rightarrow> cbb_state \<Rightarrow> (unit, cbb_state) outcome" where
  "CBB_add_u24 env d v s = CBB_add_uint env d (ucast v) 3 s"

definition CBB_add_u32 :: "mem_env \<Rightarrow> nat \<Rightarrow> u32 \<Rightarrow> cbb_state \<Rightarrow> (unit, cbb_state) outcome" where
  "CBB_add_u32 env d v s = CBB_add_uint env d (ucast v) 4 s"

definition CBB_add_u32le :: "mem_env \<Rightarrow> nat \<Rightarrow> u32 \<Rightarrow> cbb_state \<Rightarrow> (unit, cbb_state) outcome" where
  "CBB_add_u32le env d v s = CBB_add_u32 env d (CRYPTO_bswap4 v) s"

definition CBB_add_u64 :: "mem_env \<Rightarrow> nat \<Rightarrow> u64 \<Rightarrow> cbb_state \<Rightarrow> (unit, cbb_state) outcome" where
  "CBB_add_u64 env d v s = CBB_add_uint env d v 8 s"

definition CBB_add_u64le :: "mem_env \<Rightarrow> nat \<Rightarrow> u64 \<Rightarrow> cbb_state \<Rightarrow> (unit, cbb_state) outcome" where
  "CBB_add_u64le env d v s = CBB_add_u64 env d (CRYPTO_bswap8 v) s"

definition CBB_add_bytes :: "mem_env \<Rightarrow> nat \<Rightarrow> bytes \<Rightarrow> nat \<Rightarrow> cbb_state \<Rightarrow> (unit, cbb_state) outcome" where
  "CBB_add_bytes env d data n s =
     and_then (CBB_flush env d s) (\<lambda>_ s. on_base (\<lambda>base.
       and_then (cbb_buffer_add env base n) (\<lambda>dest base.
         (Some (), base\<lparr>buf := take dest (buf base) @ take n data @ drop (dest + n) (buf base)\<rparr>))) s)"

definition CBB_add_space :: "mem_env \<Rightarrow> nat \<Rightarrow> nat \<Rightarrow> cbb_state \<Rightarrow> (nat, cbb_state) outcome" where
  "CBB_add_space env d n s =
     and_then (CBB_flush env d s) (\<lambda>_ s. on_base (\<lambda>base. cbb_buffer_add env base n) s)"

definition CBB_reserve :: "mem_env \<Rightarrow> nat \<Rightarrow> nat \<Rightarrow> cbb_state \<Rightarrow> (nat, cbb_state) outcome" where
  "CBB_reserve env d n s =
     and_then (CBB_flush env d s) (\<lambda>_ s. on_base (\<lambda>base. cbb_buffer_reserve env base n) s)"

definition CBB_did_write :: "nat \<Rightarrow> nat \<Rightarrow> cbb_state \<Rightarrow> (unit, cbb_state) outcome" where
  "CBB_did_write d n s =
     on_base (\<lambda>base.
       let newlen = size_add (blen base) n
       in if length (cbb_frames s) \<noteq> Suc d \<or> newlen < blen base \<or> newlen > cap base then (None, base)
          else (Some (), base\<lparr>blen := newlen\<rparr>)) s"

definition CBB_discard_child :: "nat \<Rightarrow> cbb_state \<Rightarrow> cbb_state" where
  "CBB_discard_child d s =
     (case drop (Suc d) (cbb_frames s) of [] \<Rightarrow> s
      | child # _ \<Rightarrow>
          s\<lparr>cbb_base := map_option (\<lambda>base. base\<lparr>blen := offset child\<rparr>) (cbb_base s),
            cbb_frames := take (Suc d) (cbb_frames s)\<rparr>)"

end
