(* ===== verification/DER.thy ===== *)
theory DER
  imports CBS
begin

text \<open>
  What the element parser of \<open>cbs.c\<close> accepts. \<open>base128\<close>, \<open>der_tag\<close>, \<open>der_len\<close> and
  \<open>der_element\<close> are the encodings of X.690 as functions on numbers and byte strings, written
  without reference to the code; the lemmas show that \<open>parse_base128_integer\<close>,
  \<open>parse_asn1_tag\<close> and \<open>CBS_get_any_asn1\<close> read exactly these strings.
\<close>

unbundle bit_operations_syntax

section \<open>Base-128 integers\<close>

fun base128_hi :: "nat \<Rightarrow> bytes" where
  "base128_hi n = (if n = 0 then [] else base128_hi (n div 128) @ [of_nat (n mod 128 + 128)])"

declare base128_hi.simps [simp del]

definition base128 :: "nat \<Rightarrow> bytes" where
  "base128 n = base128_hi (n div 128) @ [of_nat (n mod 128)]"

lemma base128_hi_0 [simp]: "base128_hi 0 = []"
  by (simp add: base128_hi.simps)

lemma base128_hi_digit:
  "0 < n * 128 + d \<Longrightarrow> d < 128 \<Longrightarrow> base128_hi (n * 128 + d) = base128_hi n @ [of_nat (d + 128)]"
  by (subst base128_hi.simps) simp

lemma base128_digit: "d < 128 \<Longrightarrow> base128 (n * 128 + d) = base128_hi n @ [of_nat d]"
  by (simp add: base128_def)

text \<open>One step of the loop, on numbers.\<close>

lemma base128_step:
  assumes "drop_bit (64 - 7) v = 0"
  shows "unat (push_bit 7 v OR ucast (b AND 0x7f) :: u64) = unat (v :: u64) * 128 + unat (b :: u8) mod 128"
proof -
  have "unat v div 2 ^ 57 = 0" using assms unat_drop [of "64 - 7" v] by simp
  then have "unat v < 2 ^ 57" by simp
  moreover have u: "unat (ucast (b AND 0x7f) :: u64) = unat b mod 128" 
    by (simp add: unat_and_7f unsigned_ucast_eq take_bit_nat_def)
  moreover have "unat b mod 128 < 128" by simp
  ultimately show ?thesis by (subst unat_push_or) (simp_all add: u)
qed

lemma base128_loop_unfold:
  "parse_base128_loop c v =
    (if cbs_len c = 0 then (None, c)
     else let b = cbs_data c ! 0; v' = push_bit 7 v OR ucast (b AND 0x7f) in
       if drop_bit (64 - 7) v \<noteq> 0 \<or> v = 0 \<and> b = 0x80 then (None, advance c 1)
       else if b AND 0x80 \<noteq> 0 then parse_base128_loop (advance c 1) v' else (Some v', advance c 1))"
  by (subst parse_base128_loop.simps) (auto simp: CBS_get_u8_advance Let_def)

lemma base128_loop_sound:
  assumes "parse_base128_loop c v = (Some w, c')" and "wf_cbs c"
  shows "\<exists>bs. bs \<noteq> [] \<and> base128_hi (unat v) @ bs = base128 (unat w) \<and> c' = advance c (length bs) \<and>
    cbs_bytes c = bs @ cbs_bytes c'"
  using assms
proof (induction c v arbitrary: w c' rule: parse_base128_loop.induct)
  case (1 c v)
  let ?b = "cbs_bytes c ! 0" and ?v = "push_bit 7 v OR ucast (cbs_bytes c ! 0 AND 0x7f) :: u64"
  from "1.prems" have len: "0 < cbs_len c" and ok: "drop_bit 57 v = 0" "\<not> (v = 0 \<and> ?b = 0x80)"
    and rest: "if ?b AND 0x80 \<noteq> 0 then parse_base128_loop (advance c 1) ?v = (Some w, c')
         else w = ?v \<and> c' = advance c 1"
    by (auto simp: base128_loop_unfold [of c v] Let_def nth_data split: if_splits)
  have v': "unat ?v = unat v * 128 + unat ?b mod 128"
    using ok(1) by (intro base128_step) simp
  have hd: "cbs_bytes c = ?b # drop 1 (cbs_bytes c)"
    by (rule first_byte [OF "1.prems"(2) len])
  show ?case
  proof (cases "?b AND 0x80 = 0")
    case True
    then have "unat ?b mod 128 = unat ?b" by (simp add: and_80_zero)
    with True rest v' hd show ?thesis
      by (intro exI [of _ "[?b]"]) (simp add: base128_digit)
  next
    case False
    then have big: "128 \<le> unat ?b" by (simp add: and_80_zero)
    then have m: "unat ?b mod 128 + 128 = unat ?b" by (rule high_byte)
    have pos: "0 < unat v * 128 + unat ?b mod 128"
    proof (rule ccontr)
      assume "\<not> 0 < unat v * 128 + unat ?b mod 128"
      then have "unat v = 0" and "unat ?b = 128" using m by auto
      with ok(2) show False by (simp add: word_unat_eq_iff)
    qed
    have hi: "base128_hi (unat ?v) = base128_hi (unat v) @ [?b]"
      unfolding v' using pos by (subst base128_hi_digit) (simp_all add: m)
    have "\<exists>bs. bs \<noteq> [] \<and> base128_hi (unat ?v) @ bs = base128 (unat w) \<and>
        c' = advance (advance c 1) (length bs) \<and> cbs_bytes (advance c 1) = bs @ cbs_bytes c'"
      using False rest "1.prems"(2) ok len
      by (intro "1.IH" [of ?b]) (simp_all add: CBS_get_u8_advance nth_data Let_def)
    then obtain bs where "bs \<noteq> []" "base128_hi (unat ?v) @ bs = base128 (unat w)"
      "c' = advance c (1 + length bs)" "drop 1 (cbs_bytes c) = bs @ cbs_bytes c'" by auto
    with hi hd show ?thesis by (intro exI [of _ "?b # bs"]) simp
  qed
qed

lemma base128_loop_step:
  assumes "wf_cbs c" and "cbs_bytes c = b # rest" and "unat (v::u64) < 2 ^ 57" and "\<not> (v = 0 \<and> b = 0x80)"
  shows "parse_base128_loop c v =
    (if b AND 0x80 \<noteq> 0 then parse_base128_loop (advance c 1) (of_nat (unat v * 128 + unat b mod 128))
     else (Some (of_nat (unat v * 128 + unat b mod 128)), advance c 1))"
proof -
  have len: "0 < cbs_len c" using assms(1,2) length_cbs_bytes [of c] by simp
  then have b: "cbs_data c ! 0 = b" using assms(2) by (simp add: nth_data)
  have d: "drop_bit (64 - 7) v = 0" 
    using assms(3) by (simp only: word_unat_eq_iff unat_drop) simp
  have "push_bit 7 v OR ucast (b AND 0x7f) = (of_nat (unat v * 128 + unat b mod 128) :: u64)"
    by (simp only: flip: base128_step [OF d]) simp
  with len b d assms(4) show ?thesis by (auto simp: base128_loop_unfold [of c v] Let_def)
qed


lemma base128_loop_hi:
  assumes "wf_cbs c" and "n < 2 ^ 57" and "cbs_bytes c = base128_hi n @ rest"
  shows "parse_base128_loop c 0 = parse_base128_loop (advance c (length (base128_hi n))) (of_nat n)"
  using assms
proof (induction n arbitrary: rest rule: base128_hi.induct)
  case (1 n)
  show ?case
  proof (cases "n = 0")
    case False
    let ?m = "n div 128" and ?b = "of_nat (n mod 128 + 128) :: u8"
    have hi: "base128_hi n = base128_hi ?m @ [?b]" using False by (subst base128_hi.simps) simp
    have m: "?m < 2 ^ 57" using "1.prems"(2) by (simp add: less_mult_imp_div_less)
    let ?c = "advance c (length (base128_hi ?m))"
    have u: "unat ?b = n mod 128 + 128" by (rule unat_of_nat_less) simp
    have um: "unat (of_nat ?m :: u64) = ?m" using m by (simp add: unat_of_nat)
    have "parse_base128_loop c 0 = parse_base128_loop ?c (of_nat ?m)"
      using False hi m "1.prems" by (intro "1.IH") simp_all
    also have "\<dots> = parse_base128_loop (advance ?c 1) (of_nat n)"
    proof -
      have b: "cbs_bytes ?c = ?b # rest" using "1.prems" hi by simp
      have nz: "\<not> (of_nat ?m = (0 :: u64) \<and> ?b = 0x80)"
      proof
        assume "of_nat ?m = (0 :: u64) \<and> ?b = 0x80"
        then have "?m = 0" "n mod 128 = 0" using um u by auto
        then show False using False by (metis div_mult_mod_eq mult_0 add_0)
      qed
      have "parse_base128_loop ?c (of_nat ?m) =
          (if ?b AND 0x80 \<noteq> 0
           then parse_base128_loop (advance ?c 1) (of_nat (?m * 128 + unat ?b mod 128))
           else (Some (of_nat (?m * 128 + unat ?b mod 128)), advance ?c 1))"
        using base128_loop_step [OF _ b, of "of_nat ?m"] "1.prems"(1) um m nz by simp
      moreover have "?b AND 0x80 \<noteq> 0" unfolding and_80_zero u by simp
      moreover have "?m * 128 + unat ?b mod 128 = n" unfolding u by simp
      ultimately show ?thesis by (simp only: if_True not_False_eq_True)
    qed
    finally show ?thesis by (simp add: hi)
  qed simp
qed

lemma base128_complete:
  assumes "wf_cbs c" and "n < 2 ^ 64" and "cbs_bytes c = base128 n @ rest"
  shows "parse_base128_integer c = (Some (of_nat n), advance c (length (base128 n)))"
proof -
  let ?m = "n div 128" and ?b = "of_nat (n mod 128) :: u8"
  let ?c = "advance c (length (base128_hi ?m))"
  have m: "?m < 2 ^ 57" using assms(2) by (simp add: less_mult_imp_div_less)
  have um: "unat (of_nat ?m :: u64) = ?m" using m by (simp add: unat_of_nat)
  have u: "unat ?b = n mod 128" by (simp add: unat_of_nat)
  have "parse_base128_integer c = parse_base128_loop ?c (of_nat ?m)"
    unfolding parse_base128_integer_def using assms m
    by (intro base128_loop_hi [where rest = "?b # rest"]) (simp_all add: base128_def)
  moreover have b: "cbs_bytes ?c = ?b # rest" using assms(3) by (simp add: base128_def)
  moreover have "?b \<noteq> 0x80" using u by (auto dest: arg_cong [where f = unat])
  moreover have "?b AND 0x80 = 0" by (simp add: and_80_zero u)
  ultimately show ?thesis
    using base128_loop_step [OF _ b, of "of_nat ?m"] assms(1) um m u by (simp add: base128_def)
qed
interpretation b128: codec parse_base128_integer "\<lambda>v::u64. base128 (unat v)" "\<lambda>_::u64. True"
proof
  fix c rest and v :: u64 assume "wf_cbs c" "cbs_bytes c = base128 (unat v) @ rest"
  then show "parse_base128_integer c = (Some v, advance c (length (base128 (unat v))))"
    using base128_complete [of c "unat v" rest] unsigned_less [of v, where ?'a = nat] by simp
next
  fix c c' and v :: u64 assume "wf_cbs c" "parse_base128_integer c = (Some v, c')"
  then show "True \<and> c' = advance c (length (base128 (unat v))) \<and>
    (\<exists>rest. cbs_bytes c = base128 (unat v) @ rest)"
    using base128_loop_sound [of c 0 v c'] unfolding parse_base128_integer_def
    by (metis append_Nil base128_hi_0 unsigned_0)
qed

section \<open>Tags\<close>

definition der_tag :: "u32 \<Rightarrow> bytes" where
  "der_tag tag =
     (let lead = unat tag div 2 ^ 29; num = unat tag mod 2 ^ 29
      in if num < 31 then [of_nat (32 * lead + num)] else of_nat (32 * lead + 31) # base128 num)"

definition len_octets :: "nat \<Rightarrow> nat" where
  "len_octets n = (if n < 256 then 1 else if n < 256 ^ 2 then 2 else if n < 256 ^ 3 then 3 else 4)"

definition der_len :: "nat \<Rightarrow> bytes" where
  "der_len n =
     (if n < 128 then [of_nat n] else of_nat (128 + len_octets n) # be_bytes (len_octets n) n)"

definition der_element :: "u32 \<times> bytes \<Rightarrow> bytes" where
  "der_element e = der_tag (fst e) @ der_len (length (snd e)) @ snd e"

lemma and_e0: "(b :: u8) AND 0xe0 = push_bit 5 (drop_bit 5 b)"
proof -
  have m: "(0xe0 :: u8) = NOT (mask 5)" by (simp add: mask_eq_exp_minus_1)
  show ?thesis unfolding m
    by (rule bit_word_eqI) (auto simp: bit_simps)
qed

lemma ucast_and_e0: "(ucast (b :: u8) AND 0xe0 :: u32) = push_bit 5 (ucast (drop_bit 5 b))"
proof -
  have "(ucast b AND 0xe0 :: u32) = ucast (b AND 0xe0)"
    by (simp add: unsigned_and_eq)
  also have "\<dots> = push_bit 5 (ucast (drop_bit 5 b))"
    unfolding and_e0 by (rule bit_word_eqI) (auto simp: bit_simps dest: bit_imp_le_length)
  finally show ?thesis .
qed

lemma tag_parts:
  assumes "unat n < 2 ^ 29"
  shows "unat (push_bit CBS_ASN1_TAG_SHIFT (ucast (b :: u8) AND 0xe0) OR n :: u32) =
    unat b div 32 * 2 ^ 29 + unat n"
proof -
  have "unat b div 32 < 8" using unat_u8_less [of b] by linarith
  then have "unat (push_bit 29 (ucast (drop_bit 5 b)) OR n :: u32) = unat b div 32 * 2 ^ 29 + unat n"
    using assms by (subst unat_push_or) (simp_all add: unat_ucast_up unat_drop)
  then show ?thesis by (simp add: ucast_and_e0 CBS_ASN1_TAG_SHIFT_def push_bit_push_bit)
qed

lemma parse_asn1_tag_eq:
  "parse_asn1_tag c =
     (if cbs_len c = 0 then (None, c)
      else let b = cbs_data c ! 0; lead = push_bit CBS_ASN1_TAG_SHIFT (ucast b AND 0xe0)
           in if unat b mod 32 = 31
              then and_then (parse_base128_integer (advance c 1)) (\<lambda>v c.
                     if unat v < 31 \<or> 2 ^ 29 \<le> unat v then (None, c) else (Some (lead OR ucast v), c))
              else (Some (lead OR ucast (b AND 0x1f)), advance c 1))"
proof -
  have m: "(v > ucast CBS_ASN1_TAG_NUMBER_MASK \<or> v < 0x1f) \<longleftrightarrow> (unat v < 31 \<or> 2 ^ 29 \<le> unat v)" for v :: u64
    by (auto simp: CBS_ASN1_TAG_NUMBER_MASK_def CBS_ASN1_TAG_SHIFT_def word_less_nat_alt)
  have n: "(ucast (b AND 0x1f) = (0x1f :: u32)) \<longleftrightarrow> unat b mod 32 = 31" for b :: u8
  proof -
    have "unat (ucast (b AND 0x1f) :: u32) = unat b mod 32" by (simp add: unat_ucast_up unat_and_1f)
    then show ?thesis by (simp add: word_unat_eq_iff)
  qed
  show ?thesis
    unfolding parse_asn1_tag_def m by (simp add: CBS_get_u8_advance Let_def n)
qed

lemma der_tag_parts:
  assumes "unat t = lead * 2 ^ 29 + n" and "n < 2 ^ 29"
  shows "der_tag t = (if n < 31 then [of_nat (32 * lead + n)] else of_nat (32 * lead + 31) # base128 n)"
proof -
  have "unat t div 2 ^ 29 = lead" "unat t mod 2 ^ 29 = n" using assms by simp_all
  then show ?thesis by (simp only: der_tag_def Let_def)
qed

lemma der_tag_high:
  assumes "unat t = unat b div 32 * 2 ^ 29 + n" "n < 2 ^ 29" "unat b mod 32 = 31" "31 \<le> n"
  shows "der_tag t = b # base128 n"
proof -
  have "32 * (unat b div 32) + 31 = unat b" using assms(3) by (metis mult_div_mod_eq)
  then have "of_nat (32 * (unat b div 32) + 31) = b" by (simp only: of_nat_unat ucast_id)
  then show ?thesis using der_tag_parts [OF assms(1,2)] assms(4) by (simp only: not_less [symmetric] if_False)
qed

lemma der_tag_low:
  assumes "unat t = unat b div 32 * 2 ^ 29 + unat b mod 32" "unat b mod 32 \<noteq> 31"
  shows "der_tag t = [b]"
proof -
  have lt: "unat b mod 32 < 31" using assms(2) mod_less_divisor [of 32 "unat b"] by linarith
  have "of_nat (32 * (unat b div 32) + unat b mod 32) = b" by (simp only: mult_div_mod_eq of_nat_unat ucast_id)
  then show ?thesis using der_tag_parts [OF assms(1)] lt by (simp only: if_True) simp
qed

lemma parse_asn1_tag_sound:
  assumes wf: "wf_cbs c" and ok: "parse_asn1_tag c = (Some t, c')"
  shows "c' = advance c (length (der_tag t)) \<and> cbs_bytes c = der_tag t @ cbs_bytes c'"
proof -
  let ?b = "cbs_bytes c ! 0"
  from ok have len: "0 < cbs_len c" by (auto simp: parse_asn1_tag_eq split: if_splits)
  have hd: "cbs_bytes c = ?b # drop 1 (cbs_bytes c)"
    by (rule first_byte [OF wf len])
  show ?thesis
  proof (cases "unat ?b mod 32 = 31")
    case True
    then obtain v where v: "parse_base128_integer (advance c 1) = (Some v, c')" "31 \<le> unat v" "unat v < 2 ^ 29"
      and t: "t = push_bit CBS_ASN1_TAG_SHIFT (ucast ?b AND 0xe0) OR ucast v"
      using ok len by (auto simp: parse_asn1_tag_eq Let_def nth_data and_then_Some not_less split: if_splits)
    have uv: "unat (ucast v :: u32) = unat v" using v(3) by (simp add: unsigned_ucast_eq take_bit_nat_eq_self)
    have "der_tag t = ?b # base128 (unat v)"
      using v True tag_parts [of "ucast v :: u32" ?b] uv unfolding t by (intro der_tag_high) simp_all
    moreover have "c' = advance c (1 + length (base128 (unat v)))"
      "drop 1 (cbs_bytes c) = base128 (unat v) @ cbs_bytes c'"
      using v(1) wf by (simp_all add: b128.reads_iff)
    ultimately show ?thesis using hd by simp
  next
    case False
    then have t: "t = push_bit CBS_ASN1_TAG_SHIFT (ucast ?b AND 0xe0) OR ucast (?b AND 0x1f)" and c': "c' = advance c 1"
      using ok len by (auto simp: parse_asn1_tag_eq Let_def nth_data)
    have un: "unat (ucast (?b AND 0x1f) :: u32) = unat ?b mod 32" by (simp add: unat_ucast_up unat_and_1f)
    have "unat ?b mod 32 < 2 ^ 29" by (rule less_trans [of _ 32]) simp_all
    then have "der_tag t = [?b]" using False tag_parts [of "ucast (?b AND 0x1f) :: u32" ?b] un
      unfolding t by (intro der_tag_low) simp_all
    with hd c' show ?thesis by simp
  qed
qed

lemma parse_asn1_tag_complete:
  assumes wf: "wf_cbs c" and eq: "cbs_bytes c = der_tag t @ rest"
  shows "parse_asn1_tag c = (Some t, advance c (length (der_tag t)))"
proof -
  let ?L = "unat t div 2 ^ 29" and ?n = "unat t mod 2 ^ 29"
  have t: "unat t = ?L * 2 ^ 29 + ?n" by simp
  have n: "?n < 2 ^ 29" by simp
  have "unat t < 2 ^ 32" using unsigned_less [of t, where ?'a = nat] by simp
  then have L: "?L < 8" by (simp add: less_mult_imp_div_less)
  have parts: "der_tag t = (if ?n < 31 then [of_nat (32 * ?L + ?n)] else of_nat (32 * ?L + 31) # base128 ?n)"
    by (rule der_tag_parts [OF t n])
  obtain b bs where b: "der_tag t = b # bs" using parts by (auto split: if_splits)
  have len: "0 < cbs_len c" and b0: "cbs_data c ! 0 = b"
    using eq b wf length_cbs_bytes [of c] by (auto simp: nth_data simp flip: length_cbs_bytes)
  show ?thesis
  proof (cases "?n < 31")
    case True
    then have bn: "b = of_nat (32 * ?L + ?n)" "bs = []" using parts b by auto
    have ub: "unat b = 32 * ?L + ?n" unfolding bn using True L by (intro unat_of_nat_less) simp
    have m: "unat b mod 32 = ?n" unfolding ub using True by simp
    have un: "unat (ucast (b AND 0x1f) :: u32) = ?n" unfolding m [symmetric] by (simp add: unat_ucast_up unat_and_1f)
    have "unat (push_bit CBS_ASN1_TAG_SHIFT (ucast b AND 0xe0) OR ucast (b AND 0x1f) :: u32) = unat t"
      using tag_parts [of "ucast (b AND 0x1f) :: u32" b] True ub un by simp
    then have "push_bit CBS_ASN1_TAG_SHIFT (ucast b AND 0xe0) OR ucast (b AND 0x1f) = t"
      by (simp only: word_unat_eq_iff)
    with True len b0 m b bn(2) show ?thesis by (simp add: parse_asn1_tag_eq Let_def)
  next
    case False
    then have bn: "b = of_nat (32 * ?L + 31)" "bs = base128 ?n" using parts b by auto
    have ub: "unat b = 32 * ?L + 31" unfolding bn using L by (intro unat_of_nat_less) simp
    have m: "unat b mod 32 = 31" unfolding ub by simp
    have uv: "unat (of_nat ?n :: u64) = ?n" by (rule unat_of_nat_less) (rule less_trans [OF n], simp)
    have uw: "unat (of_nat ?n :: u32) = ?n" by (rule unat_of_nat_less) (rule less_trans [OF n], simp)
    have uc: "ucast (of_nat ?n :: u64) = (of_nat ?n :: u32)"
      unfolding word_unat_eq_iff uw using uv n by (simp add: unsigned_ucast_eq take_bit_nat_eq_self)
    have "parse_base128_integer (advance c 1) = (Some (of_nat ?n), advance (advance c 1) (length (base128 ?n)))"
      by (rule base128_complete [where rest = rest]) (use wf eq b bn uv less_trans [OF n, of "2^64"] in simp_all)
    moreover have "unat (push_bit CBS_ASN1_TAG_SHIFT (ucast b AND 0xe0) OR of_nat ?n :: u32) = unat t"
      using tag_parts [of "of_nat ?n :: u32" b] ub uw by simp
    then have "push_bit CBS_ASN1_TAG_SHIFT (ucast b AND 0xe0) OR of_nat ?n = t"
      by (simp only: word_unat_eq_iff)
    ultimately show ?thesis using False len b0 m b bn(2) uv uc
      by (simp add: parse_asn1_tag_eq Let_def not_le)
  qed
qed

interpretation asn1_tag: codec parse_asn1_tag der_tag "\<lambda>_. True"
  by unfold_locales (auto intro: parse_asn1_tag_complete dest: parse_asn1_tag_sound)

section \<open>Lengths and elements\<close>

lemma length_base128_hi: "n < 128 ^ k \<Longrightarrow> length (base128_hi n) \<le> k"
proof (induction k arbitrary: n)
  case (Suc k)
  then have "n div 128 < 128 ^ k" by (simp add: less_mult_imp_div_less mult.commute)
  with Suc.IH show ?case by (subst base128_hi.simps) simp
qed simp

lemma length_der_tag: "length (der_tag t) \<le> 6"
proof -
  have "unat t mod 2 ^ 29 div 128 < 128 ^ 4" by (rule less_mult_imp_div_less, rule less_trans [of _ "2^29"]) simp_all
  then have "length (base128_hi (unat t mod 2 ^ 29 div 128)) \<le> 4" by (rule length_base128_hi)
  then show ?thesis by (simp add: der_tag_def Let_def base128_def)
qed

lemma len_octets_bounds: "1 \<le> len_octets n" "len_octets n \<le> 4"
  by (simp_all add: len_octets_def)

lemma len_octets_unique:
  assumes "256 ^ (k - 1) \<le> n" "n < 256 ^ k" "1 \<le> k" "k \<le> 4"
  shows "len_octets n = k"
proof -
  have "k = 1 \<or> k = 2 \<or> k = 3 \<or> k = 4" using assms(3,4) by auto
  then show ?thesis using assms(1,2) by (auto simp: len_octets_def)
qed

lemma len_octets_range: "128 \<le> n \<Longrightarrow> n < 256 ^ 4 \<Longrightarrow> 256 ^ (len_octets n - 1) \<le> n \<and> n < 256 ^ len_octets n"
  by (simp add: len_octets_def)

text \<open>The length octets as the element parser reads them, on the bytes after the tag.\<close>

definition der_length :: "bytes \<Rightarrow> (nat \<times> nat) option" where
  "der_length bs =
     (case bs of [] \<Rightarrow> None
      | b # r \<Rightarrow>
        if unat b < 128 then Some (unat b, 1)
        else let k = unat b - 128; n = be_val (take k r)
             in if k = 0 \<or> 4 < k \<or> length r < k \<or> n < 128 \<or> n < 256 ^ (k - 1) then None else Some (n, 1 + k))"

lemma der_length_iff:
  "der_length bs = Some (n, k) \<longleftrightarrow>
     n < 2 ^ 32 \<and> k = length (der_len n) \<and> (\<exists>r. bs = der_len n @ r)"
proof
  assume ok: "der_length bs = Some (n, k)"
  then obtain b r where bs: "bs = b # r" by (auto simp: der_length_def split: list.splits)
  show "n < 2 ^ 32 \<and> k = length (der_len n) \<and> (\<exists>r. bs = der_len n @ r)"
  proof (cases "unat b < 128")
    case True
    with ok bs show ?thesis by (auto simp: der_length_def der_len_def)
  next
    case False
    let ?j = "unat b - 128"
    from False ok bs have j: "1 \<le> ?j" "?j \<le> 4" "?j \<le> length r" and n: "n = be_val (take ?j r)" "128 \<le> n" "256 ^ (?j - 1) \<le> n"
      and k: "k = 1 + ?j"
      by (auto simp: der_length_def Let_def not_less split: if_splits)
    have lt: "n < 256 ^ ?j" using be_val_less [of "take ?j r"] j n by simp
    have oct: "len_octets n = ?j" using n lt j by (intro len_octets_unique)
    have b: "of_nat (128 + ?j) = b" using False by (simp add: unat_of_nat word_unat_eq_iff unat_of_nat_u8 del: of_nat_add of_nat_diff)
    have "n < 256 ^ 4" using lt j(2) by (meson less_le_trans one_le_numeral power_increasing)
    moreover have "be_bytes ?j n = take ?j r" using be_bytes_be_val [of "take ?j r"] j n by simp
    ultimately have "der_len n = b # take ?j r"
      using n(2) b oct by (simp add: der_len_def del: of_nat_add of_nat_diff)
    moreover have "n < 2 ^ 32" using \<open>n < 256 ^ 4\<close> by simp
    ultimately show ?thesis using k bs j(3) by (auto intro: exI [of _ "drop ?j r"])
  qed
next
  assume "n < 2 ^ 32 \<and> k = length (der_len n) \<and> (\<exists>r. bs = der_len n @ r)"
  then obtain r where n: "n < 256 ^ 4" and k: "k = length (der_len n)" and bs: "bs = der_len n @ r" by auto
  show "der_length bs = Some (n, k)"
  proof (cases "n < 128")
    case True
    with k bs show ?thesis by (simp add: der_length_def der_len_def unat_of_nat_u8)
  next
    case False
    have j: "1 \<le> len_octets n" "len_octets n \<le> 4" by (rule len_octets_bounds)+
    have r: "256 ^ (len_octets n - 1) \<le> n" "n < 256 ^ len_octets n" using len_octets_range False n by auto
    have u: "unat (of_nat (128 + len_octets n) :: u8) = 128 + len_octets n" using j by (intro unat_of_nat_less) simp
    show ?thesis using False j r k bs unfolding der_length_def der_len_def
      by (simp add: u be_val_be_bytes Let_def del: of_nat_add)
  qed
qed

text \<open>The long form of the length, read from \<open>h\<close>, which starts with the \<open>k\<close> length octets.\<close>

lemma long_length:
  fixes h :: cbs_st and k :: nat
  defines "n \<equiv> be_val (take k (cbs_bytes h))" and "w \<equiv> be_word (take k (cbs_data h)) :: u64"
  assumes "1 \<le> k" "k \<le> 4" "k \<le> cbs_len h"
  shows "unat w = n" "n < 256 ^ 4" "w < 128 \<longleftrightarrow> n < 128"
    "drop_bit ((k - 1) * 8) w = 0 \<longleftrightarrow> n < 256 ^ (k - 1)"
proof -
  show un: "unat w = n"
    unfolding w_def n_def using assms(4,5) by (subst unat_be_word) (auto simp: take_data)
  have "n < 256 ^ length (take k (cbs_bytes h))" unfolding n_def by (rule be_val_less)
  also have "(256::nat) ^ length (take k (cbs_bytes h)) \<le> 256 ^ 4"
    using assms(4) by (intro power_increasing) simp_all
  finally show "n < 256 ^ 4" .
  show "w < 128 \<longleftrightarrow> n < 128" by (simp add: word_less_nat_alt un)
  have "(2::nat) ^ ((k - 1) * 8) = 256 ^ (k - 1)" by (subst mult.commute) (simp add: power_mult)
  then show "drop_bit ((k - 1) * 8) w = 0 \<longleftrightarrow> n < 256 ^ (k - 1)"
    unfolding word_unat_eq_iff unat_drop un by (simp add: div_eq_0_iff)
qed

text \<open>The parser once the tag is read and \<open>h\<close> is the \<open>CBS\<close> behind it: first the short form.\<close>

lemma element_short:
  assumes tag: "parse_asn1_tag c = (Some t, h)" and hd: "cbs_bytes h = b # r" and wf: "wf_cbs h"
    and tl: "length (der_tag t) + cbs_len h = cbs_len c" and b: "unat b < 128"
  shows "cbs_get_any_asn1_element c False =
    (let hl = length (der_tag t) + 1 in
     if cbs_len c < hl + unat b then (None, c)
     else (Some (CBS_init (cbs_data c) (hl + unat b), t, hl), advance c (hl + unat b)))"
proof -
  have len: "0 < cbs_len h" using hd wf length_cbs_bytes [of h] by simp
  then have u8: "CBS_get_u8 h = (Some b, advance h 1)" using hd by (simp add: CBS_get_u8_advance nth_data)
  have hl: "CBS_len c - CBS_len (advance h 1) = length (der_tag t) + 1"
    using tl len by (simp add: CBS_len_def)
  have "size_add (unat b) (length (der_tag t) + 1) = length (der_tag t) + 1 + unat b"
    using b length_der_tag [of t] by (simp add: size_add_def SIZE_LIMIT_def)
  moreover have "b AND 0x80 = 0" using b by (simp add: and_80_zero)
  ultimately show ?thesis
    unfolding cbs_get_any_asn1_element_def tag prod.case option.case u8 Let_def hl
    by (simp add: CBS_get_bytes_eq)
qed

lemma element_long:
  assumes tag: "parse_asn1_tag c = (Some t, h)" and hd: "cbs_bytes h = b # r" and wf: "wf_cbs h"
    and tl: "length (der_tag t) + cbs_len h = cbs_len c" and b: "\<not> unat b < 128"
  shows "cbs_get_any_asn1_element c False =
    (let k = unat b - 128; n = be_val (take k r); hl = length (der_tag t) + 1 + k in
     if k = 0 \<or> 4 < k \<or> length r < k \<or> n < 128 \<or> n < 256 ^ (k - 1) \<or> cbs_len c < hl + n then (None, c)
     else (Some (CBS_init (cbs_data c) (hl + n), t, hl), advance c (hl + n)))"
proof -
  define h1 where "h1 = advance h 1"
  have len: "cbs_len h = Suc (length r)" using hd wf length_cbs_bytes [of h] by simp
  have h1: "cbs_len h1 = length r" "cbs_bytes h1 = r" using len hd by (simp_all add: h1_def)
  have u8: "CBS_get_u8 h = (Some b, h1)" using len hd by (simp add: CBS_get_u8_advance nth_data h1_def)
  define L where "L = length (der_tag t) + 1"
  have hl: "CBS_len c - CBS_len h1 = L" using tl len by (simp add: CBS_len_def h1_def L_def)
  define k where "k = unat b - 128"
  have kb: "unat (b AND 0x7f) = k" using high_byte [of b] b by (simp add: k_def unat_and_7f)
  have ge: "b AND 0x80 \<noteq> 0" using b by (simp add: and_80_zero)
  note start = cbs_get_any_asn1_element_def tag u8 Let_def hl kb
  show ?thesis
  proof (cases "k = 0 \<or> 4 < k \<or> length r < k")
    case True
    then show ?thesis using ge by (auto simp: start cbs_get_u_eq h1 simp flip: k_def)
  next
    case k: False
    then have k': "1 \<le> k" "k \<le> 4" "k \<le> cbs_len h1" by (simp_all add: h1)
    note n = long_length [OF k', unfolded h1]
    have sz: "size_add m L = L + m" "size_add L k = L + k" "size_add (L + m) k = L + k + m"
      "size_add m (L + k) = L + k + m" if "m < 256 ^ 4" for m
      using that length_der_tag [of t] k' by (auto simp: L_def size_add_def SIZE_LIMIT_def)
    have gu: "cbs_get_u h1 k = (Some (be_word (take k (cbs_data h1))), advance h1 k)"
      using k' by (simp add: cbs_get_u_eq)
    show ?thesis
      using k' ge k by (simp add: start gu n sz [OF n(2)] CBS_get_bytes_eq del: One_nat_def flip: k_def L_def)
  qed
qed

lemma element_eq:
  assumes wf: "wf_cbs c"
  shows "cbs_get_any_asn1_element c False =
    (case parse_asn1_tag c of (None, _) \<Rightarrow> (None, c)
     | (Some t, h) \<Rightarrow>
       (case der_length (cbs_bytes h) of None \<Rightarrow> (None, c)
        | Some (n, k) \<Rightarrow>
          let hl = length (der_tag t) + k
          in if cbs_len c < hl + n then (None, c)
             else (Some (CBS_init (cbs_data c) (hl + n), t, hl), advance c (hl + n))))"
proof (cases "parse_asn1_tag c")
  case (Pair r h)
  show ?thesis
  proof (cases r)
    case None
    with Pair show ?thesis by (simp add: cbs_get_any_asn1_element_def)
  next
    case (Some t)
    then have tag: "parse_asn1_tag c = (Some t, h)" using Pair by simp
    then have th: "h = advance c (length (der_tag t)) \<and> cbs_bytes c = der_tag t @ cbs_bytes h"
      by (rule parse_asn1_tag_sound [OF wf])
    then have wfh: "wf_cbs h" using wf by (metis wf_advance)
    have tl: "length (der_tag t) + cbs_len h = cbs_len c"
      using arg_cong [OF conjunct2 [OF th], of length] wf wfh by simp
    show ?thesis
    proof (cases "cbs_bytes h")
      case Nil
      then have "cbs_len h = 0" using wfh length_cbs_bytes [of h] by simp
      with Nil tag show ?thesis
        by (simp add: cbs_get_any_asn1_element_def CBS_get_u8_advance der_length_def)
    next
      case (Cons b r)
      show ?thesis
      proof (cases "unat b < 128")
        case True
        then show ?thesis using element_short [OF tag Cons wfh tl]
          by (simp add: tag Cons der_length_def Let_def)
      next
        case False
        then show ?thesis using element_long [OF tag Cons wfh tl]
          by (simp add: tag Cons der_length_def Let_def)
      qed
    qed
  qed
qed

theorem element_sound:
  assumes wf: "wf_cbs c" and ok: "CBS_get_any_asn1_element c = (Some (out, t, hl), c')"
  shows "\<exists>body. length body < 2 ^ 32 \<and> cbs_bytes out = der_element (t, body) \<and>
    hl = length (der_element (t, body)) - length body \<and>
    cbs_bytes c = der_element (t, body) @ cbs_bytes c' \<and>
    out = CBS_init (cbs_data c) (length (der_element (t, body))) \<and>
    c' = advance c (length (der_element (t, body)))"
proof -
  from ok obtain h where th: "parse_asn1_tag c = (Some t, h)"
    unfolding CBS_get_any_asn1_element_def element_eq [OF wf]
    by (auto simp: Let_def split: prod.splits option.splits if_splits)
  then have "h = advance c (length (der_tag t)) \<and> cbs_bytes c = der_tag t @ cbs_bytes h"
    by (rule parse_asn1_tag_sound [OF wf])
  then have h: "h = advance c (length (der_tag t))" and eq: "cbs_bytes c = der_tag t @ cbs_bytes h"
    by blast+
  from ok th obtain n k where nk: "der_length (cbs_bytes h) = Some (n, k)" and hl: "hl = length (der_tag t) + k"
    and fits: "hl + n \<le> cbs_len c" and out: "out = CBS_init (cbs_data c) (hl + n)" and c': "c' = advance c (hl + n)"
    unfolding CBS_get_any_asn1_element_def element_eq [OF wf]
    by (auto simp: Let_def split: option.splits if_splits)
  from nk obtain r where n: "n < 2 ^ 32" and k: "k = length (der_len n)" and r: "cbs_bytes h = der_len n @ r"
    by (auto simp: der_length_iff)
  have bc: "cbs_bytes c = der_tag t @ der_len n @ r" using eq r by simp
  have rl: "n \<le> length r" using arg_cong [OF bc, of length] wf fits hl k by simp
  define body where "body = take n r"
  have lb: "length body = n" using rl by (simp add: body_def)
  have e: "der_element (t, body) = der_tag t @ der_len n @ body" by (simp add: der_element_def lb)
  have le: "length (der_element (t, body)) = hl + n" using e hl k lb by simp
  have bc': "cbs_bytes c = der_element (t, body) @ drop n r" using bc e by (simp add: body_def)
  moreover have "drop n r = cbs_bytes c'" using bc' c' le by simp
  moreover have "cbs_bytes out = der_element (t, body)"
    using bc' fits le by (simp add: out take_data)
  ultimately show ?thesis using n lb le c' out by (intro exI [of _ body]) simp
qed

theorem element_complete:
  assumes wf: "wf_cbs c" and n: "length body < 2 ^ 32" and eq: "cbs_bytes c = der_element (t, body) @ rest"
  shows "CBS_get_any_asn1_element c =
    (Some (CBS_init (cbs_data c) (length (der_element (t, body))), t, length (der_element (t, body)) - length body),
     advance c (length (der_element (t, body))))"
proof -
  have th: "parse_asn1_tag c = (Some t, advance c (length (der_tag t)))"
    using eq by (intro parse_asn1_tag_complete [OF wf]) (simp add: der_element_def)
  have dl: "der_length (der_len (length body) @ body @ rest) = Some (length body, length (der_len (length body)))"
    using n by (simp add: der_length_iff)
  have "length (cbs_bytes c) = length (der_element (t, body)) + length rest" by (simp only: eq length_append)
  then have "length (der_element (t, body)) \<le> cbs_len c" using wf by simp
  then show ?thesis
    unfolding CBS_get_any_asn1_element_def element_eq [OF wf] th
    by (simp add: eq dl Let_def der_element_def add.assoc)
qed

section \<open>The public element readers\<close>

lemma CBS_get_any_asn1_eq:
  "CBS_get_any_asn1 c =
     and_then (CBS_get_any_asn1_element c) (\<lambda>(out, t, hl) c.
       if cbs_len out < hl then (None, c) else (Some (advance out hl, t), c))"
  by (simp add: CBS_get_any_asn1_def CBS_skip_eq if_distrib cong: if_cong)

lemma CBS_get_asn1_eq:
  "CBS_get_asn1 c tag =
     and_then (CBS_get_any_asn1_element c) (\<lambda>(out, t, hl) c.
       if t \<noteq> tag \<or> cbs_len out < hl then (None, c) else (Some (advance out hl), c))"
  unfolding CBS_get_asn1_def cbs_get_asn1_def CBS_skip_eq
  by (auto intro!: and_then_cong)

lemma element_body:
  assumes "wf_cbs c" and "cbs_bytes c = der_element (t, body) @ rest"
  defines "out \<equiv> CBS_init (cbs_data c) (length (der_element (t, body)))"
    and "hl \<equiv> length (der_element (t, body)) - length body"
  shows "hl \<le> cbs_len out" "wf_cbs (advance out hl)" "cbs_bytes (advance out hl) = body"
proof -
  let ?e = "der_element (t, body)"
  have "length ?e \<le> length (cbs_bytes c)" by (simp only: assms(2) length_append)
  then have le: "length ?e \<le> cbs_len c" using assms(1) by simp
  show "hl \<le> cbs_len out" by (simp add: hl_def out_def)
  have "wf_cbs out" using le assms(1) by (simp add: wf_cbs_def out_def)
  then show "wf_cbs (advance out hl)" by simp
  have "cbs_bytes out = ?e" using le assms(2) by (simp add: take_data out_def)
  then show "cbs_bytes (advance out hl) = body" by (simp add: der_element_def hl_def)
qed

lemma CBS_get_any_asn1_sound:
  assumes wf: "wf_cbs c" and ok: "CBS_get_any_asn1 c = (Some (out, t), c')"
  shows "wf_cbs out \<and> length (cbs_bytes out) < 2 ^ 32 \<and>
    cbs_bytes c = der_element (t, cbs_bytes out) @ cbs_bytes c' \<and>
    c' = advance c (length (der_element (t, cbs_bytes out)))"
proof -
  from ok obtain el hl where el: "CBS_get_any_asn1_element c = (Some (el, t, hl), c')"
    and out: "out = advance el hl"
    by (auto simp: CBS_get_any_asn1_eq and_then_Some split: if_splits)
  from element_sound [OF wf el] obtain body where b: "length body < 2 ^ 32"
    "hl = length (der_element (t, body)) - length body"
    "cbs_bytes c = der_element (t, body) @ cbs_bytes c'"
    "el = CBS_init (cbs_data c) (length (der_element (t, body)))"
    "c' = advance c (length (der_element (t, body)))" by blast
  from element_body [OF wf b(3)] have "wf_cbs out" "cbs_bytes out = body"
    by (simp_all only: out b(2,4))
  with b show ?thesis by blast
qed

lemma CBS_get_any_asn1_complete:
  assumes wf: "wf_cbs c" and "length body < 2 ^ 32" and eq: "cbs_bytes c = der_element (t, body) @ rest"
  shows "\<exists>out. CBS_get_any_asn1 c = (Some (out, t), advance c (length (der_element (t, body)))) \<and>
    wf_cbs out \<and> cbs_bytes out = body"
  using element_body [OF wf eq] by (auto simp: CBS_get_any_asn1_eq element_complete [OF assms])

lemma CBS_get_asn1_any: "CBS_get_asn1 c t = (Some out, c') \<Longrightarrow> CBS_get_any_asn1 c = (Some (out, t), c')"
  by (auto simp: CBS_get_asn1_eq CBS_get_any_asn1_eq and_then_Some split: if_splits)

lemma CBS_get_asn1_sound:
  assumes wf: "wf_cbs c" and ok: "CBS_get_asn1 c t = (Some out, c')"
  shows "wf_cbs out \<and> length (cbs_bytes out) < 2 ^ 32 \<and>
    cbs_bytes c = der_element (t, cbs_bytes out) @ cbs_bytes c' \<and>
    c' = advance c (length (der_element (t, cbs_bytes out)))"
  by (rule CBS_get_any_asn1_sound [OF wf CBS_get_asn1_any [OF ok]])

lemma CBS_get_asn1_complete:
  assumes wf: "wf_cbs c" and "length body < 2 ^ 32" and eq: "cbs_bytes c = der_element (t, body) @ rest"
  shows "\<exists>out. CBS_get_asn1 c t = (Some out, advance c (length (der_element (t, body)))) \<and>
    wf_cbs out \<and> cbs_bytes out = body"
  using element_body [OF wf eq] by (auto simp: CBS_get_asn1_eq element_complete [OF assms])

text \<open>The element reader as a codec on pairs of a tag and a body.\<close>

definition read_element :: "cbs_st \<Rightarrow> (u32 \<times> bytes, cbs_st) outcome" where
  "read_element c = and_then (CBS_get_any_asn1 c) (\<lambda>(out, t) c. (Some (t, cbs_bytes out), c))"

interpretation element: codec read_element der_element "\<lambda>e. length (snd e) < 2 ^ 32"
proof
  fix c e rest assume "wf_cbs c" "length (snd e) < 2 ^ 32" "cbs_bytes c = der_element e @ rest"
  then show "read_element c = (Some e, advance c (length (der_element e)))"
    using CBS_get_any_asn1_complete [of c "snd e" "fst e" rest] by (auto simp: read_element_def)
next
  fix c e c' assume wf: "wf_cbs c" and "read_element c = (Some e, c')"
  then obtain out t where ok: "CBS_get_any_asn1 c = (Some (out, t), c')" and e: "e = (t, cbs_bytes out)"
    by (auto simp: read_element_def and_then_Some)
  show "length (snd e) < 2 ^ 32 \<and> c' = advance c (length (der_element e)) \<and>
    (\<exists>rest. cbs_bytes c = der_element e @ rest)"
    unfolding e fst_conv snd_conv using CBS_get_any_asn1_sound [OF wf ok] by blast
qed

end
