(* ===== verification/CBB_Spec.thy ===== *)
theory CBB_Spec
  imports CBB DER
begin

text \<open>
  What \<open>cbb.c\<close> promises. The abstract state of a builder is the list of byte strings written at
  each level of the chain; a flush closes the levels below a \<open>CBB\<close>, putting in front of each its
  length in the form the level was opened with. The buffer operations refine this, keep the
  buffer well formed, and an error sticks.
\<close>

section \<open>The buffer\<close>

definition wf_buffer :: "cbb_buffer_st \<Rightarrow> bool" where
  "wf_buffer b \<longleftrightarrow> length (buf b) = cap b \<and> blen b \<le> cap b \<and> cap b < PTRDIFF_LIMIT \<and>
     (can_resize b \<longrightarrow> cap b + OPENSSL_MALLOC_PREFIX < PTRDIFF_LIMIT)"

text \<open>The valid bytes of the buffer from \<open>i\<close> to \<open>j\<close>.\<close>

definition seg :: "cbb_buffer_st \<Rightarrow> nat \<Rightarrow> nat \<Rightarrow> bytes" where
  "seg b i j = take (j - i) (drop i (buf b))"

text \<open>A buffer only grows, and a fixed buffer keeps its size.\<close>

definition extends :: "cbb_buffer_st \<Rightarrow> cbb_buffer_st \<Rightarrow> bool" where
  "extends b b' \<longleftrightarrow> can_resize b' = can_resize b \<and> cap b \<le> cap b' \<and> (\<not> can_resize b \<longrightarrow> cap b' = cap b)"

lemma extends_refl [simp]: "extends b b"
  by (simp add: extends_def)

lemma extends_trans: "extends a b \<Longrightarrow> extends b c \<Longrightarrow> extends a c"
  by (auto simp: extends_def)

lemma reserve_ok:
  assumes wf: "wf_buffer b" and n: "n < PTRDIFF_LIMIT" and r: "cbb_buffer_reserve env b n = (r, b')"
  shows "wf_buffer b' \<and> blen b' = blen b \<and> take (blen b) (buf b') = take (blen b) (buf b) \<and> extends b b' \<and>
    (case r of None \<Rightarrow> error b' | Some p \<Rightarrow> p = blen b \<and> blen b + n \<le> cap b' \<and> error b' = error b)"
proof -
  have lim: "blen b + n < SIZE_LIMIT - OPENSSL_MALLOC_PREFIX" if "can_resize b"
    using that wf n by (simp add: wf_buffer_def PTRDIFF_LIMIT_def SIZE_LIMIT_def OPENSSL_MALLOC_PREFIX_def)
  have lt: "blen b + n < SIZE_LIMIT" using wf n by (simp add: wf_buffer_def PTRDIFF_LIMIT_def SIZE_LIMIT_def)
  have add: "size_add (blen b) n = blen b + n" using lt by (rule size_add_small)
  show ?thesis
  proof (cases "cap b < blen b + n \<and> can_resize b")
    case False
    then show ?thesis using r wf by (auto simp: cbb_buffer_reserve_def add Let_def wf_buffer_def extends_def split: if_splits)
  next
    case True
    have mul: "size_mul (cap b) 2 = cap b * 2"
      using True wf by (intro size_mul_small) (simp add: wf_buffer_def PTRDIFF_LIMIT_def SIZE_LIMIT_def)
    define m where "m = (if cap b * 2 < cap b \<or> cap b * 2 < blen b + n then blen b + n else cap b * 2)"
    have m: "blen b + n \<le> m" "cap b \<le> m" "m < SIZE_LIMIT - OPENSSL_MALLOC_PREFIX"
      using True wf lim by (auto simp: m_def wf_buffer_def PTRDIFF_LIMIT_def SIZE_LIMIT_def OPENSSL_MALLOC_PREFIX_def)
    have res: "cbb_buffer_reserve env b n = (case OPENSSL_realloc env (buf b) m of
        None \<Rightarrow> (None, b\<lparr>error := True\<rparr>) | Some p \<Rightarrow> (Some (blen b), b\<lparr>buf := p, cap := m\<rparr>))"
      unfolding m_def cbb_buffer_reserve_def Let_def add mul using True by simp
    show ?thesis
    proof (cases "OPENSSL_realloc env (buf b) m")
      case None
      then show ?thesis using r wf by (auto simp: res wf_buffer_def extends_def)
    next
      case (Some p)
      from OPENSSL_realloc_prefix [OF Some m(3)] have p: "length p = m" "m + OPENSSL_MALLOC_PREFIX < PTRDIFF_LIMIT"
        and t: "take (min m (length (buf b))) p = take m (buf b)" by simp_all
      have t': "take (cap b) p = buf b" using t m wf by (simp add: wf_buffer_def min_def split: if_splits)
      have "take (blen b) p = take (blen b) (take (cap b) p)" using wf by (simp add: wf_buffer_def)
      then show ?thesis using r Some p t' m wf True by (auto simp: res wf_buffer_def extends_def)
    qed
  qed
qed


lemma reserve_room:
  assumes "wf_buffer b" and "blen b + n \<le> cap b"
  shows "cbb_buffer_reserve env b n = (Some (blen b), b)"
proof -
  have "size_add (blen b) n = blen b + n"
    using assms by (intro size_add_small) (simp add: wf_buffer_def PTRDIFF_LIMIT_def SIZE_LIMIT_def)
  then show ?thesis using assms(2) by (simp add: cbb_buffer_reserve_def Let_def)
qed

lemma add_ok:
  assumes wf: "wf_buffer b" and n: "n < PTRDIFF_LIMIT" and r: "cbb_buffer_add env b n = (r, b')"
  shows "wf_buffer b' \<and> take (blen b) (buf b') = take (blen b) (buf b) \<and> extends b b' \<and>
    (case r of None \<Rightarrow> error b' \<and> blen b' = blen b
     | Some p \<Rightarrow> p = blen b \<and> blen b' = blen b + n \<and> error b' = error b)"
proof -
  obtain q b1 where res: "cbb_buffer_reserve env b n = (q, b1)" by fastforce
  from reserve_ok [OF wf n res] r show ?thesis
    by (cases q) (auto simp: cbb_buffer_add_def res wf_buffer_def extends_def)
qed

lemma add_room:
  assumes "wf_buffer b" and "blen b + n \<le> cap b"
  shows "cbb_buffer_add env b n = (Some (blen b), b\<lparr>blen := blen b + n\<rparr>)"
  by (simp add: cbb_buffer_add_def reserve_room [OF assms])

lemma store_be_eq:
  assumes "p + n \<le> length m"
  shows "store_be m p n v = (take p m @ be_bytes n (unat v) @ drop (p + n) m, drop_bit (8 * n) v)"
  using assms
proof (induction n arbitrary: m v)
  case (Suc n)
  have "drop (p + n) (m[p + n := x]) = x # drop (Suc (p + n)) m" for x
    using Suc.prems by (subst drop_update_swap) (auto simp: Cons_nth_drop_Suc [symmetric])
  moreover have "(ucast v :: u8) = of_nat (unat v)" by (simp add: of_nat_unat)
  moreover have "unat (drop_bit 8 v) = unat v div 256" using unat_drop [of 8 v] by simp
  ultimately show ?case using Suc by (simp add: add.commute)
qed simp

lemma drop_bit_of_nat_zero:
  assumes "n < 2 ^ 64"
  shows "drop_bit (8 * k) (of_nat n :: u64) = 0 \<longleftrightarrow> n < 256 ^ k"
proof -
  have "unat (of_nat n :: u64) = n" using assms by (intro unat_of_nat_less) simp
  then show ?thesis
    by (simp add: word_unat_eq_iff unat_drop power_mult div_eq_0_iff)
qed

section \<open>Levels\<close>

datatype cbb_kind = Root | Prefixed nat | Element

definition kind_of :: "cbb_st \<Rightarrow> cbb_kind" where
  "kind_of f = (if pending_is_asn1 f then Element else Prefixed (pending_len_len f))"

type_synonym levels = "(cbb_kind \<times> bytes) list"

text \<open>Closing a level: its contents with the length in front, if the length can be represented.\<close>

fun close :: "cbb_kind \<Rightarrow> bytes \<Rightarrow> bytes option" where
  "close Root c = None"
| "close (Prefixed n) c = (if length c < 256 ^ n then Some (be_bytes n (length c) @ c) else None)"
| "close Element c = (if length c \<le> 0xfffffffe then Some (der_len (length c) @ c) else None)"

text \<open>The contents of the first level once all the levels below it are closed.\<close>

fun collapse :: "levels \<Rightarrow> bytes option" where
  "collapse [] = None"
| "collapse [(k, c)] = Some c"
| "collapse ((k, c) # (k', c') # ls) =
     (case collapse ((k', c') # ls) of None \<Rightarrow> None | Some d \<Rightarrow> map_option ((@) c) (close k' d))"

fun levels_from :: "cbb_buffer_st \<Rightarrow> nat \<Rightarrow> cbb_kind \<Rightarrow> cbb_st list \<Rightarrow> levels" where
  "levels_from b p k [] = [(k, seg b p (blen b))]"
| "levels_from b p k (f # fs) =
     (k, seg b p (offset f)) # levels_from b (offset f + pending_len_len f) (kind_of f) fs"

lemma collapse_levels:
  "collapse ((k, c) # levels_from b q k' cs) =
     (case collapse (levels_from b q k' cs) of None \<Rightarrow> None | Some d \<Rightarrow> map_option ((@) c) (close k' d))"
  by (cases cs) simp_all

fun chain_ok :: "cbb_buffer_st \<Rightarrow> nat \<Rightarrow> cbb_st list \<Rightarrow> bool" where
  "chain_ok b p [] = (p \<le> blen b)"
| "chain_ok b p (f # fs) =
     (p \<le> offset f \<and> 1 \<le> pending_len_len f \<and> pending_len_len f \<le> 8 \<and>
      (pending_is_asn1 f \<longrightarrow> pending_len_len f = 1) \<and> chain_ok b (offset f + pending_len_len f) fs)"

lemma chain_ok_le: "chain_ok b p cs \<Longrightarrow> p \<le> blen b"
  by (induction b p cs rule: chain_ok.induct) auto

lemma chain_ok_grow: "chain_ok b p cs \<Longrightarrow> blen b \<le> blen b' \<Longrightarrow> chain_ok b' p cs"
  by (induction b p cs rule: chain_ok.induct) auto

lemma length_seg: "wf_buffer b \<Longrightarrow> j \<le> blen b \<Longrightarrow> length (seg b i j) = j - i"
  by (auto simp: seg_def wf_buffer_def)

lemma length_form:
  assumes "n \<le> 0xfffffffe"
  shows "asn1_length_form n = (length (der_len n), hd (der_len n), if n < 128 then 0 else n)"
    and "der_len n = hd (der_len n) # be_bytes (length (der_len n) - 1) (if n < 128 then 0 else n)"
    and "(if n < 128 then 0 else n) < 256 ^ (length (der_len n) - 1)"
  using assms by (auto simp: asn1_length_form_def der_len_def len_octets_def)


section \<open>Flushing\<close>

lemma seg_take: "take j (buf b) = take j (buf b') \<Longrightarrow> seg b i j = seg b' i j"
  unfolding seg_def by (metis drop_take)

lemma seg_split: "i \<le> j \<Longrightarrow> j \<le> k \<Longrightarrow> seg b i k = seg b i j @ seg b j k"
  unfolding seg_def using take_add [of "j - i" "k - j" "drop i (buf b)"] by simp

text \<open>Writing the closed form of a level into the buffer, in the two shapes of the length.\<close>

lemma close_prefixed:
  assumes wf: "wf_buffer b" and "off + k \<le> blen b" and "k \<le> 8"
  defines "n \<equiv> blen b - (off + k)"
  shows "store_be (buf b) off k (of_nat n) =
    (take off (buf b) @ be_bytes k n @ drop (off + k) (buf b), drop_bit (8 * k) (of_nat n))"
proof -
  have "n < 2 ^ 64" using wf by (auto simp: n_def wf_buffer_def PTRDIFF_LIMIT_def)
  then have "unat (of_nat n :: u64) = n" by (intro unat_of_nat_less) simp
  then show ?thesis using assms(1,2) by (subst store_be_eq) (simp_all add: wf_buffer_def)
qed

lemma close_element:
  assumes wf: "wf_buffer b" and q: "off + 1 \<le> blen b"
    and n: "n = blen b - (off + 1)" "n \<le> 0xfffffffe" and k: "k = length (der_len n) - 1"
    and r: "r = (if n < 128 then 0 else n)" and cap: "blen b + k \<le> length m" and m: "take (blen b) m = take (blen b) (buf b)"
  shows "store_be ((if k = 0 then m else mem_move m (off + 1 + k) (off + 1) r)[off := hd (der_len n)]) (off + 1) k (of_nat r) =
    (take off m @ der_len n @ seg b (off + 1) (blen b) @ drop (blen b + k) m, 0)"
proof -
  define a c t where "a = take off m" and "c = take n (drop (off + 1) m)" and "t = drop (blen b) m"
  have len: "off + 1 + n = blen b" using q n(1) by simp
  have le: "blen b \<le> length m" using cap by simp
  have m1: "m = a @ m ! off # c @ t"
  proof -
    have "m = take off m @ m ! off # drop (off + 1) m"
      using q le by (simp add: id_take_nth_drop [symmetric])
    also have "drop (off + 1) m = c @ t"
      unfolding c_def t_def using len by (metis append_take_drop_id drop_drop add.commute)
    finally show ?thesis by (simp add: a_def)
  qed
  have la: "length a = off" "length c = n" using q le len by (simp_all add: a_def c_def)
  have lt: "k \<le> length t" using cap by (simp add: t_def)
  have c: "seg b (off + 1) (blen b) = c"
  proof -
    have "c = take n (drop (off + 1) (take (blen b) m))" using len by (simp add: c_def drop_take)
    then show ?thesis using len n(1) m by (simp add: seg_def drop_take)
  qed
  have dl: "der_len n = hd (der_len n) # be_bytes k r" "r < 256 ^ k"
    using length_form(2,3) [OF n(2)] by (simp_all only: k r)
  have r64: "unat (of_nat r :: u64) = r" "r < 2 ^ 64"
    using n(2) r by (auto simp: unat_of_nat take_bit_nat_eq_self split: if_splits)
  have "k = 0 \<Longrightarrow> r = 0" using dl(2) by simp
  define M where "M = (if k = 0 then m else mem_move m (off + 1 + k) (off + 1) r)[off := hd (der_len n)]"
  have M: "M = a @ hd (der_len n) # take k (c @ t) @ c @ drop k t"
  proof (cases "k = 0")
    case True
    then show ?thesis unfolding M_def by (subst m1) (simp add: la list_update_append)
  next
    case False
    then have "r = n" using r k by (auto simp: der_len_def split: if_splits)
    then show ?thesis using False unfolding M_def mem_move_def
      by (subst (1 2 3) m1) (simp add: la list_update_append)
  qed
  have "length M \<ge> off + 1 + k" using M la lt by simp
  then have "store_be M (off + 1) k (of_nat r) =
      (take (off + 1) M @ be_bytes k r @ drop (off + 1 + k) M, drop_bit (8 * k) (of_nat r))"
    by (subst store_be_eq) (simp_all add: r64)
  also have "\<dots> = (a @ (hd (der_len n) # be_bytes k r) @ c @ drop k t, 0)"
    using drop_bit_of_nat_zero [OF r64(2), of k] dl(2) lt by (simp add: M la)
  also have "drop k t = drop (blen b + k) m" by (simp add: t_def add.commute)
  finally show ?thesis unfolding M_def dl(1) [symmetric] c a_def by simp
qed

text \<open>The flush of a chain of children.\<close>

lemma wf_buffer_update: "wf_buffer b \<Longrightarrow> length m = length (buf b) \<Longrightarrow> wf_buffer (b\<lparr>buf := m, error := e\<rparr>)"
  by (simp add: wf_buffer_def)

definition flush_post :: "cbb_buffer_st \<Rightarrow> nat \<Rightarrow> cbb_kind \<Rightarrow> cbb_st list \<Rightarrow> (unit, cbb_buffer_st \<times> cbb_st list) outcome \<Rightarrow> bool" where
  "flush_post b p k cs r \<longleftrightarrow> (case r of (res, b', cs') \<Rightarrow>
     wf_buffer b' \<and> chain_ok b' p cs' \<and> extends b b' \<and> take p (buf b') = take p (buf b) \<and>
     (case res of None \<Rightarrow> error b'
      | Some _ \<Rightarrow> \<not> error b' \<and> cs' = [] \<and> collapse (levels_from b p k cs) = Some (seg b' p (blen b'))))"

lemma written:
  assumes "buf b' = take off (buf b) @ e @ t" and "blen b' = off + length e" and "p \<le> off" and "off \<le> length (buf b)"
  shows "take p (buf b') = take p (buf b)" and "seg b' p (blen b') = seg b p off @ e"
proof -
  let ?a = "take off (buf b)"
  have la: "length ?a = off" using assms(4) by simp
  show "take p (buf b') = take p (buf b)" using assms by (simp add: min_def)
  have "seg b' p (blen b') = take (off - p + length e) (drop p ?a @ e @ t)"
    using assms la by (simp add: seg_def)
  also have "\<dots> = drop p ?a @ e" using la assms(3) by simp
  finally show "seg b' p (blen b') = seg b p off @ e" by (simp add: seg_def drop_take)
qed

text \<open>What \<open>CBB_flush\<close> does with its child once the child itself is flushed.\<close>

definition close_child :: "mem_env \<Rightarrow> cbb_buffer_st \<Rightarrow> cbb_st \<Rightarrow> (unit, cbb_buffer_st \<times> cbb_st list) outcome" where
  "close_child env b f = cbb_flush_chain env b [f]"

lemma flush_chain_Cons:
  assumes "\<not> error b" and "pending_len_len f \<noteq> 0" and "cbb_flush_chain env b cs = (Some (), b1, [])" and "\<not> error b1"
  shows "cbb_flush_chain env b (f # cs) = close_child env b1 f"
  using assms by (simp add: close_child_def)

lemma close_child_prefixed:
  assumes wf: "wf_buffer b" and e: "\<not> error b" and f: "\<not> pending_is_asn1 f" "1 \<le> pending_len_len f" "pending_len_len f \<le> 8"
    and q: "offset f + pending_len_len f \<le> blen b" and p: "p \<le> offset f"
  defines "c \<equiv> seg b (offset f + pending_len_len f) (blen b)"
  shows "case close_child env b f of (r, b', cs') \<Rightarrow>
     wf_buffer b' \<and> chain_ok b' p cs' \<and> extends b b' \<and> take p (buf b') = take p (buf b) \<and>
     (case close (kind_of f) c of None \<Rightarrow> r = None \<and> error b'
      | Some w \<Rightarrow> r = Some () \<and> \<not> error b' \<and> cs' = [] \<and> seg b' p (blen b') = seg b p (offset f) @ w)"
proof -
  let ?off = "offset f" and ?k = "pending_len_len f"
  have start: "size_add ?off ?k = ?off + ?k"
    using wf q by (intro size_add_small) (auto simp: wf_buffer_def PTRDIFF_LIMIT_def SIZE_LIMIT_def)
  have lc: "length c = blen b - (?off + ?k)" using wf by (simp add: c_def length_seg)
  then have l64: "length c < 2 ^ 64" using wf by (auto simp: wf_buffer_def PTRDIFF_LIMIT_def)
  have st: "store_be (buf b) ?off ?k (of_nat (length c)) =
      (take ?off (buf b) @ be_bytes ?k (length c) @ drop (?off + ?k) (buf b), drop_bit (8 * ?k) (of_nat (length c)))"
    unfolding lc by (rule close_prefixed) (use assms in auto)
  define m where "m = take ?off (buf b) @ be_bytes ?k (length c) @ drop (?off + ?k) (buf b)"
  have cl: "close_child env b f = (if drop_bit (8 * ?k) (of_nat (length c) :: u64) \<noteq> 0
      then (None, b\<lparr>buf := m, error := True\<rparr>, [f]) else (Some (), b\<lparr>buf := m\<rparr>, []))"
    using f e q by (simp add: close_child_def start Let_def st lc [symmetric] m_def)
  have le: "?off \<le> length (buf b)" and lm: "length m = length (buf b)"
    using wf q by (auto simp: wf_buffer_def m_def)
  have dr: "drop (?off + ?k) (buf b) = c @ drop (blen b) (buf b)"
    using q unfolding c_def seg_def by (metis append_take_drop_id drop_drop le_add_diff_inverse2)
  then have m2: "m = take ?off (buf b) @ (be_bytes ?k (length c) @ c) @ drop (blen b) (buf b)"
    by (simp add: m_def)
  have bl: "blen b = ?off + length (be_bytes ?k (length c) @ c)" using lc q by simp
  have w: "take p m = take p (buf b)" "seg (b\<lparr>buf := m\<rparr>) p (blen b) = seg b p ?off @ be_bytes ?k (length c) @ c"
    using written [of "b\<lparr>buf := m\<rparr>" ?off b "be_bytes ?k (length c) @ c" "drop (blen b) (buf b)" p] bl p le
    by (simp_all add: m2)
  show ?thesis
    using wf q p f w lm e drop_bit_of_nat_zero [OF l64, of ?k]
    by (simp add: cl kind_of_def wf_buffer_def extends_def)
qed

lemma take_prefix_eq: "p \<le> n \<Longrightarrow> take n xs = take n ys \<Longrightarrow> take p xs = take p ys"
  by (metis min.absorb1 take_take)

lemma close_child_element:
  assumes wf: "wf_buffer b" and e: "\<not> error b" and f: "pending_is_asn1 f" "pending_len_len f = 1"
    and q: "offset f + 1 \<le> blen b" and p: "p \<le> offset f"
  defines "c \<equiv> seg b (offset f + 1) (blen b)"
  shows "case close_child env b f of (r, b', cs') \<Rightarrow>
     wf_buffer b' \<and> chain_ok b' p cs' \<and> extends b b' \<and> take p (buf b') = take p (buf b) \<and>
     (case r of None \<Rightarrow> error b'
      | Some _ \<Rightarrow> \<not> error b' \<and> cs' = [] \<and>
          (\<exists>w. close Element c = Some w \<and> seg b' p (blen b') = seg b p (offset f) @ w)) \<and>
     (close Element c \<noteq> None \<and> offset f + length (the (close Element c)) \<le> cap b \<longrightarrow> r \<noteq> None)"
proof -
  let ?off = "offset f"
  define n where "n = blen b - (?off + 1)"
  have start: "size_add ?off 1 = ?off + 1"
    using wf q by (intro size_add_small) (auto simp: wf_buffer_def PTRDIFF_LIMIT_def SIZE_LIMIT_def)
  have lc: "length c = n" using wf by (simp add: c_def length_seg n_def)
  show ?thesis
  proof (cases "n > 0xfffffffe")
    case True
    have "close_child env b f = (None, b\<lparr>error := True\<rparr>, [f])"
      using f e q True by (simp add: close_child_def start [simplified] Let_def n_def)
    then show ?thesis using wf True lc p q f by (simp add: extends_def wf_buffer_def)
  next
    case False
    then have n: "n \<le> 0xfffffffe" by simp
    define k where "k = length (der_len n) - 1"
    define r where "r = (if n < 128 then 0 else n)"
    have lf: "asn1_length_form n = (Suc k, hd (der_len n), r)"
      using length_form(1) [OF n] by (simp add: k_def r_def der_len_def)
    have dl: "length (der_len n) = Suc k" by (simp add: k_def der_len_def)
    have k4: "k \<le> 4" using len_octets_bounds [of n] by (simp add: k_def der_len_def)
    have cl: "close_child env b f =
      (case (if k \<noteq> 0 then and_then (cbb_buffer_add env b k) (\<lambda>_ base.
           (Some (), base\<lparr>buf := mem_move (buf base) (?off + 1 + k) (?off + 1) r\<rparr>)) else (Some (), b)) of
         (None, b1) \<Rightarrow> (None, b1\<lparr>error := True\<rparr>, [f])
       | (Some _, b1) \<Rightarrow>
           (case store_be ((buf b1)[?off := hd (der_len n)]) (?off + 1) k (of_nat r) of (m, v) \<Rightarrow>
              if v \<noteq> 0 then (None, b1\<lparr>buf := m, error := True\<rparr>, [f\<lparr>offset := ?off + 1, pending_len_len := k\<rparr>])
              else (Some (), b1\<lparr>buf := m\<rparr>, [])))"
      using f e q n start [simplified]
      by (auto simp: close_child_def Let_def n_def [simplified, symmetric] lf split: option.split prod.split)
    obtain a b1 where add: "(if k \<noteq> 0 then cbb_buffer_add env b k else (Some (blen b), b)) = (a, b1)"
      by fastforce
    have b1: "wf_buffer b1 \<and> take (blen b) (buf b1) = take (blen b) (buf b) \<and> extends b b1 \<and>
      (case a of None \<Rightarrow> error b1 \<and> blen b1 = blen b | Some p \<Rightarrow> blen b1 = blen b + k \<and> \<not> error b1)"
      using add add_ok [OF wf _, of k env a b1] k4 wf e
      by (cases "k = 0") (auto simp: PTRDIFF_LIMIT_def split: option.splits)
    define M where "M = (if k = 0 then buf b1 else mem_move (buf b1) (?off + 1 + k) (?off + 1) r)[?off := hd (der_len n)]"
    have room: "a \<noteq> None" if "?off + length (der_len n @ c) \<le> cap b"
    proof -
      have "blen b + k \<le> cap b" using that lc q dl by (simp add: n_def)
      then show ?thesis using add add_room [OF wf, of k env] by (auto split: if_splits)
    qed
    have cl2: "close_child env b f = (case a of None \<Rightarrow> (None, b1\<lparr>error := True\<rparr>, [f])
       | Some _ \<Rightarrow> (case store_be M (?off + 1) k (of_nat r) of (m, v) \<Rightarrow>
              if v \<noteq> 0 then (None, b1\<lparr>buf := m, error := True\<rparr>, [f\<lparr>offset := ?off + 1, pending_len_len := k\<rparr>])
              else (Some (), b1\<lparr>buf := m\<rparr>, [])))"
      using add unfolding cl M_def
      by (cases "k = 0"; cases a) (auto split: prod.split)
    show ?thesis
    proof (cases a)
      case None
      then have ch: "chain_ok (b1\<lparr>error := True\<rparr>) p [f]"
        using chain_ok_grow [of b p "[f]" "b1\<lparr>error := True\<rparr>"] b1 p q f by simp
      have tp: "take p (buf (b1\<lparr>error := True\<rparr>)) = take p (buf b)"
        using b1 p q take_prefix_eq [of p "blen b" "buf b1" "buf b"] by simp
      have res: "close_child env b f = (None, b1\<lparr>error := True\<rparr>, [f])" by (simp add: cl2 None)
      have w: "close Element c = Some (der_len n @ c)" using lc n by simp
      have wf1: "wf_buffer (b1\<lparr>error := True\<rparr>)" "extends b (b1\<lparr>error := True\<rparr>)"
        using b1 by (auto simp: extends_def wf_buffer_def)
      have full: "\<not> ?off + length (der_len n @ c) \<le> cap b" using room None by blast
      show ?thesis
        unfolding res w prod.case option.case option.sel using ch tp wf1 full by simp
    next
      case (Some x)
      have cap: "blen b + k \<le> length (buf b1)" using b1 Some by (simp add: wf_buffer_def)
      define m where "m = take ?off (buf b1) @ der_len n @ c @ drop (blen b + k) (buf b1)"
      have st: "store_be M (?off + 1) k (of_nat r) = (m, 0)"
        unfolding M_def m_def c_def using b1 by (intro close_element [OF wf q n_def n k_def r_def cap]) simp
      have t: "take ?off (buf b1) = take ?off (buf b)"
        using b1 q take_prefix_eq [of ?off "blen b" "buf b1" "buf b"] by simp
      have le: "?off \<le> length (buf b)" using wf q by (simp add: wf_buffer_def)
      have "blen b = ?off + 1 + n" using q by (simp add: n_def)
      then have bl: "blen b1 = ?off + length (der_len n @ c)" using b1 Some lc dl by simp
      have "?off + (length (der_len n) + length c) = blen b + k" using bl b1 Some by simp
      moreover have "length (take ?off (buf b1)) = ?off" using le unfolding t by simp
      ultimately have lm: "length m = length (buf b1)" using cap unfolding m_def by simp
      have w: "take p m = take p (buf b)" "seg (b1\<lparr>buf := m\<rparr>) p (blen b1) = seg b p ?off @ der_len n @ c"
        using written [of "b1\<lparr>buf := m\<rparr>" ?off b "der_len n @ c" _ p] bl p le by (simp_all add: m_def t)
      show ?thesis
        using b1 Some w lm q p n lc by (simp add: cl2 st [simplified] extends_def wf_buffer_def)
    qed
  qed
qed

lemma flush_post:
  "wf_buffer b \<Longrightarrow> chain_ok b p cs \<Longrightarrow> flush_post b p k cs (cbb_flush_chain env b cs)"
proof (induction cs arbitrary: p k)
  case Nil
  then show ?case by (simp add: flush_post_def)
next
  case (Cons f cs)
  show ?case
  proof (cases "error b")
    case True
    with Cons.prems show ?thesis by (simp add: flush_post_def)
  next
    case False
    let ?q = "offset f + pending_len_len f"
    have ok: "chain_ok b ?q cs" "p \<le> offset f" "1 \<le> pending_len_len f" "pending_len_len f \<le> 8"
      "pending_is_asn1 f \<Longrightarrow> pending_len_len f = 1" using Cons.prems by auto
    have start: "size_add (offset f) (pending_len_len f) = ?q"
      using Cons.prems(1) chain_ok_le [OF ok(1)]
      by (intro size_add_small) (auto simp: wf_buffer_def PTRDIFF_LIMIT_def SIZE_LIMIT_def)
    obtain r b1 cs1 where nested: "cbb_flush_chain env b cs = (r, b1, cs1)" by (metis prod_cases3)
    from Cons.IH [OF Cons.prems(1) ok(1), of "kind_of f"]
    have b1: "wf_buffer b1" "chain_ok b1 ?q cs1" "extends b b1" "take ?q (buf b1) = take ?q (buf b)"
      and r: "case r of None \<Rightarrow> error b1
        | Some _ \<Rightarrow> \<not> error b1 \<and> cs1 = [] \<and> collapse (levels_from b ?q (kind_of f) cs) = Some (seg b1 ?q (blen b1))"
      by (auto simp: flush_post_def nested)
    have le: "?q \<le> blen b1" by (rule chain_ok_le [OF b1(2)])
    have tp: "take p (buf b1) = take p (buf b)" "seg b1 p (offset f) = seg b p (offset f)"
      using b1(4) ok(2) by (auto intro!: take_prefix_eq [of _ ?q] seg_take)
    show ?thesis
    proof (cases r)
      case None
      then have "cbb_flush_chain env b (f # cs) = (None, b1\<lparr>error := True\<rparr>, f # cs1)"
        using False ok(3) by (simp add: start nested Let_def)
      then show ?thesis using None b1 ok tp chain_ok_grow [OF b1(2), of "b1\<lparr>error := True\<rparr>"]
        by (auto simp: flush_post_def wf_buffer_def extends_def)
    next
      case (Some u)
      with r have r': "\<not> error b1" "cs1 = []" "collapse (levels_from b ?q (kind_of f) cs) = Some (seg b1 ?q (blen b1))"
        by simp_all
      have fl: "cbb_flush_chain env b (f # cs) = close_child env b1 f"
        using False ok(3) nested Some r' by (intro flush_chain_Cons) simp_all
      have col: "collapse (levels_from b p k (f # cs)) =
          map_option ((@) (seg b p (offset f))) (close (kind_of f) (seg b1 ?q (blen b1)))"
        by (simp add: collapse_levels r'(3))
      obtain res B cs' where B: "close_child env b1 f = (res, B, cs')" by (metis prod_cases3)
      have "wf_buffer B \<and> chain_ok B p cs' \<and> extends b1 B \<and> take p (buf B) = take p (buf b1) \<and>
        (case res of None \<Rightarrow> error B
         | Some _ \<Rightarrow> \<not> error B \<and> cs' = [] \<and> (\<exists>w. close (kind_of f) (seg b1 ?q (blen b1)) = Some w \<and>
             seg B p (blen B) = seg b1 p (offset f) @ w))"
      proof (cases "pending_is_asn1 f")
        case True
        with ok(5) have one: "pending_len_len f = 1" by simp
        show ?thesis
          using close_child_element [OF b1(1) r'(1) True one, of p env] ok(2) le
          unfolding B one kind_of_def by (simp add: True)
      next
        case False
        show ?thesis
          using close_child_prefixed [OF b1(1) r'(1) False ok(3,4) le ok(2), of env]
          unfolding B by (auto split: option.splits)
      qed
      then show ?thesis
        unfolding flush_post_def fl col B prod.case using tp extends_trans [OF b1(3)]
        by (auto split: option.splits)
    qed
  qed
qed


section \<open>Room\<close>

text \<open>Closing a level never shortens the buffer; a flush that fits the buffer succeeds.\<close>

lemma close_length: "close (kind_of f) d = Some w \<Longrightarrow> (pending_is_asn1 f \<Longrightarrow> pending_len_len f = 1) \<Longrightarrow>
    pending_len_len f + length d \<le> length w"
  by (auto simp: kind_of_def der_len_def split: if_splits)

lemma flush_room:
  "wf_buffer b \<Longrightarrow> chain_ok b p cs \<Longrightarrow> \<not> error b \<Longrightarrow> collapse (levels_from b p k cs) = Some c \<Longrightarrow>
   p + length c \<le> cap b \<Longrightarrow> fst (cbb_flush_chain env b cs) = Some ()"
proof (induction cs arbitrary: p k c)
  case (Cons f cs)
  let ?q = "offset f + pending_len_len f"
  have ok: "chain_ok b ?q cs" "p \<le> offset f" "1 \<le> pending_len_len f" "pending_len_len f \<le> 8"
    "pending_is_asn1 f \<Longrightarrow> pending_len_len f = 1" using Cons.prems by auto
  obtain d w where d: "collapse (levels_from b ?q (kind_of f) cs) = Some d" and w: "close (kind_of f) d = Some w"
    and c: "c = seg b p (offset f) @ w"
    using Cons.prems(4) by (auto simp: collapse_levels split: option.splits)
  have "offset f \<le> blen b" using chain_ok_le [OF ok(1)] by simp
  then have lc: "p + length c = offset f + length w"
    using c ok(2) Cons.prems(1) by (simp add: length_seg)
  have "?q + length d \<le> cap b" using close_length [OF w ok(5)] lc Cons.prems(5) by linarith
  from Cons.IH [OF Cons.prems(1) ok(1) Cons.prems(3) d this]
  obtain b1 cs1 where nested: "cbb_flush_chain env b cs = (Some (), b1, cs1)"
    by (metis fst_conv prod_cases3)
  with flush_post [OF Cons.prems(1) ok(1), of "kind_of f" env]
  have b1: "wf_buffer b1" "\<not> error b1" "cs1 = []" "?q \<le> blen b1" "extends b b1" "d = seg b1 ?q (blen b1)"
    by (auto simp: flush_post_def d)
  have fl: "cbb_flush_chain env b (f # cs) = close_child env b1 f"
    using Cons.prems(3) ok(3) nested b1 by (intro flush_chain_Cons) simp_all
  show ?case
  proof (cases "pending_is_asn1 f")
    case True
    with ok(5) have one: "pending_len_len f = 1" by simp
    have "offset f + length w \<le> cap b1" using lc Cons.prems(5) b1(5) by (simp add: extends_def)
    then show ?thesis
      using close_child_element [OF b1(1,2) True one, of p env] ok(2) b1(4) w
      unfolding fl b1(6) one kind_of_def by (auto simp: True split: prod.splits)
  next
    case False
    show ?thesis
      using close_child_prefixed [OF b1(1,2) False ok(3,4) _ ok(2), of env] b1(4) w
      unfolding fl b1(6) by (auto split: prod.splits option.splits)
  qed
qed simp

section \<open>The builder\<close>

definition wf_cbb :: "cbb_state \<Rightarrow> bool" where
  "wf_cbb s = (case (cbb_base s, cbb_frames s) of
     (Some b, f # fs) \<Rightarrow> wf_buffer b \<and> offset f = 0 \<and> pending_len_len f = 0 \<and> \<not> is_child f \<and> chain_ok b 0 fs
   | _ \<Rightarrow> False)"

definition cbb_abs :: "cbb_state \<Rightarrow> levels" where
  "cbb_abs s = (case cbb_base s of None \<Rightarrow> [] | Some b \<Rightarrow> levels_from b 0 Root (tl (cbb_frames s)))"

definition cbb_failed :: "cbb_state \<Rightarrow> bool" where
  "cbb_failed s = (case cbb_base s of None \<Rightarrow> True | Some b \<Rightarrow> error b)"

definition cbb_cap :: "cbb_state \<Rightarrow> nat" where
  "cbb_cap s = (case cbb_base s of None \<Rightarrow> 0 | Some b \<Rightarrow> cap b)"

text \<open>The abstract operations: flushing below level \<open>d\<close>, appending to it, opening a level below it.\<close>

definition flush_levels :: "nat \<Rightarrow> levels \<Rightarrow> levels option" where
  "flush_levels d ls = map_option (\<lambda>c. take d ls @ [(fst (ls ! d), c)]) (collapse (drop d ls))"

definition append_levels :: "nat \<Rightarrow> bytes \<Rightarrow> levels \<Rightarrow> levels option" where
  "append_levels d bs ls =
     map_option (\<lambda>ls. butlast ls @ [(fst (last ls), snd (last ls) @ bs)]) (flush_levels d ls)"

definition open_levels :: "nat \<Rightarrow> cbb_kind \<Rightarrow> levels \<Rightarrow> levels option" where
  "open_levels d k ls = map_option (\<lambda>ls. ls @ [(k, [])]) (flush_levels d ls)"

fun start_of :: "nat \<Rightarrow> cbb_st list \<Rightarrow> nat" where
  "start_of p [] = p"
| "start_of p (f # fs) = start_of (offset f + pending_len_len f) fs"

fun kind_at :: "cbb_kind \<Rightarrow> cbb_st list \<Rightarrow> cbb_kind" where
  "kind_at k [] = k"
| "kind_at k (f # fs) = kind_at (kind_of f) fs"

fun upper :: "cbb_buffer_st \<Rightarrow> nat \<Rightarrow> cbb_kind \<Rightarrow> cbb_st list \<Rightarrow> levels" where
  "upper b p k [] = []"
| "upper b p k (f # fs) = (k, seg b p (offset f)) # upper b (offset f + pending_len_len f) (kind_of f) fs"

fun chain_up :: "nat \<Rightarrow> cbb_st list \<Rightarrow> bool" where
  "chain_up p [] = True"
| "chain_up p (f # fs) =
     (p \<le> offset f \<and> 1 \<le> pending_len_len f \<and> pending_len_len f \<le> 8 \<and>
      (pending_is_asn1 f \<longrightarrow> pending_len_len f = 1) \<and> chain_up (offset f + pending_len_len f) fs)"

lemma length_upper [simp]: "length (upper b p k us) = length us"
  by (induction b p k us rule: upper.induct) simp_all

lemma levels_append: "levels_from b p k (us @ ls) = upper b p k us @ levels_from b (start_of p us) (kind_at k us) ls"
  by (induction b p k us rule: upper.induct) simp_all

lemma chain_ok_append: "chain_ok b p (us @ ls) \<longleftrightarrow> chain_up p us \<and> chain_ok b (start_of p us) ls"
  by (induction p us rule: chain_up.induct) auto

lemma start_of_le: "chain_up p us \<Longrightarrow> p \<le> start_of p us"
  by (induction p us rule: chain_up.induct) auto

lemma upper_same:
  "chain_up p us \<Longrightarrow> take (start_of p us) (buf b) = take (start_of p us) (buf b') \<Longrightarrow> upper b p k us = upper b' p k us"
proof (induction b p k us rule: upper.induct)
  case (2 b p k f fs)
  have "offset f \<le> start_of p (f # fs)" using 2(2) start_of_le [of "offset f + pending_len_len f" fs] by simp
  then have "take (offset f) (buf b) = take (offset f) (buf b')" using 2(3) by (rule take_prefix_eq)
  then have "seg b p (offset f) = seg b' p (offset f)" by (rule seg_take)
  then show ?case using 2 by simp
qed simp

text \<open>The state seen from level \<open>d\<close>: the levels above it, its position, the chain below it.\<close>

lemma wf_cbb_at:
  assumes "wf_cbb s" and "d < length (cbb_frames s)"
  obtains b f us ls where "cbb_base s = Some b" "cbb_frames s = f # us @ ls" "length us = d"
    "take (Suc d) (cbb_frames s) = f # us" "drop (Suc d) (cbb_frames s) = ls"
    "offset f = 0" "pending_len_len f = 0" "\<not> is_child f" "wf_buffer b" "chain_up 0 us" "chain_ok b (start_of 0 us) ls"
    "cbb_abs s = upper b 0 Root us @ levels_from b (start_of 0 us) (kind_at Root us) ls"
proof -
  obtain b f fs where s: "cbb_base s = Some b" "cbb_frames s = f # fs"
    and w: "wf_buffer b" "offset f = 0" "pending_len_len f = 0" "\<not> is_child f" "chain_ok b 0 fs"
    using assms(1) by (auto simp: wf_cbb_def split: option.splits list.splits)
  have fs: "fs = take d fs @ drop d fs" by simp
  have "chain_up 0 (take d fs) \<and> chain_ok b (start_of 0 (take d fs)) (drop d fs)"
    using w(5) unfolding chain_ok_append [symmetric] by simp
  moreover have "cbb_abs s = upper b 0 Root (take d fs) @
      levels_from b (start_of 0 (take d fs)) (kind_at Root (take d fs)) (drop d fs)"
    unfolding levels_append [symmetric] by (simp add: cbb_abs_def s)
  moreover have "length (take d fs) = d" using assms(2) s by simp
  ultimately show ?thesis using that [of b f "take d fs" "drop d fs"] s w by simp
qed

section \<open>Sizes\<close>

fun header_room :: "cbb_kind \<Rightarrow> nat" where
  "header_room Root = 0"
| "header_room (Prefixed n) = n"
| "header_room Element = 1"

text \<open>The bytes of the buffer that a list of levels takes, pending prefixes included.\<close>

fun level_size :: "levels \<Rightarrow> nat" where
  "level_size [] = 0"
| "level_size [(k, c)] = length c"
| "level_size ((k, c) # (k', c') # ls) = length c + header_room k' + level_size ((k', c') # ls)"

lemma level_size_Cons:
  "ls \<noteq> [] \<Longrightarrow> level_size ((k, c) # ls) = length c + header_room (fst (hd ls)) + level_size ls"
  by (cases ls) auto

lemma close_grows: "close k d = Some w \<Longrightarrow> header_room k + length d \<le> length w"
  by (cases k) (auto simp: der_len_def split: if_splits)

lemma collapse_grows: "collapse ls = Some c \<Longrightarrow> level_size ls \<le> length c"
proof (induction ls arbitrary: c rule: collapse.induct)
  case (3 k c0 k' c' ls)
  then obtain d w where "collapse ((k', c') # ls) = Some d" "close k' d = Some w" "c = c0 @ w"
    by (auto split: option.splits)
  then show ?case using 3(1) close_grows by fastforce
qed simp_all

lemma level_size_append:
  "xs \<noteq> [] \<Longrightarrow> level_size (us @ xs) = level_size (us @ [(fst (hd xs), [])]) + level_size xs"
proof (induction us)
  case Nil
  then show ?case by (cases xs) auto
next
  case (Cons u us)
  then show ?case by (cases u) (cases us; auto simp: level_size_Cons)
qed

lemma flush_levels_grows:
  assumes "flush_levels d ls = Some ls'"
  shows "level_size ls \<le> level_size ls'"
proof -
  obtain c where c: "collapse (drop d ls) = Some c" and ls': "ls' = take d ls @ [(fst (ls ! d), c)]"
    using assms by (auto simp: flush_levels_def)
  have d: "d < length ls" by (rule ccontr) (use c in simp)
  have ne: "drop d ls \<noteq> []" and hd: "fst (hd (drop d ls)) = fst (ls ! d)" using d by (simp_all add: hd_drop_conv_nth)
  have "level_size ls = level_size (take d ls @ drop d ls)" by simp
  also have "\<dots> = level_size (take d ls @ [(fst (ls ! d), [])]) + level_size (drop d ls)"
    unfolding level_size_append [OF ne, of "take d ls"] hd ..
  also have "\<dots> \<le> level_size (take d ls @ [(fst (ls ! d), [])]) + length c"
    using collapse_grows [OF c] by simp
  also have "\<dots> = level_size ls'" by (simp add: ls' level_size_append [of "[(fst (ls ! d), c)]" "take d ls"])
  finally show ?thesis .
qed

lemma level_size_from:
  "wf_buffer b \<Longrightarrow> chain_ok b p cs \<Longrightarrow> p + level_size (levels_from b p k cs) = blen b"
proof (induction b p k cs rule: levels_from.induct)
  case (2 b p k f fs)
  have hd: "fst (hd (levels_from b q k' fs)) = k'" "levels_from b q k' fs \<noteq> []" for q k' by (cases fs; simp)+
  have "offset f \<le> blen b" using 2(3) chain_ok_le [of b "offset f + pending_len_len f" fs] by simp
  moreover have "header_room (kind_of f) = pending_len_len f" using 2(3) by (simp add: kind_of_def)
  ultimately show ?case using 2 by (simp add: level_size_Cons hd length_seg)
qed (simp add: length_seg)

lemma level_size_upper:
  "wf_buffer b \<Longrightarrow> chain_up p us \<Longrightarrow> start_of p us \<le> blen b \<Longrightarrow>
   p + level_size (upper b p k us @ [(kind_at k us, c)]) = start_of p us + length c"
proof (induction b p k us rule: upper.induct)
  case (2 b p k f fs)
  have hd: "fst (hd (upper b q k' fs @ [(kind_at k' fs, c)])) = k'" for q k' by (cases fs) simp_all
  have "offset f \<le> blen b" using 2(3,4) start_of_le [of "offset f + pending_len_len f" fs] by simp
  moreover have "header_room (kind_of f) = pending_len_len f" using 2(3) by (simp add: kind_of_def)
  ultimately show ?case using 2 by (simp add: level_size_Cons hd length_seg)
qed simp

section \<open>The contract of a call\<close>

text \<open>
  A call on the \<open>CBB\<close> at depth \<open>d\<close>: what it does to the levels, that a failure is recorded in
  the buffer, that a recorded failure stops it, and that it succeeds when the result fits.
\<close>

definition cbb_extends :: "cbb_state \<Rightarrow> cbb_state \<Rightarrow> bool" where
  "cbb_extends s s' = (case (cbb_base s, cbb_base s') of (Some b, Some b') \<Rightarrow> extends b b' | _ \<Rightarrow> False)"

locale builder_call =
  fixes call :: "cbb_state \<Rightarrow> (unit, cbb_state) outcome" and spec :: "levels \<Rightarrow> levels option" and d :: nat
  assumes refines: "wf_cbb s \<Longrightarrow> d < length (cbb_frames s) \<Longrightarrow> call s = (Some (), s') \<Longrightarrow>
      wf_cbb s' \<and> \<not> cbb_failed s' \<and> cbb_extends s s' \<and> spec (cbb_abs s) = Some (cbb_abs s')"
    and fails: "wf_cbb s \<Longrightarrow> d < length (cbb_frames s) \<Longrightarrow> call s = (None, s') \<Longrightarrow>
      wf_cbb s' \<and> cbb_failed s' \<and> cbb_extends s s'"
    and sticks: "cbb_failed s \<Longrightarrow> call s = (None, s)"
    and fits: "wf_cbb s \<Longrightarrow> d < length (cbb_frames s) \<Longrightarrow> \<not> cbb_failed s \<Longrightarrow> spec (cbb_abs s) = Some ls \<Longrightarrow>
      level_size ls \<le> cbb_cap s \<Longrightarrow> fst (call s) = Some ()"
    and grows: "spec ls = Some ls' \<Longrightarrow> level_size ls \<le> level_size ls'"
begin

lemma keeps_wf: "wf_cbb s \<Longrightarrow> d < length (cbb_frames s) \<Longrightarrow> wf_cbb (snd (call s))"
proof -
  assume s: "wf_cbb s" "d < length (cbb_frames s)"
  obtain r s' where c: "call s = (r, s')" by fastforce
  show "wf_cbb (snd (call s))"
    using refines [OF s, of s'] fails [OF s, of s'] c by (cases r) simp_all
qed

end

section \<open>The calls meet the contract\<close>

lemma frames_wf: "wf_cbb s \<Longrightarrow> length (cbb_abs s) = length (cbb_frames s)"
proof -
  have "length (levels_from b p k cs) = Suc (length cs)" for b p k cs
    by (induction b p k cs rule: levels_from.induct) simp_all
  then show "wf_cbb s \<Longrightarrow> ?thesis"
    by (auto simp: wf_cbb_def cbb_abs_def split: option.splits list.splits)
qed

lemma size_wf: "wf_cbb s \<Longrightarrow> level_size (cbb_abs s) = base_len s"
  using level_size_from [of _ 0]
  by (auto simp: wf_cbb_def cbb_abs_def base_len_def split: option.splits list.splits)

lemma wf_cbbI:
  "wf_buffer b \<Longrightarrow> chain_up 0 us \<Longrightarrow> chain_ok b (start_of 0 us) ls \<Longrightarrow> offset f = 0 \<Longrightarrow>
   pending_len_len f = 0 \<Longrightarrow> \<not> is_child f \<Longrightarrow> wf_cbb \<lparr>cbb_base = Some b, cbb_frames = f # us @ ls\<rparr>"
  by (simp add: wf_cbb_def chain_ok_append)

lemma flush_cases:
  assumes "wf_cbb s" and "d < length (cbb_frames s)"
  shows "\<exists>b f us ls b' ls' r. s = \<lparr>cbb_base = Some b, cbb_frames = f # us @ ls\<rparr> \<and> length us = d \<and>
    cbb_flush_chain env b ls = (r, b', ls') \<and>
    CBB_flush env d s = (r, \<lparr>cbb_base = Some b', cbb_frames = f # us @ ls'\<rparr>) \<and>
    wf_cbb \<lparr>cbb_base = Some b', cbb_frames = f # us @ ls'\<rparr> \<and> wf_buffer b \<and> chain_up 0 us \<and>
    chain_ok b (start_of 0 us) ls \<and> extends b b' \<and>
    cbb_abs s = upper b' 0 Root us @ levels_from b (start_of 0 us) (kind_at Root us) ls \<and>
    (case r of None \<Rightarrow> error b'
     | Some _ \<Rightarrow> \<not> error b' \<and> ls' = [] \<and>
         collapse (levels_from b (start_of 0 us) (kind_at Root us) ls) = Some (seg b' (start_of 0 us) (blen b')))"
proof -
  from wf_cbb_at [OF assms] obtain b f us ls where s: "cbb_base s = Some b" "cbb_frames s = f # us @ ls" "length us = d"
    and td: "take (Suc d) (cbb_frames s) = f # us" "drop (Suc d) (cbb_frames s) = ls"
    and f: "offset f = 0" "pending_len_len f = 0" "\<not> is_child f"
    and w: "wf_buffer b" "chain_up 0 us" "chain_ok b (start_of 0 us) ls"
    and abs: "cbb_abs s = upper b 0 Root us @ levels_from b (start_of 0 us) (kind_at Root us) ls" by blast
  obtain r b' ls' where fl: "cbb_flush_chain env b ls = (r, b', ls')" by (metis prod_cases3)
  from flush_post [OF w(1,3), of "kind_at Root us" env] fl
  have p: "wf_buffer b'" "chain_ok b' (start_of 0 us) ls'" "extends b b'"
    and t: "take (start_of 0 us) (buf b') = take (start_of 0 us) (buf b)"
    and r: "case r of None \<Rightarrow> error b'
     | Some _ \<Rightarrow> \<not> error b' \<and> ls' = [] \<and>
         collapse (levels_from b (start_of 0 us) (kind_at Root us) ls) = Some (seg b' (start_of 0 us) (blen b'))"
    by (simp_all add: flush_post_def)
  have up: "upper b 0 Root us = upper b' 0 Root us" by (rule upper_same [OF w(2) t [symmetric]])
  have fl2: "CBB_flush env d s = (r, \<lparr>cbb_base = Some b', cbb_frames = f # us @ ls'\<rparr>)"
    using assms(2) by (simp add: CBB_flush_def s(1) td fl)
  have "s = \<lparr>cbb_base = Some b, cbb_frames = f # us @ ls\<rparr>" using s by simp
  then show ?thesis
    using s(3) fl fl2 wf_cbbI [OF p(1) w(2) p(2) f] w p(3) abs up r by metis
qed

lemma flush_levels_upper:
  "flush_levels d (upper b 0 Root us @ levels_from b0 p (kind_at Root us) ls) =
     map_option (\<lambda>c. upper b 0 Root us @ [(kind_at Root us, c)]) (collapse (levels_from b0 p (kind_at Root us) ls))"
  if "length us = d"
  using that by (cases ls) (simp_all add: flush_levels_def nth_append)

interpretation flush: builder_call "CBB_flush env d" "flush_levels d" d for env d
proof
  fix s s'
  assume s: "wf_cbb s" "d < length (cbb_frames s)" and c: "CBB_flush env d s = (Some (), s')"
  from flush_cases [OF s, of env] c show
    "wf_cbb s' \<and> \<not> cbb_failed s' \<and> cbb_extends s s' \<and> flush_levels d (cbb_abs s) = Some (cbb_abs s')"
    by (elim exE conjE) (simp add: flush_levels_upper, simp add: cbb_failed_def cbb_extends_def cbb_abs_def levels_append [of _ _ _ _ "[]", simplified])
next
  fix s s'
  assume s: "wf_cbb s" "d < length (cbb_frames s)" and c: "CBB_flush env d s = (None, s')"
  from flush_cases [OF s, of env] c show "wf_cbb s' \<and> cbb_failed s' \<and> cbb_extends s s'"
    by (elim exE conjE) (simp add: cbb_failed_def cbb_extends_def)
next
  fix s assume f: "cbb_failed s"
  have "error b \<Longrightarrow> cbb_flush_chain env b cs = (None, b, cs)" for b cs by (cases cs) simp_all
  then show "CBB_flush env d s = (None, s)"
    using f by (auto simp: CBB_flush_def cbb_failed_def split: option.splits)
next
  fix s ls
  assume s: "wf_cbb s" "d < length (cbb_frames s)" and e: "\<not> cbb_failed s"
    and ls: "flush_levels d (cbb_abs s) = Some ls" "level_size ls \<le> cbb_cap s"
  from flush_cases [OF s, of env] obtain b f us l b' l' r where
    st: "s = \<lparr>cbb_base = Some b, cbb_frames = f # us @ l\<rparr>" "length us = d" "cbb_flush_chain env b l = (r, b', l')"
    and fl: "CBB_flush env d s = (r, \<lparr>cbb_base = Some b', cbb_frames = f # us @ l'\<rparr>)"
    and w: "wf_cbb \<lparr>cbb_base = Some b', cbb_frames = f # us @ l'\<rparr>" "wf_buffer b" "chain_up 0 us" "chain_ok b (start_of 0 us) l"
    and abs: "cbb_abs s = upper b' 0 Root us @ levels_from b (start_of 0 us) (kind_at Root us) l" by blast
  let ?p = "start_of 0 us"
  obtain c where c: "collapse (levels_from b ?p (kind_at Root us) l) = Some c"
    and ls': "ls = upper b' 0 Root us @ [(kind_at Root us, c)]"
    using ls(1) by (auto simp: abs flush_levels_upper [OF st(2)])
  have "wf_buffer b'" "?p \<le> blen b'"
    using w(1) chain_ok_le [of b' ?p l'] by (auto simp: wf_cbb_def chain_ok_append)
  then have "level_size ls = ?p + length c" using level_size_upper [OF _ w(3), of b' Root c] ls' by simp
  then have "?p + length c \<le> cap b" using ls(2) by (simp add: cbb_cap_def st(1))
  from flush_room [OF w(2,4) _ c this, of env] e have "r = Some ()"
    by (simp add: st cbb_failed_def)
  then show "fst (CBB_flush env d s) = Some ()" by (simp add: fl)
next
  show "flush_levels d ls = Some ls' \<Longrightarrow> level_size ls \<le> level_size ls'" for ls ls'
    by (rule flush_levels_grows)
qed


text \<open>A flush of a \<open>CBB\<close> without a child does nothing.\<close>

lemma flush_idle:
  assumes "length (cbb_frames s) = Suc d" and "\<not> cbb_failed s"
  shows "CBB_flush env d s = (Some (), s)"
  using assms by (auto simp: CBB_flush_def cbb_failed_def split: option.splits)

lemma flushed_frames:
  assumes "wf_cbb s" and "d < length (cbb_frames s)" and "CBB_flush env d s = (Some (), s')"
  shows "length (cbb_frames s') = Suc d"
  using flush_cases [OF assms(1,2), of env] assms(3) by auto

text \<open>
  The contract of a step on the buffer that appends \<open>bs\<close> (\<^const>\<open>None\<close> if it must fail); a call
  that flushes and then takes such a step appends to its level.
\<close>

locale appender =
  fixes env :: mem_env and d :: nat and g :: "cbb_buffer_st \<Rightarrow> (unit, cbb_buffer_st) outcome" and bs :: "bytes option"
  assumes app: "wf_buffer b \<Longrightarrow> \<not> error b \<Longrightarrow> g b = (r, b') \<Longrightarrow>
      wf_buffer b' \<and> extends b b' \<and> take (blen b) (buf b') = take (blen b) (buf b) \<and> blen b \<le> blen b' \<and>
      (case r of None \<Rightarrow> error b'
       | Some _ \<Rightarrow> \<not> error b' \<and> (\<exists>x. bs = Some x \<and> blen b' = blen b + length x \<and> seg b' (blen b) (blen b') = x))"
    and app_room: "wf_buffer b \<Longrightarrow> \<not> error b \<Longrightarrow> bs = Some x \<Longrightarrow> blen b + length x \<le> cap b \<Longrightarrow> fst (g b) = Some ()"

definition append_option :: "nat \<Rightarrow> bytes option \<Rightarrow> levels \<Rightarrow> levels option" where
  "append_option d bs ls = (case bs of None \<Rightarrow> None | Some x \<Rightarrow> append_levels d x ls)"

lemma append_levels_size:
  assumes "append_levels d x ls = Some ls'"
  shows "\<exists>ls1. flush_levels d ls = Some ls1 \<and> level_size ls' = level_size ls1 + length x"
proof -
  obtain c where c: "collapse (drop d ls) = Some c"
    and ls': "ls' = take d ls @ [(fst (ls ! d), c @ x)]"
    using assms by (auto simp: append_levels_def flush_levels_def)
  have "level_size (take d ls @ [(k, c @ x)]) = level_size (take d ls @ [(k, c)]) + length x" for k
    using level_size_append [of "[(k, c @ x)]" "take d ls"] level_size_append [of "[(k, c)]" "take d ls"] by simp
  then show ?thesis using c ls' by (simp add: flush_levels_def)
qed

context appender begin

lemma frames_step:
  assumes s: "wf_cbb s" "length (cbb_frames s) = Suc d" "\<not> cbb_failed s"
  shows "\<exists>b b' r f us. cbb_base s = Some b \<and> cbb_frames s = f # us \<and> g b = (r, b') \<and>
    on_base g s = (r, s\<lparr>cbb_base := Some b'\<rparr>) \<and> wf_cbb (s\<lparr>cbb_base := Some b'\<rparr>) \<and> extends b b' \<and>
    wf_buffer b \<and> \<not> error b \<and> blen b \<le> blen b' \<and>
    (case r of None \<Rightarrow> error b'
     | Some _ \<Rightarrow> \<not> error b' \<and> (\<exists>x. bs = Some x \<and> append_levels d x (cbb_abs s) = Some (cbb_abs (s\<lparr>cbb_base := Some b'\<rparr>))))"
proof -
  have d: "d < length (cbb_frames s)" using s(2) by simp
  from wf_cbb_at [OF s(1) d] obtain b f us ls where
    st: "cbb_base s = Some b" "cbb_frames s = f # us @ ls" "length us = d"
    and "take (Suc d) (cbb_frames s) = f # us" "drop (Suc d) (cbb_frames s) = ls"
    and f: "offset f = 0" "pending_len_len f = 0" "\<not> is_child f"
    and w: "wf_buffer b" "chain_up 0 us" "chain_ok b (start_of 0 us) ls"
    and abs: "cbb_abs s = upper b 0 Root us @ levels_from b (start_of 0 us) (kind_at Root us) ls" by blast
  let ?p = "start_of 0 us" and ?k = "kind_at Root us"
  have ls: "ls = []" using st s(2) by simp
  have e: "\<not> error b" using s(3) st(1) by (simp add: cbb_failed_def)
  obtain r b' where g: "g b = (r, b')" by fastforce
  from app [OF w(1) e g] have b': "wf_buffer b'" "extends b b'" "take (blen b) (buf b') = take (blen b) (buf b)" "blen b \<le> blen b'"
    and r: "case r of None \<Rightarrow> error b'
       | Some _ \<Rightarrow> \<not> error b' \<and> (\<exists>x. bs = Some x \<and> blen b' = blen b + length x \<and> seg b' (blen b) (blen b') = x)"
    by simp_all
  let ?s = "s\<lparr>cbb_base := Some b'\<rparr>"
  have pb: "?p \<le> blen b" using w(3) ls by simp
  have up: "upper b 0 Root us = upper b' 0 Root us"
    by (rule upper_same [OF w(2)], rule take_prefix_eq [OF pb], rule b'(3) [symmetric])
  have abs': "cbb_abs ?s = upper b 0 Root us @ [(?k, seg b' ?p (blen b'))]"
    using st ls levels_append [of b' 0 Root us "[]"] up by (simp add: cbb_abs_def)
  have sg: "seg b' ?p (blen b') = seg b ?p (blen b) @ seg b' (blen b) (blen b')"
    using seg_split [OF pb b'(4), of b'] seg_take [OF b'(3)] by simp
  have "append_levels d x (cbb_abs s) = Some (upper b 0 Root us @ [(?k, seg b ?p (blen b) @ x)])" for x
    using st(3) by (simp add: abs ls append_levels_def flush_levels_def nth_append)
  then have "case r of None \<Rightarrow> error b'
     | Some _ \<Rightarrow> \<not> error b' \<and> (\<exists>x. bs = Some x \<and> append_levels d x (cbb_abs s) = Some (cbb_abs ?s))"
    using r by (auto simp: abs' sg split: option.splits)
  moreover have "wf_cbb ?s"
    using b' w st f ls pb chain_ok_append [of b' 0 us "[]"] by (simp add: wf_cbb_def)
  moreover have "on_base g s = (r, ?s)" by (simp add: on_base_def st(1) g)
  ultimately show ?thesis using st ls g w(1) e b' by auto
qed

end

text \<open>Two calls in sequence.\<close>

lemma flush_levels_idem: "flush_levels d ls = Some ls1 \<Longrightarrow> flush_levels d ls1 = Some ls1 \<and> length ls1 = Suc d"
proof -
  assume "flush_levels d ls = Some ls1"
  then obtain c where c: "collapse (drop d ls) = Some c" and ls1: "ls1 = take d ls @ [(fst (ls ! d), c)]"
    by (auto simp: flush_levels_def)
  have "d < length ls" by (rule ccontr) (use c in simp)
  then have "length (take d ls) = d" by simp
  then show ?thesis unfolding ls1 by (simp add: flush_levels_def nth_append)
qed

lemma append_flushed: "flush_levels d ls = Some ls1 \<Longrightarrow> append_levels d x ls = append_levels d x ls1"
  using flush_levels_idem [of d ls ls1] by (simp add: append_levels_def)

lemma cbb_extends_trans: "cbb_extends s t \<Longrightarrow> cbb_extends t u \<Longrightarrow> cbb_extends s u"
  unfolding cbb_extends_def by (auto split: option.splits intro: extends_trans)

lemma cbb_extends_cap: "cbb_extends s t \<Longrightarrow> cbb_cap s \<le> cbb_cap t"
  by (auto simp: cbb_extends_def cbb_cap_def extends_def split: option.splits)

sublocale appender \<subseteq> call: builder_call
  "\<lambda>s. and_then (CBB_flush env d s) (\<lambda>_. on_base g)" "append_option d bs" d
proof
  fix s s'
  assume s: "wf_cbb s" "d < length (cbb_frames s)"
    and c: "and_then (CBB_flush env d s) (\<lambda>_. on_base g) = (Some (), s')"
  then obtain s1 where s1: "CBB_flush env d s = (Some (), s1)" and g: "on_base g s1 = (Some (), s')"
    by (auto simp: and_then_Some)
  note f = flush.refines [OF s s1]
  from frames_step [OF _ flushed_frames [OF s s1]] f g show
    "wf_cbb s' \<and> \<not> cbb_failed s' \<and> cbb_extends s s' \<and> append_option d bs (cbb_abs s) = Some (cbb_abs s')"
    using append_flushed [of d "cbb_abs s" "cbb_abs s1"] cbb_extends_trans [of s s1 s']
    by (auto simp: cbb_failed_def cbb_extends_def append_option_def)
next
  fix s s'
  assume s: "wf_cbb s" "d < length (cbb_frames s)"
    and c: "and_then (CBB_flush env d s) (\<lambda>_. on_base g) = (None, s')"
  show "wf_cbb s' \<and> cbb_failed s' \<and> cbb_extends s s'"
  proof (cases "CBB_flush env d s = (None, s')")
    case True
    then show ?thesis by (rule flush.fails [OF s])
  next
    case False
    then obtain s1 where s1: "CBB_flush env d s = (Some (), s1)" and g: "on_base g s1 = (None, s')"
      using c by (auto simp: and_then_None)
    note f = flush.refines [OF s s1]
    from frames_step [OF _ flushed_frames [OF s s1]] f g show ?thesis
      using cbb_extends_trans [of s s1 s']
      by (auto simp: cbb_failed_def cbb_extends_def)
  qed
next
  show "cbb_failed s \<Longrightarrow> and_then (CBB_flush env d s) (\<lambda>_. on_base g) = (None, s)" for s
    by (simp add: flush.sticks)
next
  fix s ls
  assume s: "wf_cbb s" "d < length (cbb_frames s)" "\<not> cbb_failed s"
    and ls: "append_option d bs (cbb_abs s) = Some ls" "level_size ls \<le> cbb_cap s"
  then obtain x where x: "bs = Some x" "append_levels d x (cbb_abs s) = Some ls"
    by (auto simp: append_option_def split: option.splits)
  from append_levels_size [OF x(2)] obtain ls1 where ls1: "flush_levels d (cbb_abs s) = Some ls1"
    and sz: "level_size ls = level_size ls1 + length x" by blast
  have "fst (CBB_flush env d s) = Some ()" using flush.fits [OF s ls1] sz ls(2) by simp
  then obtain s1 where s1: "CBB_flush env d s = (Some (), s1)" by (metis prod.collapse)
  note f = flush.refines [OF s(1,2) s1]
  have sz1: "base_len s1 + length x \<le> cbb_cap s1"
    using size_wf [of s1] f ls1 sz ls(2) cbb_extends_cap [of s s1] by simp
  from frames_step [OF _ flushed_frames [OF s(1,2) s1]] f obtain b b' r where
    b: "cbb_base s1 = Some b" "g b = (r, b')" "on_base g s1 = (r, s1\<lparr>cbb_base := Some b'\<rparr>)" "wf_buffer b" "\<not> error b"
    by blast
  then have "fst (g b) = Some ()"
    using sz1 by (intro app_room [OF _ _ x(1)]) (simp_all add: base_len_def cbb_cap_def)
  then show "fst (and_then (CBB_flush env d s) (\<lambda>_. on_base g)) = Some ()" using b by (simp add: s1)
next
  fix ls ls' assume "append_option d bs ls = Some ls'"
  then obtain x where "append_levels d x ls = Some ls'" by (auto simp: append_option_def split: option.splits)
  from append_levels_size [OF this] flush_levels_grows show "level_size ls \<le> level_size ls'" by fastforce
qed

end
