(* ===== verification/ASN1_Values.thy ===== *)
theory ASN1_Values
  imports DER
begin

text \<open>
  The second half of \<open>cbs.c\<close>: INTEGER, BOOLEAN, optional elements and BIT STRING. A signed
  64-bit integer is the word with the same two's complement representation.
\<close>

unbundle bit_operations_syntax

section \<open>INTEGER and BOOLEAN\<close>

fun asn1_uint64_loop :: "bytes \<Rightarrow> u64 \<Rightarrow> u64 option" where
  "asn1_uint64_loop [] v = Some v"
| "asn1_uint64_loop (b # bs) v =
     (if drop_bit 56 v \<noteq> 0 then None else asn1_uint64_loop bs (push_bit 8 v OR ucast b))"

definition CBS_get_asn1_uint64 :: "cbs_st \<Rightarrow> (u64, cbs_st) outcome" where
  "CBS_get_asn1_uint64 c =
     and_then (CBS_get_asn1 c CBS_ASN1_INTEGER) (\<lambda>bytes c.
       let data = CBS_data bytes; n = CBS_len bytes
       in if n = 0 then (None, c)
          else if data ! 0 AND 0x80 \<noteq> 0 then (None, c)
          else if data ! 0 = 0 \<and> n > 1 \<and> data ! 1 AND 0x80 = 0 then (None, c)
          else (asn1_uint64_loop (take n data) 0, c))"

text \<open>
  The union of \<open>CBS_get_asn1_int64\<close>: eight bytes, least significant first (the targets are
  little-endian), filled with the sign and overwritten from index 0 with the reversed data.
\<close>

definition le_word :: "bytes \<Rightarrow> u64" where
  "le_word bs = foldr (\<lambda>b r. push_bit 8 r OR ucast b) bs 0"

definition asn1_int64_union :: "bytes \<Rightarrow> nat \<Rightarrow> u64" where
  "asn1_int64_union data n =
     (let is_negative = (data ! 0 AND 0x80 \<noteq> 0);
          u = replicate 8 (if is_negative then 0xff else 0);
          u = map (\<lambda>i. data ! (n - i - 1)) [0..<n] @ drop n u
      in le_word u)"

definition CBS_get_asn1_int64 :: "cbs_st \<Rightarrow> (u64, cbs_st) outcome" where
  "CBS_get_asn1_int64 c =
     and_then (CBS_get_asn1 c CBS_ASN1_INTEGER) (\<lambda>bytes c.
       let data = CBS_data bytes; n = CBS_len bytes
       in if n = 0 \<or> n > 8 then (None, c)
          else if n > 1 \<and> data ! 0 = 0 \<and> data ! 1 AND 0x80 = 0 then (None, c)
          else if n > 1 \<and> data ! 0 = 0xff \<and> data ! 1 AND 0x80 \<noteq> 0 then (None, c)
          else (Some (asn1_int64_union data n), c))"

definition CBS_get_asn1_bool :: "cbs_st \<Rightarrow> (int, cbs_st) outcome" where
  "CBS_get_asn1_bool c =
     and_then (CBS_get_asn1 c CBS_ASN1_BOOLEAN) (\<lambda>bytes c.
       if CBS_len bytes \<noteq> 1 then (None, c)
       else let v = CBS_data bytes ! 0
            in if v \<noteq> 0 \<and> v \<noteq> 0xff then (None, c) else (Some (if v \<noteq> 0 then 1 else 0), c))"

section \<open>Optional elements\<close>

text \<open>
  \<open>CBS_get_optional_asn1\<close> stores \<open>*out_present\<close> and, when it is 1, \<open>*out\<close>: the result is
  \<^const>\<open>None\<close> for absent and \<^const>\<open>Some\<close> of \<open>*out\<close> for present.
\<close>

definition CBS_get_optional_asn1 :: "cbs_st \<Rightarrow> u32 \<Rightarrow> (cbs_st option, cbs_st) outcome" where
  "CBS_get_optional_asn1 c tag =
     (if CBS_peek_asn1_tag c tag
      then and_then (CBS_get_asn1 c tag) (\<lambda>out c. (Some (Some out), c))
      else (Some None, c))"

definition CBS_get_optional_asn1_octet_string :: "cbs_st \<Rightarrow> u32 \<Rightarrow> (cbs_st \<times> bool, cbs_st) outcome" where
  "CBS_get_optional_asn1_octet_string c tag =
     and_then (CBS_get_optional_asn1 c tag) (\<lambda>present c.
       case present of
         Some child \<Rightarrow>
           (case CBS_get_asn1 child CBS_ASN1_OCTETSTRING of
              (None, _) \<Rightarrow> (None, c)
            | (Some out, child) \<Rightarrow> if CBS_len child \<noteq> 0 then (None, c) else (Some (out, True), c))
       | None \<Rightarrow> (Some (CBS_init [] 0, False), c))"

definition CBS_get_optional_asn1_uint64 :: "cbs_st \<Rightarrow> u32 \<Rightarrow> u64 \<Rightarrow> (u64, cbs_st) outcome" where
  "CBS_get_optional_asn1_uint64 c tag default_value =
     and_then (CBS_get_optional_asn1 c tag) (\<lambda>present c.
       case present of
         Some child \<Rightarrow>
           (case CBS_get_asn1_uint64 child of
              (None, _) \<Rightarrow> (None, c)
            | (Some out, child) \<Rightarrow> if CBS_len child \<noteq> 0 then (None, c) else (Some out, c))
       | None \<Rightarrow> (Some default_value, c))"

definition CBS_get_optional_asn1_bool :: "cbs_st \<Rightarrow> u32 \<Rightarrow> int \<Rightarrow> (int, cbs_st) outcome" where
  "CBS_get_optional_asn1_bool c tag default_value =
     and_then (CBS_get_optional_asn1 c tag) (\<lambda>present c.
       case present of
         Some child \<Rightarrow>
           (case CBS_get_asn1 child CBS_ASN1_BOOLEAN of
              (None, _) \<Rightarrow> (None, c)
            | (Some child2, child) \<Rightarrow>
                if CBS_len child2 \<noteq> 1 \<or> CBS_len child \<noteq> 0 then (None, c)
                else let boolean = CBS_data child2 ! 0
                     in if boolean = 0 then (Some 0, c)
                        else if boolean = 0xff then (Some 1, c)
                        else (None, c))
       | None \<Rightarrow> (Some default_value, c))"

section \<open>BIT STRING\<close>

definition CBS_is_valid_asn1_bitstring :: "cbs_st \<Rightarrow> bool" where
  "CBS_is_valid_asn1_bitstring c =
     (case CBS_get_u8 c of (None, _) \<Rightarrow> False
      | (Some num_unused_bits, c) \<Rightarrow>
        if num_unused_bits > 7 then False
        else if num_unused_bits = 0 then True
        else (case CBS_get_last_u8 c of (None, _) \<Rightarrow> False
              | (Some last_byte, _) \<Rightarrow>
                (ucast last_byte :: u32) AND (push_bit (unat num_unused_bits) 1 - 1) = 0))"

definition CBS_asn1_bitstring_has_bit :: "cbs_st \<Rightarrow> u32 \<Rightarrow> bool" where
  "CBS_asn1_bitstring_has_bit c i =
     (if \<not> CBS_is_valid_asn1_bitstring c then False
      else let byte_num = drop_bit 3 i + 1; bit_num = 7 - (i AND 7)
           in unat byte_num < CBS_len c \<and>
              (ucast (CBS_data c ! unat byte_num) :: u32) AND push_bit (unat bit_num) 1 \<noteq> 0)"

section \<open>The encoding of INTEGER\<close>

text \<open>
  The specification: the shortest two's complement big-endian encoding of an integer, and the
  value of a two's complement byte string.
\<close>

function der_int :: "int \<Rightarrow> bytes" where
  "der_int i = (if -128 \<le> i \<and> i < 128 then [of_int i] else der_int (i div 256) @ [of_int i])"
  by pat_completeness auto
termination
proof (relation "measure (\<lambda>i. nat \<bar>i\<bar>)")
  fix i :: int
  assume "\<not> (- 128 \<le> i \<and> i < 128)"
  then have "\<bar>i div 256\<bar> < \<bar>i\<bar>" by linarith
  then show "(i div 256, i) \<in> measure (\<lambda>i. nat \<bar>i\<bar>)" by simp
qed simp

declare der_int.simps [simp del]

definition twos :: "bytes \<Rightarrow> int" where
  "twos bs = (if bs \<noteq> [] \<and> 128 \<le> unat (hd bs) then int (be_val bs) - 256 ^ length bs else int (be_val bs))"

definition minimal :: "bytes \<Rightarrow> bool" where
  "minimal bs = (bs \<noteq> [] \<and>
     \<not> (1 < length bs \<and> (bs ! 0 = 0 \<and> unat (bs ! 1) < 128 \<or> bs ! 0 = 0xff \<and> 128 \<le> unat (bs ! 1))))"

lemma of_int_256: "(of_int x * 256 + b :: u8) = b"
proof -
  have "(256 :: u8) = 0" by simp
  then show ?thesis by (simp only: mult_zero_right add_0)
qed

lemma uint_u8_less: "uint (b :: u8) < 256"
  using uint_lt2p [of b] by simp

lemma twos_single: "twos [b] = (if 128 \<le> unat b then int (unat b) - 256 else int (unat b))"
  by (simp add: twos_def)

lemma twos_snoc: "xs \<noteq> [] \<Longrightarrow> twos (xs @ [b]) = twos xs * 256 + int (unat b)"
  by (simp add: twos_def be_val_append)

lemma be_val_ge: "bs = b # c # r \<Longrightarrow> (unat b * 256 + unat c) * 256 ^ length r \<le> be_val bs"
  by (simp add: algebra_simps)

lemma be_val_lt: "bs = b # c # r \<Longrightarrow> be_val bs < (unat b * 256 + unat c + 1) * 256 ^ length r"
  using be_val_less [of r] by (simp add: algebra_simps)

lemma minimal_bound:
  assumes "minimal bs" and bs: "bs = b # c # r"
  shows "twos bs < - 128 * 256 ^ length r \<or> 128 * 256 ^ length r \<le> twos bs"
proof -
  let ?P = "256 ^ length r :: nat"
  have nz: "unat b = 0 \<Longrightarrow> 128 \<le> unat c" "unat b = 255 \<Longrightarrow> unat c < 128"
    using assms(1) by (auto simp: minimal_def bs word_unat_eq_iff)
  show ?thesis
  proof (cases "unat b < 128")
    case True
    have "128 \<le> unat b * 256 + unat c" using nz(1) by (cases "unat b = 0") auto
    then have "128 * ?P \<le> (unat b * 256 + unat c) * ?P" by (rule mult_le_mono1)
    then have "128 * ?P \<le> be_val bs" by (rule order_trans [OF _ be_val_ge [OF bs]])
    then have "int (128 * ?P) \<le> int (be_val bs)" by (simp only: of_nat_le_iff)
    moreover have "twos bs = int (be_val bs)" using True by (simp add: twos_def bs)
    ultimately show ?thesis by simp
  next
    case False
    have "unat b * 256 + unat c + 1 \<le> 65408"
    proof (cases "unat b = 255")
      case True
      then show ?thesis using nz(2) by simp
    next
      case False
      then have "unat b \<le> 254" using unat_u8_le [of b] by linarith
      then show ?thesis using unat_u8_le [of c] by linarith
    qed
    then have "(unat b * 256 + unat c + 1) * ?P \<le> 65408 * ?P" by (rule mult_le_mono1)
    then have "be_val bs < 65408 * ?P" using be_val_lt [OF bs] by linarith
    then have "int (be_val bs) < int (65408 * ?P)" by (simp only: of_nat_less_iff)
    moreover have "twos bs = int (be_val bs) - 65536 * 256 ^ length r" using False by (simp add: twos_def bs)
    ultimately show ?thesis by simp
  qed
qed

lemma two_or_more: "1 < length bs \<Longrightarrow> \<exists>b c r. bs = b # c # r"
  by (cases bs rule: remdups_adj.cases) auto

lemma minimal_range:
  assumes "minimal bs" and "1 < length bs"
  shows "twos bs < -128 \<or> 128 \<le> twos bs"
proof -
  obtain b c r where bs: "bs = b # c # r" using two_or_more [OF assms(2)] by blast
  have "(1::int) \<le> 256 ^ length r" by simp
  then show ?thesis using minimal_bound [OF assms(1) bs] by linarith
qed

lemma minimal_length:
  assumes "minimal bs" and "- 128 * 256 ^ k \<le> twos bs" and "twos bs < 128 * 256 ^ k"
  shows "length bs \<le> k + 1"
proof (rule ccontr)
  assume long: "\<not> length bs \<le> k + 1"
  then obtain b c r where bs: "bs = b # c # r" using two_or_more [of bs] by auto
  have "(256::int) ^ k \<le> 256 ^ length r" using long bs by (intro power_increasing) simp_all
  then show False using minimal_bound [OF assms(1) bs] assms(2,3) by linarith
qed

lemma minimal_snoc:
  assumes "minimal (xs @ [b])" and "xs \<noteq> []"
  shows "minimal xs"
  using assms by (auto simp: minimal_def nth_append)

lemma of_int_twos_single: "of_int (twos [b]) = b" and twos_single_range: "-128 \<le> twos [b]" "twos [b] < 128"
proof -
  show "-128 \<le> twos [b]" "twos [b] < 128" using unat_u8_less [of b] by (auto simp: twos_single simp del: of_nat_unat unat_u8_less)
  have "twos [b] mod 256 = uint b" using uint_u8_less [of b] by (simp add: twos_def)
  then show "of_int (twos [b]) = b" by (simp add: word_uint_eq_iff uint_word_of_int)
qed

lemma der_int_twos: "minimal bs \<Longrightarrow> der_int (twos bs) = bs"
proof (induction bs rule: rev_induct)
  case Nil
  then show ?case by (simp add: minimal_def)
next
  case (snoc b xs)
  show ?case
  proof (cases "xs = []")
    case True
    then show ?thesis using twos_single_range [of b] by (simp add: der_int.simps of_int_twos_single)
  next
    case False
    then have "\<not> (-128 \<le> twos (xs @ [b]) \<and> twos (xs @ [b]) < 128)"
      using minimal_range [OF snoc.prems] by (cases xs) auto
    moreover have "twos (xs @ [b]) div 256 = twos xs" using False uint_u8_less [of b] by (simp add: twos_snoc)
    moreover have "(of_int (twos (xs @ [b])) :: u8) = b" using False
      by (simp add: twos_snoc of_int_256)
    moreover have "der_int (twos xs) = xs" using snoc minimal_snoc False by blast
    ultimately show ?thesis by (subst der_int.simps) auto
  qed
qed

lemma der_int_minimal: "minimal (der_int i) \<and> twos (der_int i) = i"
proof (induction i rule: der_int.induct)
  case (1 i)
  show ?case
  proof (cases "-128 \<le> i \<and> i < 128")
    case True
    have "int (unat (of_int i :: u8)) = i mod 256" by (simp add: uint_word_of_int)
    moreover have "i mod 256 = (if 0 \<le> i then i else i + 256)"
    proof (cases "0 \<le> i")
      case False
      have "i mod 256 = (i + 256) mod 256" by simp
      also have "\<dots> = i + 256" using True False by (intro mod_pos_pos_trivial) linarith+
      finally show ?thesis using False by simp
    qed (use True in simp)
    ultimately have "twos [of_int i] = i" using True
      by (auto simp: twos_single simp del: of_nat_unat split: if_splits)
    then show ?thesis using True by (simp add: der_int.simps minimal_def)
  next
    case False
    let ?ys = "der_int (i div 256)" and ?b = "of_int i :: u8"
    have IH: "minimal ?ys" "twos ?ys = i div 256" using "1.IH" [OF False] by auto
    have e: "der_int i = ?ys @ [?b]" using False by (subst der_int.simps) auto
    have ne: "?ys \<noteq> []" using IH by (simp add: minimal_def)
    have ub: "int (unat ?b) = i mod 256" by (simp add: uint_word_of_int)
    have tw: "twos (der_int i) = i" using e ne IH ub by (simp add: twos_snoc)
    have "minimal (?ys @ [?b])"
    proof (cases "1 < length ?ys")
      case True
      then show ?thesis using IH(1) by (auto simp: minimal_def nth_append)
    next
      case short: False
      then obtain y where y: "?ys = [y]" using ne by (cases ?ys) auto
      have "i div 256 = (if 128 \<le> unat y then int (unat y) - 256 else int (unat y))"
        using IH(2) by (simp only: y twos_single)
      then have "y = 0 \<Longrightarrow> i div 256 = 0" "y = 0xff \<Longrightarrow> i div 256 = -1" by simp_all
      moreover have "i = 256 * (i div 256) + int (unat ?b)" unfolding ub by (simp only: mult_div_mod_eq)
      ultimately have "\<not> (y = 0 \<and> unat ?b < 128)" "\<not> (y = 0xff \<and> 128 \<le> unat ?b)"
        using False by linarith+
      then show ?thesis by (simp add: minimal_def y)
    qed
    then show ?thesis using e tw by simp
  qed
qed

lemma der_int_eq_iff: "der_int i = bs \<longleftrightarrow> minimal bs \<and> twos bs = i"
  using der_int_minimal der_int_twos by blast


section \<open>The INTEGER readers\<close>

lemma asn1_uint64_loop_eq:
  "asn1_uint64_loop bs v =
     (if unat v * 256 ^ length bs + be_val bs < 2 ^ 64 then Some (of_nat (unat v * 256 ^ length bs + be_val bs))
      else None)"
proof (induction bs arbitrary: v)
  case Nil
  then show ?case using unsigned_less [of v, where ?'a = nat] by simp
next
  case (Cons b bs)
  show ?case
  proof (cases "drop_bit 56 v = 0")
    case True
    then have "unat v div 2 ^ 56 = 0" by (simp only: unat_drop [symmetric] unsigned_0)
    then have "unat v < 2 ^ 56" by (simp add: div_eq_0_iff)
    then have "unat v * 2 ^ 8 + unat b < 2 ^ 64" using unat_u8_le [of b] by simp
    then have "unat (push_bit 8 v OR ucast b) = unat v * 256 + unat b"
      by (subst unat_push_or) (simp_all add: unat_ucast_up)
    then show ?thesis using True by (simp add: Cons algebra_simps)
  next
    case False
    then have "unat v div 2 ^ 56 \<noteq> 0" by (simp only: word_unat_eq_iff unat_drop unsigned_0 not_False_eq_True)
    then have "2 ^ 56 \<le> unat v" by (simp add: div_eq_0_iff not_less)
    moreover have "(1::nat) \<le> 256 ^ length bs" by simp
    ultimately have "2 ^ 56 * 256 * 1 \<le> unat v * 256 * 256 ^ length bs"
      by (intro mult_le_mono) simp_all
    then show ?thesis using False by (simp add: algebra_simps)
  qed
qed

lemma CBS_get_asn1_uint64_eq:
  assumes "wf_cbs c"
  shows "CBS_get_asn1_uint64 c =
    and_then (CBS_get_asn1 c CBS_ASN1_INTEGER) (\<lambda>out c.
      (if minimal (cbs_bytes out) \<and> 0 \<le> twos (cbs_bytes out) \<and> twos (cbs_bytes out) < 2 ^ 64
       then Some (of_int (twos (cbs_bytes out))) else None, c))"
  unfolding CBS_get_asn1_uint64_def
proof (rule and_then_cong)
  fix out c' assume "CBS_get_asn1 c CBS_ASN1_INTEGER = (Some out, c')"
  then have wf: "wf_cbs out" using CBS_get_asn1_sound [OF assms] by blast
  let ?bs = "cbs_bytes out" and ?d = "cbs_data out" and ?n = "cbs_len out"
  have len: "length ?bs = ?n" using wf by simp
  have tk: "take ?n ?d = ?bs" by (simp add: cbs_bytes_def)
  show "(let data = CBS_data out; n = CBS_len out
       in if n = 0 then (None, c') else if data ! 0 AND 0x80 \<noteq> 0 then (None, c')
          else if data ! 0 = 0 \<and> n > 1 \<and> data ! 1 AND 0x80 = 0 then (None, c')
          else (asn1_uint64_loop (take n data) 0, c')) =
    (if minimal ?bs \<and> 0 \<le> twos ?bs \<and> twos ?bs < 2 ^ 64 then Some (of_int (twos ?bs)) else None, c')"
  proof (cases ?bs)
    case Nil
    then show ?thesis using len by (simp add: CBS_len_def Let_def minimal_def)
  next
    case (Cons b r)
    have n0: "?n \<noteq> 0" using Cons len by auto
    have d0: "?d ! 0 = b" using Cons len nth_data [of 0 out] by simp
    show ?thesis
    proof (cases "unat b < 128")
      case True
      have tw: "twos ?bs = int (be_val ?bs)" using Cons True by (simp add: twos_def)
      have "b \<noteq> 0xff" using True by auto
      moreover have "1 < ?n \<Longrightarrow> ?d ! 1 = ?bs ! 1" by (simp add: nth_data)
      ultimately have mn: "minimal ?bs \<longleftrightarrow> \<not> (b = 0 \<and> 1 < ?n \<and> unat (?d ! 1) < 128)"
        using Cons len by (auto simp: minimal_def)
      show ?thesis using True n0
        by (simp add: CBS_data_def CBS_len_def Let_def d0 and_80_zero mn tw tk asn1_uint64_loop_eq)
    next
      case False
      have "twos ?bs < 0"
      proof -
        have "int (be_val ?bs) < 256 ^ length ?bs" by (rule int_be_val_less)
        moreover have "twos ?bs = int (be_val ?bs) - 256 ^ length ?bs"
          using Cons False by (simp add: twos_def del: be_val.simps of_nat_unat)
        ultimately show ?thesis by linarith
      qed
      then show ?thesis using False n0
        by (simp add: CBS_data_def CBS_len_def Let_def d0 and_80_zero)
    qed
  qed
qed simp


lemma be_word_sign_extend:
  assumes "bs \<noteq> []" and "length bs \<le> 8"
  shows "(be_word (replicate (8 - length bs) (if 128 \<le> unat (hd bs) then 0xff else 0) @ bs) :: u64) = of_int (twos bs)"
proof -
  let ?k = "8 - length bs"
  have z: "be_val (replicate k 0) = 0" for k by (induction k) simp_all
  have u255: "unat (0xff :: u8) = 255" by simp
  have "be_val (replicate k 0xff) + 1 = 256 ^ k" for k
    by (induction k) (simp_all only: replicate.simps be_val.simps length_replicate u255, simp_all)
  then have "int (be_val (replicate k 0xff) + 1) = int (256 ^ k)" for k by (simp only:)
  then have f: "int (be_val (replicate k 0xff)) = 256 ^ k - 1" for k by (simp add: algebra_simps)
  have p: "(256::int) ^ ?k * 256 ^ length bs = 2 ^ 64"
    using assms(2) by (simp flip: power_add)
  have 1: "(be_word xs :: u64) = of_int (int (be_val xs))" for xs
    by (simp add: be_word_of_nat)
  show ?thesis
  proof (cases "128 \<le> unat (hd bs)")
    case True
    have "int (be_val (replicate ?k 0xff @ bs)) = 2 ^ 64 + twos bs"
      using True assms(1) p by (simp add: be_val_append f twos_def left_diff_distrib)
    then show ?thesis using True 1 [of "replicate ?k 0xff @ bs"] by simp
  next
    case False
    then show ?thesis using 1 [of "replicate ?k 0 @ bs"] by (simp add: be_val_append z twos_def)
  qed
qed

lemma asn1_int64_union_eq:
  assumes "0 < n" and "n \<le> 8" and "n \<le> length data"
  shows "asn1_int64_union data n = of_int (twos (take n data))"
proof -
  let ?fill = "if data ! 0 AND 0x80 \<noteq> 0 then 0xff else 0 :: u8" and ?bs = "take n data"
  have ne: "?bs \<noteq> []" using assms by auto
  have hd: "hd ?bs = data ! 0" using assms by (cases data) simp_all
  have "map (\<lambda>i. data ! (n - i - 1)) [0..<n] = rev ?bs"
    using assms(3) by (intro nth_equalityI) (simp_all add: rev_nth min_def)
  then have "rev (map (\<lambda>i. data ! (n - i - 1)) [0..<n] @ drop n (replicate 8 ?fill)) = replicate (8 - n) ?fill @ ?bs"
    by (simp only: rev_append rev_rev_ident drop_replicate rev_replicate)
  moreover have "le_word xs = be_word (rev xs)" for xs
    by (simp add: le_word_def be_word_def foldl_conv_foldr)
  ultimately have "asn1_int64_union data n = be_word (replicate (8 - n) ?fill @ ?bs)"
    by (simp only: asn1_int64_union_def Let_def)
  also have "?fill = (if 128 \<le> unat (hd ?bs) then 0xff else 0)" by (simp add: and_80_zero hd)
  also have "8 - n = 8 - length ?bs" using assms by simp
  finally show ?thesis using be_word_sign_extend [OF ne] assms by simp
qed

lemma CBS_get_asn1_int64_eq:
  assumes "wf_cbs c"
  shows "CBS_get_asn1_int64 c =
    and_then (CBS_get_asn1 c CBS_ASN1_INTEGER) (\<lambda>out c.
      (if minimal (cbs_bytes out) \<and> length (cbs_bytes out) \<le> 8 then Some (of_int (twos (cbs_bytes out))) else None, c))"
  unfolding CBS_get_asn1_int64_def
proof (rule and_then_cong)
  fix out c' assume "CBS_get_asn1 c CBS_ASN1_INTEGER = (Some out, c')"
  then have wf: "wf_cbs out" using CBS_get_asn1_sound [OF assms] by blast
  let ?bs = "cbs_bytes out" and ?d = "cbs_data out" and ?n = "cbs_len out"
  have len: "length ?bs = ?n" using wf by simp
  have mn: "minimal ?bs \<longleftrightarrow> ?n \<noteq> 0 \<and> \<not> (?n > 1 \<and> ?d ! 0 = 0 \<and> ?d ! 1 AND 0x80 = 0) \<and>
      \<not> (?n > 1 \<and> ?d ! 0 = 0xff \<and> ?d ! 1 AND 0x80 \<noteq> 0)"
    using len by (cases "?n = 0") (auto simp: minimal_def nth_data and_80_zero)
  have u: "asn1_int64_union ?d ?n = of_int (twos ?bs)" if "?n \<noteq> 0" "?n \<le> 8"
    using asn1_int64_union_eq [of ?n ?d] that wf by (simp add: wf_cbs_def cbs_bytes_def)
  show "(let data = CBS_data out; n = CBS_len out
       in if n = 0 \<or> n > 8 then (None, c')
          else if n > 1 \<and> data ! 0 = 0 \<and> data ! 1 AND 0x80 = 0 then (None, c')
          else if n > 1 \<and> data ! 0 = 0xff \<and> data ! 1 AND 0x80 \<noteq> 0 then (None, c')
          else (Some (asn1_int64_union data n), c')) =
    (if minimal ?bs \<and> length ?bs \<le> 8 then Some (of_int (twos ?bs)) else None, c')"
    unfolding Let_def CBS_data_def CBS_len_def mn len using u by auto
qed simp

section \<open>Readers of one DER element\<close>

text \<open>
  A reader that takes the element with a fixed tag and decodes its body is a codec for the
  element as soon as the body decoder inverts the body encoder.
\<close>

locale body_codec =
  fixes rd :: "cbs_st \<Rightarrow> ('a, cbs_st) outcome" and tag :: u32
    and dec :: "bytes \<Rightarrow> 'a option" and enc :: "'a \<Rightarrow> bytes" and valid :: "'a \<Rightarrow> bool"
  assumes rd_eq: "wf_cbs c \<Longrightarrow>
      rd c = and_then (CBS_get_asn1 c tag) (\<lambda>out c. (dec (cbs_bytes out), c))"
    and dec_iff: "dec bs = Some v \<longleftrightarrow> valid v \<and> bs = enc v"
    and enc_short: "valid v \<Longrightarrow> length (enc v) < 2 ^ 32"

sublocale body_codec \<subseteq> codec rd "\<lambda>v. der_element (tag, enc v)" valid
proof
  fix c v rest
  assume wf: "wf_cbs c" and v: "valid v" and eq: "cbs_bytes c = der_element (tag, enc v) @ rest"
  show "rd c = (Some v, advance c (length (der_element (tag, enc v))))"
    using CBS_get_asn1_complete [OF wf enc_short [OF v] eq] v by (auto simp: rd_eq [OF wf] dec_iff)
next
  fix c v c'
  assume wf: "wf_cbs c" and "rd c = (Some v, c')"
  then obtain out where out: "CBS_get_asn1 c tag = (Some out, c')" and "dec (cbs_bytes out) = Some v"
    by (auto simp: rd_eq [OF wf] and_then_Some)
  then have v: "valid v" "cbs_bytes out = enc v" by (simp_all add: dec_iff)
  show "valid v \<and> c' = advance c (length (der_element (tag, enc v))) \<and>
      (\<exists>rest. cbs_bytes c = der_element (tag, enc v) @ rest)"
    using CBS_get_asn1_sound [OF wf out] v(1) unfolding v(2) by blast
qed

lemma length_der_int:
  assumes "- 128 * 256 ^ k \<le> i" and "i < 128 * 256 ^ k"
  shows "length (der_int i) \<le> k + 1"
  using minimal_length [of "der_int i" k] der_int_minimal [of i] assms by simp

lemma length_der_uint64: "length (der_int (uint (v :: u64))) \<le> 9"
  using length_der_int [of 8 "uint v"] uint_lt2p [of v] uint_ge_0 [of v] by simp

lemma length_der_int64: "length (der_int (sint (v :: u64))) \<le> 8"
  using length_der_int [of 7 "sint v"] sint_ge [of v] sint_lt [of v] by simp

definition dec_uint64 :: "bytes \<Rightarrow> u64 option" where
  "dec_uint64 bs = (if minimal bs \<and> 0 \<le> twos bs \<and> twos bs < 2 ^ 64 then Some (of_int (twos bs)) else None)"

definition dec_int64 :: "bytes \<Rightarrow> u64 option" where
  "dec_int64 bs = (if minimal bs \<and> length bs \<le> 8 then Some (of_int (twos bs)) else None)"

lemma dec_uint64_iff: "dec_uint64 bs = Some v \<longleftrightarrow> bs = der_int (uint v)"
proof -
  have "dec_uint64 (der_int (uint v)) = Some v"
    using der_int_minimal [of "uint v"] uint_lt2p [of v] by (simp add: dec_uint64_def)
  moreover have "uint v = twos bs" if "dec_uint64 bs = Some v"
    using that by (auto simp: dec_uint64_def uint_word_of_int split: if_splits)
  ultimately show ?thesis using der_int_twos [of bs] by (metis dec_uint64_def option.distinct(1))
qed

lemma twos_range: "bs \<noteq> [] \<Longrightarrow> - 128 * 256 ^ (length bs - 1) \<le> twos bs \<and> twos bs < 128 * 256 ^ (length bs - 1)"
proof (induction bs rule: rev_induct)
  case (snoc b xs)
  show ?case
  proof (cases "xs = []")
    case True
    then show ?thesis using twos_single_range [of b] by simp
  next
    case False
    then obtain m where m: "length xs = Suc m" by (cases xs) auto
    have "- 128 * 256 ^ m \<le> twos xs \<and> twos xs < 128 * 256 ^ m" using snoc.IH False m by simp
    then show ?thesis using m unat_u8_le [of b] by (simp add: twos_snoc False del: of_nat_unat)
  qed
qed simp

lemma dec_int64_iff: "dec_int64 bs = Some v \<longleftrightarrow> bs = der_int (sint v)"
proof -
  have "dec_int64 (der_int (sint v)) = Some v"
    using der_int_minimal [of "sint v"] length_der_int64 [of v] by (simp add: dec_int64_def)
  moreover have "sint v = twos bs" if "dec_int64 bs = Some v"
  proof -
    from that have bs: "bs \<noteq> []" "length bs \<le> 8" and v: "v = of_int (twos bs)"
      by (auto simp: dec_int64_def minimal_def split: if_splits)
    have "(256::int) ^ (length bs - 1) \<le> 256 ^ 7" using bs(2) by (intro power_increasing) simp_all
    then have "- (2 ^ 63) \<le> twos bs" "twos bs < 2 ^ 63" using twos_range [OF bs(1)] by simp_all
    then show ?thesis unfolding v by (simp add: sint_sbintrunc' signed_take_bit_int_eq_self)
  qed
  ultimately show ?thesis using der_int_twos [of bs] by (metis dec_int64_def option.distinct(1))
qed

interpretation asn1_uint64: body_codec CBS_get_asn1_uint64 CBS_ASN1_INTEGER dec_uint64 "\<lambda>v. der_int (uint v)" "\<lambda>_. True"
proof
  show "CBS_get_asn1_uint64 c = and_then (CBS_get_asn1 c CBS_ASN1_INTEGER) (\<lambda>out c. (dec_uint64 (cbs_bytes out), c))"
    if "wf_cbs c" for c
    using CBS_get_asn1_uint64_eq [OF that] by (simp add: dec_uint64_def)
  show "length (der_int (uint v)) < 2 ^ 32" for v :: u64
    using length_der_uint64 [of v] by simp
qed (simp add: dec_uint64_iff)

interpretation asn1_int64: body_codec CBS_get_asn1_int64 CBS_ASN1_INTEGER dec_int64 "\<lambda>v. der_int (sint v)" "\<lambda>_. True"
proof
  show "CBS_get_asn1_int64 c = and_then (CBS_get_asn1 c CBS_ASN1_INTEGER) (\<lambda>out c. (dec_int64 (cbs_bytes out), c))"
    if "wf_cbs c" for c
    using CBS_get_asn1_int64_eq [OF that] by (simp add: dec_int64_def)
  show "length (der_int (sint v)) < 2 ^ 32" for v :: u64
    using length_der_int64 [of v] by simp
qed (simp add: dec_int64_iff)

definition enc_bool :: "int \<Rightarrow> bytes" where
  "enc_bool b = [if b = 0 then 0 else 0xff]"

definition dec_bool :: "bytes \<Rightarrow> int option" where
  "dec_bool bs = (if bs = [0] then Some 0 else if bs = [0xff] then Some 1 else None)"

interpretation asn1_bool: body_codec CBS_get_asn1_bool CBS_ASN1_BOOLEAN dec_bool enc_bool "\<lambda>b. b = 0 \<or> b = 1"
proof
  fix c assume wf: "wf_cbs c"
  show "CBS_get_asn1_bool c = and_then (CBS_get_asn1 c CBS_ASN1_BOOLEAN) (\<lambda>out c. (dec_bool (cbs_bytes out), c))"
    unfolding CBS_get_asn1_bool_def
  proof (rule and_then_cong)
    fix out c' assume "CBS_get_asn1 c CBS_ASN1_BOOLEAN = (Some out, c')"
    then have wfo: "wf_cbs out" using CBS_get_asn1_sound [OF wf] by blast
    have "cbs_bytes out = [x] \<longleftrightarrow> cbs_len out = 1 \<and> cbs_data out ! 0 = x" for x
      using length_cbs_bytes [OF wfo] nth_data [of 0 out] by (cases "cbs_bytes out") auto
    then show "(if CBS_len out \<noteq> 1 then (None, c') else let v = CBS_data out ! 0
            in if v \<noteq> 0 \<and> v \<noteq> 0xff then (None, c') else (Some (if v \<noteq> 0 then 1 else 0), c')) =
      (dec_bool (cbs_bytes out), c')"
      by (simp add: CBS_len_def CBS_data_def dec_bool_def Let_def)
  qed simp
qed (auto simp: dec_bool_def enc_bool_def)

section \<open>Optional elements and bit strings\<close>

lemma peek_iff:
  assumes "wf_cbs c"
  shows "CBS_peek_asn1_tag c t \<longleftrightarrow> (\<exists>rest. cbs_bytes c = der_tag t @ rest)"
proof -
  have "CBS_peek_asn1_tag c t \<longleftrightarrow> fst (parse_asn1_tag c) = Some t"
    by (auto simp: CBS_peek_asn1_tag_def CBS_len_def parse_asn1_tag_eq split: prod.splits option.splits)
  also have "\<dots> \<longleftrightarrow> (\<exists>rest. cbs_bytes c = der_tag t @ rest)"
  proof
    assume "fst (parse_asn1_tag c) = Some t"
    then have "parse_asn1_tag c = (Some t, snd (parse_asn1_tag c))" by (metis prod.collapse)
    from parse_asn1_tag_sound [OF assms this] show "\<exists>rest. cbs_bytes c = der_tag t @ rest" by blast
  next
    assume "\<exists>rest. cbs_bytes c = der_tag t @ rest"
    then show "fst (parse_asn1_tag c) = Some t" using parse_asn1_tag_complete [OF assms] by auto
  qed
  finally show ?thesis .
qed

lemma bit_mod_exp:
  fixes w :: "'a::len word"
  assumes "unat w mod 2 ^ n = 0" and "bit w k"
  shows "n \<le> k"
proof (rule ccontr)
  assume "\<not> n \<le> k"
  then have "(2::nat) ^ Suc k dvd 2 ^ n" by (intro le_imp_power_dvd) simp
  then have "2 ^ Suc k dvd unat w" using assms(1) by (meson dvd_trans mod_0_imp_dvd)
  then have "even (unat w div 2 ^ k)" by (auto elim!: dvdE)
  then show False using assms(2) unfolding bit_unat by simp
qed

lemma bitstring_valid_iff:
  assumes wf: "wf_cbs c"
  shows "CBS_is_valid_asn1_bitstring c \<longleftrightarrow>
    (\<exists>u bs. cbs_bytes c = u # bs \<and> unat u \<le> 7 \<and> (u \<noteq> 0 \<longrightarrow> bs \<noteq> [] \<and> unat (last bs) mod 2 ^ unat u = 0))"
proof (cases "cbs_bytes c")
  case Nil
  then have "cbs_len c = 0" using wf length_cbs_bytes [of c] by simp
  then show ?thesis using Nil by (simp add: CBS_is_valid_asn1_bitstring_def CBS_get_u8_advance)
next
  case (Cons u bs)
  have len: "cbs_len c = Suc (length bs)" using Cons wf length_cbs_bytes [of c] by simp
  have u8: "CBS_get_u8 c = (Some u, advance c 1)" using Cons len by (simp add: CBS_get_u8_advance nth_data)
  have wf1: "wf_cbs (advance c 1)" and b1: "cbs_bytes (advance c 1) = bs" and l1: "cbs_len (advance c 1) = length bs"
    using wf Cons len by simp_all
  have last: "CBS_get_last_u8 (advance c 1) = (if bs = [] then (None, advance c 1)
      else (Some (last bs), (advance c 1)\<lparr>cbs_len := length bs - 1\<rparr>))"
    using nth_data [of "length bs - 1" "advance c 1"] b1 l1 
    by (auto simp: CBS_get_last_u8_def last_conv_nth simp del: bytes_advance advance_sel)
  have gt: "u > 7 \<longleftrightarrow> \<not> unat u \<le> 7" by (simp add: word_less_nat_alt not_le)
  have m: "((ucast b :: u32) AND (2 ^ unat u - 1) = 0) \<longleftrightarrow> 2 ^ unat u dvd unat b" for b :: u8
  proof -
    have "unat ((ucast b :: u32) AND (2 ^ unat u - 1)) = unat b mod 2 ^ unat u"
      by (simp only: take_mask unat_take mask_eq_exp_minus_1 [symmetric]) (simp add: unat_ucast_up)
    then show ?thesis by (simp add: word_unat_eq_iff mod_eq_0_iff_dvd)
  qed
  show ?thesis unfolding CBS_is_valid_asn1_bitstring_def u8 prod.case option.case gt last
    by (auto simp: Cons m)
qed

lemma has_bit_iff:
  assumes wf: "wf_cbs c"
  shows "CBS_asn1_bitstring_has_bit c i \<longleftrightarrow>
    CBS_is_valid_asn1_bitstring c \<and> unat i div 8 + 1 < length (cbs_bytes c) \<and>
    bit (cbs_bytes c ! (unat i div 8 + 1)) (7 - unat i mod 8)"
proof -
  have lt: "unat i < 2 ^ 32" using unsigned_less [of i, where ?'a = nat] by simp
  have byte: "unat (drop_bit 3 i + 1) = unat i div 8 + 1"
  proof -
    have "drop_bit 3 i + 1 = of_nat (unat i div 8 + 1)"
      using arg_cong [OF unat_drop [of 3 i], of "of_nat :: nat \<Rightarrow> u32"] by simp
    then show ?thesis using lt by (simp only: unat_of_nat) simp
  qed
  have "unat (i AND 7) = unat i mod 8" using unat_take [of 3 i] by (simp add: mask_eq_exp_minus_1 flip: take_mask)
  then have bitn: "unat (7 - (i AND 7)) = 7 - unat i mod 8"
  proof -
    assume "unat (i AND 7) = unat i mod 8"
    moreover have "unat i mod 8 \<le> 7" by simp
    ultimately show ?thesis by (subst unat_sub) (simp_all only: word_le_nat_alt, simp_all)
  qed
  have b: "(ucast x :: u32) AND 2 ^ k = 0 \<longleftrightarrow> \<not> bit x k" if "k < 8" for x :: u8 and k
    using that and_exp_eq_0_iff_not_bit [of "ucast x :: u32" k] by (simp add: bit_simps)
  show ?thesis
    unfolding CBS_asn1_bitstring_has_bit_def Let_def byte bitn CBS_len_def CBS_data_def
    using wf by (auto simp: b nth_data)
qed

lemma has_bit_in_range:
  assumes wf: "wf_cbs c" and has: "CBS_asn1_bitstring_has_bit c i"
  shows "unat i + unat (hd (cbs_bytes c)) < 8 * (length (cbs_bytes c) - 1)"
proof -
  from has obtain u bs where bs: "cbs_bytes c = u # bs" and u7: "unat u \<le> 7"
    and last: "u \<noteq> 0 \<Longrightarrow> unat (last bs) mod 2 ^ unat u = 0"
    by (auto simp: has_bit_iff [OF wf] bitstring_valid_iff [OF wf])
  let ?j = "unat i div 8" and ?k = "7 - unat i mod 8"
  have j: "?j < length bs" and b: "bit (bs ! ?j) ?k"
    using has by (simp_all add: has_bit_iff [OF wf] bs)
  have "?j = length bs - 1 \<Longrightarrow> unat u \<le> ?k"
  proof (cases "u = 0")
    case False
    assume "?j = length bs - 1"
    then have "bs ! ?j = last bs" using j by (cases bs) (auto simp: last_conv_nth)
    then show ?thesis using bit_mod_exp [OF last [OF False], of ?k] b by simp
  qed simp
  moreover have "unat i = 8 * ?j + unat i mod 8" by simp
  moreover have "unat i mod 8 \<le> 7" by simp
  ultimately have "unat i + unat u < 8 * length bs" using j u7 by linarith
  then show ?thesis by (simp add: bs)
qed

end
