(* ===== verification/CBB_ASN1.thy ===== *)
theory CBB_ASN1
  imports CBB ASN1_Values
begin

text \<open>
  The ASN.1 half of \<open>cbb.c\<close>: elements, INTEGER, OCTET STRING and BOOLEAN.
  A C block that declares a \<open>CBB child\<close> for a nested element works at depth \<open>d + 1\<close>. The loops
  that write one byte per round are \<open>add_u8s\<close> over the bytes in the order written.
\<close>

unbundle bit_operations_syntax

fun add_u8s :: "mem_env \<Rightarrow> nat \<Rightarrow> bytes \<Rightarrow> cbb_state \<Rightarrow> (unit, cbb_state) outcome" where
  "add_u8s env d [] s = (Some (), s)"
| "add_u8s env d (b # bs) s = and_then (CBB_add_u8 env d b s) (\<lambda>_ s. add_u8s env d bs s)"

section \<open>Elements\<close>

text \<open>The first loop of \<open>add_base128_integer\<close> counts the digits of \<open>copy\<close>.\<close>

function base128_digits :: "u64 \<Rightarrow> nat" where
  "base128_digits copy = (if copy > 0 then Suc (base128_digits (drop_bit 7 copy)) else 0)"
  by pat_completeness auto
termination
proof (relation "measure unat")
  fix copy :: u64
  assume "copy > 0"
  then have "0 < unat copy" by (simp add: word_less_nat_alt)
  then have "unat copy div 2 ^ 7 < unat copy" by (intro div_less_dividend) simp_all
  then show "(drop_bit 7 copy, copy) \<in> measure unat" by (simp add: unat_drop)
qed simp

declare base128_digits.simps [simp del]

definition base128_byte :: "u64 \<Rightarrow> nat \<Rightarrow> u8" where
  "base128_byte v i =
     (let byte = ucast (drop_bit (7 * i) v) AND 0x7f in if i \<noteq> 0 then byte OR 0x80 else byte)"

definition add_base128_integer :: "mem_env \<Rightarrow> nat \<Rightarrow> u64 \<Rightarrow> cbb_state \<Rightarrow> (unit, cbb_state) outcome" where
  "add_base128_integer env d v s =
     (let len_len = base128_digits v; len_len = (if len_len = 0 then 1 else len_len)
      in add_u8s env d (map (base128_byte v) (rev [0..<len_len])) s)"

definition CBB_add_asn1 :: "mem_env \<Rightarrow> nat \<Rightarrow> u32 \<Rightarrow> cbb_state \<Rightarrow> (unit, cbb_state) outcome" where
  "CBB_add_asn1 env d tag s =
     and_then (CBB_flush env d s) (\<lambda>_ s.
     let tag_bits = (ucast (drop_bit CBS_ASN1_TAG_SHIFT tag AND 0xe0) :: u8);
         tag_number = tag AND CBS_ASN1_TAG_NUMBER_MASK
     in and_then
       (if tag_number \<ge> 0x1f
        then and_then (CBB_add_u8 env d (tag_bits OR 0x1f) s) (\<lambda>_ s. add_base128_integer env d (ucast tag_number) s)
        else CBB_add_u8 env d (ucast (ucast tag_bits OR tag_number)) s) (\<lambda>_ s.
     let off = base_len s
     in and_then (CBB_add_u8 env d 0 s) (\<lambda>_ s. (Some (), add_child d off 1 True s))))"

section \<open>INTEGER, OCTET STRING and BOOLEAN\<close>

text \<open>The loop of \<open>CBB_add_asn1_uint64\<close> over the bytes of \<open>value\<close>, first the most significant.\<close>

fun add_uint64_loop :: "mem_env \<Rightarrow> nat \<Rightarrow> bytes \<Rightarrow> bool \<Rightarrow> cbb_state \<Rightarrow> (unit, cbb_state) outcome" where
  "add_uint64_loop env d [] started s = (if \<not> started then CBB_add_u8 env d 0 s else (Some (), s))"
| "add_uint64_loop env d (byte # bytes) started s =
     (if \<not> started \<and> byte = 0 then add_uint64_loop env d bytes False s
      else and_then (if \<not> started \<and> byte AND 0x80 \<noteq> 0 then CBB_add_u8 env d 0 s else (Some (), s)) (\<lambda>_ s.
           and_then (CBB_add_u8 env d byte s) (\<lambda>_ s. add_uint64_loop env d bytes True s)))"

definition CBB_add_asn1_uint64 :: "mem_env \<Rightarrow> nat \<Rightarrow> u64 \<Rightarrow> cbb_state \<Rightarrow> (unit, cbb_state) outcome" where
  "CBB_add_asn1_uint64 env d v s =
     and_then (CBB_add_asn1 env d CBS_ASN1_INTEGER s) (\<lambda>_ s.
     and_then (add_uint64_loop env (Suc d)
         (map (\<lambda>i. ucast (drop_bit (8 * (7 - i)) v AND 0xff)) [0..<8]) False s) (\<lambda>_ s.
     CBB_flush env d s))"

text \<open>The union of \<open>CBB_add_asn1_int64\<close> on a little-endian machine, and its \<open>while\<close> loop.\<close>

definition int64_bytes :: "u64 \<Rightarrow> bytes" where
  "int64_bytes v = map (\<lambda>i. ucast (drop_bit (8 * i) v)) [0..<8]"

fun int64_start :: "bytes \<Rightarrow> nat \<Rightarrow> nat" where
  "int64_start u 0 = 0"
| "int64_start u (Suc n) = (if u ! Suc n = 0xff \<and> u ! n AND 0x80 \<noteq> 0 then int64_start u n else Suc n)"

definition CBB_add_asn1_int64 :: "mem_env \<Rightarrow> nat \<Rightarrow> u64 \<Rightarrow> cbb_state \<Rightarrow> (unit, cbb_state) outcome" where
  "CBB_add_asn1_int64 env d v s =
     (if 0 \<le> sint v then CBB_add_asn1_uint64 env d v s
      else let u = int64_bytes v; start = int64_start u 7
      in and_then (CBB_add_asn1 env d CBS_ASN1_INTEGER s) (\<lambda>_ s.
         and_then (add_u8s env (Suc d) (map ((!) u) (rev [0..<Suc start])) s) (\<lambda>_ s.
         CBB_flush env d s)))"

definition CBB_add_asn1_octet_string :: "mem_env \<Rightarrow> nat \<Rightarrow> bytes \<Rightarrow> nat \<Rightarrow> cbb_state \<Rightarrow> (unit, cbb_state) outcome" where
  "CBB_add_asn1_octet_string env d data n s =
     and_then (CBB_add_asn1 env d CBS_ASN1_OCTETSTRING s) (\<lambda>_ s.
     and_then (CBB_add_bytes env (Suc d) data n s) (\<lambda>_ s.
     CBB_flush env d s))"

definition CBB_add_asn1_bool :: "mem_env \<Rightarrow> nat \<Rightarrow> int \<Rightarrow> cbb_state \<Rightarrow> (unit, cbb_state) outcome" where
  "CBB_add_asn1_bool env d v s =
     and_then (CBB_add_asn1 env d CBS_ASN1_BOOLEAN s) (\<lambda>_ s.
     and_then (CBB_add_u8 env (Suc d) (if v \<noteq> 0 then 0xff else 0) s) (\<lambda>_ s.
     CBB_flush env d s))"

end
