(* ===== verification/CBB_Calls.thy ===== *)
theory CBB_Calls
  imports CBB_Spec CBB_ASN1
begin

text \<open>
  The public calls of \<open>cbb.c\<close> meet the contract \<open>builder_call\<close>: each does to the abstract levels
  what its name says, records its failures and succeeds when the result fits the buffer.
\<close>

section \<open>Integers, bytes and children\<close>

lemma overwrite:
  assumes "p + length xs \<le> length m"
  shows "length (take p m @ xs @ drop (p + length xs) m) = length m"
    "take p (take p m @ xs @ drop (p + length xs) m) = take p m"
    "take (length xs) (drop p (take p m @ xs @ drop (p + length xs) m)) = xs"
  using assms by simp_all

lemma uint_appender:
  assumes "1 \<le> n" and "n \<le> 8"
  shows "appender (\<lambda>b. cbb_buffer_add_u env b v n) (if unat v < 256 ^ n then Some (be_bytes n (unat v)) else None)"
proof
  have n63: "n < PTRDIFF_LIMIT" using assms(2) by (simp add: PTRDIFF_LIMIT_def)
  have dz: "drop_bit (8 * n) v = 0 \<longleftrightarrow> unat v < 256 ^ n"
    using drop_bit_of_nat_zero [of "unat v" n] unsigned_less [of v, where ?'a = nat] by simp
  fix b r b' assume b: "wf_buffer b" "\<not> error b" and g: "cbb_buffer_add_u env b v n = (r, b')"
  obtain a b1 where add: "cbb_buffer_add env b n = (a, b1)" by fastforce
  note ok = add_ok [OF b(1) n63 add]
  show "wf_buffer b' \<and> extends b b' \<and> take (blen b) (buf b') = take (blen b) (buf b) \<and> blen b \<le> blen b' \<and>
      (case r of None \<Rightarrow> error b'
       | Some _ \<Rightarrow> \<not> error b' \<and> (\<exists>x. (if unat v < 256 ^ n then Some (be_bytes n (unat v)) else None) = Some x \<and>
           blen b' = blen b + length x \<and> seg b' (blen b) (blen b') = x))"
  proof (cases a)
    case None
    then show ?thesis using g ok add assms(1) by (auto simp: cbb_buffer_add_u_def)
  next
    case (Some p)
    then have p: "p = blen b" "blen b1 = blen b + n" "\<not> error b1" and w: "wf_buffer b1" "extends b b1"
      "take (blen b) (buf b1) = take (blen b) (buf b)" using ok b(2) by simp_all
    have le: "blen b + n \<le> length (buf b1)" using w p by (simp add: wf_buffer_def)
    define m where "m = take (blen b) (buf b1) @ be_bytes n (unat v) @ drop (blen b + n) (buf b1)"
    have st: "store_be (buf b1) (blen b) n v = (m, drop_bit (8 * n) v)"
      unfolding m_def by (rule store_be_eq [OF le])
    have m: "length m = length (buf b1)" "take (blen b) m = take (blen b) (buf b)"
      "take n (drop (blen b) m) = be_bytes n (unat v)"
      using overwrite [of "blen b" "be_bytes n (unat v)" "buf b1"] le w(3) by (simp_all add: m_def)
    have "cbb_buffer_add_u env b v n = (if unat v < 256 ^ n then (Some (), b1\<lparr>buf := m\<rparr>) else (None, b1\<lparr>buf := m, error := True\<rparr>))"
      using assms(1) add Some p by (simp add: cbb_buffer_add_u_def st dz)
    then show ?thesis using g w p m by (auto simp: wf_buffer_def extends_def seg_def split: if_splits)
  qed
next
  fix b x assume b: "wf_buffer b" "\<not> error b" and x: "(if unat v < 256 ^ n then Some (be_bytes n (unat v)) else None) = Some x"
    and fit: "blen b + length x \<le> cap b"
  then have lt: "unat v < 256 ^ n" and "blen b + n \<le> cap b" by (auto split: if_splits)
  then have add: "cbb_buffer_add env b n = (Some (blen b), b\<lparr>blen := blen b + n\<rparr>)" by (intro add_room [OF b(1)])
  have "snd (store_be (buf b) (blen b) n v) = drop_bit (8 * n) v"
    using b(1) \<open>blen b + n \<le> cap b\<close> by (subst store_be_eq) (simp_all add: wf_buffer_def)
  moreover have "drop_bit (8 * n) v = 0"
    using drop_bit_of_nat_zero [of "unat v" n] unsigned_less [of v, where ?'a = nat] lt by simp
  ultimately show "fst (cbb_buffer_add_u env b v n) = Some ()"
    using assms(1) by (auto simp: cbb_buffer_add_u_def add split: prod.split)
qed

lemma bytes_appender:
  assumes "length data < PTRDIFF_LIMIT"
  shows "appender (\<lambda>b. and_then (cbb_buffer_add env b (length data)) (\<lambda>dest base.
         (Some (), base\<lparr>buf := take dest (buf base) @ take (length data) data @ drop (dest + length data) (buf base)\<rparr>)))
      (Some data)"
    (is "appender ?g _")
proof
  let ?n = "length data"
  fix b r b' assume b: "wf_buffer b" "\<not> error b" and g: "?g b = (r, b')"
  obtain a b1 where add: "cbb_buffer_add env b ?n = (a, b1)" by fastforce
  note ok = add_ok [OF b(1) assms add]
  show "wf_buffer b' \<and> extends b b' \<and> take (blen b) (buf b') = take (blen b) (buf b) \<and> blen b \<le> blen b' \<and>
      (case r of None \<Rightarrow> error b'
       | Some _ \<Rightarrow> \<not> error b' \<and> (\<exists>x. Some data = Some x \<and> blen b' = blen b + length x \<and> seg b' (blen b) (blen b') = x))"
  proof (cases a)
    case None
    then show ?thesis using g ok add by auto
  next
    case (Some p)
    then have p: "p = blen b" "blen b1 = blen b + ?n" "\<not> error b1" and w: "wf_buffer b1" "extends b b1"
      "take (blen b) (buf b1) = take (blen b) (buf b)" using ok b(2) by simp_all
    define m where "m = take (blen b) (buf b1) @ data @ drop (blen b + ?n) (buf b1)"
    have "blen b + ?n \<le> length (buf b1)" using w p by (simp add: wf_buffer_def)
    from overwrite [OF this] w(3) have m: "length m = length (buf b1)" "take (blen b) m = take (blen b) (buf b)"
      "take ?n (drop (blen b) m) = data" by (simp_all add: m_def)
    have "r = Some ()" "b' = b1\<lparr>buf := m\<rparr>" using g add Some p by (simp_all add: m_def)
    then show ?thesis using p w m by (simp add: wf_buffer_def extends_def seg_def)
  qed
next
  fix b x assume b: "wf_buffer b" "\<not> error b" "Some data = Some x" "blen b + length x \<le> cap b"
  then show "fst (?g b) = Some ()" by (simp add: add_room)
qed

interpretation u8: appender env d "\<lambda>b. cbb_buffer_add_u env b (ucast (v :: u8)) 1" "Some [v]" for env d v
proof -
  have "be_bytes (Suc 0) (unat v) = [v]" "unat (ucast v :: u64) = unat v" by (simp_all add: unat_ucast_up)
  then show "appender (\<lambda>b. cbb_buffer_add_u env b (ucast v) 1) (Some [v])"
    using uint_appender [of 1 env "ucast v"] unat_u8_less [of v] by simp
qed

context appender begin

lemma is_call: "builder_call (\<lambda>s. and_then (CBB_flush env d s) (\<lambda>_. on_base g)) (append_option d bs) d"
  by (rule call.builder_call_axioms)

end

lemma u8_call: "builder_call (CBB_add_u8 env d v) (append_option d (Some [v])) d"
  using u8.call.builder_call_axioms [of env d v] by (simp add: CBB_add_u8_def [abs_def] CBB_add_uint_def [abs_def])

lemma bytes_call:
  assumes "length data < PTRDIFF_LIMIT"
  shows "builder_call (CBB_add_bytes env d data (length data)) (append_option d (Some data)) d"
  using appender.is_call [OF bytes_appender [OF assms, of env], of env d]
  by (simp add: CBB_add_bytes_def [abs_def])

text \<open>Calls in sequence: the second may work at another depth, which the first must provide.\<close>

lemma call_sequence:
  assumes c1: "builder_call c1 sp1 d" and c2: "builder_call c2 sp2 d2"
    and depth: "\<And>ls ls'. sp1 ls = Some ls' \<Longrightarrow> d2 < length ls'"
  shows "builder_call (\<lambda>s. and_then (c1 s) (\<lambda>_. c2)) (\<lambda>ls. Option.bind (sp1 ls) sp2) d"
proof
  fix s s' assume s: "wf_cbb s" "d < length (cbb_frames s)" and c: "and_then (c1 s) (\<lambda>_. c2) = (Some (), s')"
  then obtain s1 where s1: "c1 s = (Some (), s1)" and c': "c2 s1 = (Some (), s')" by (auto simp: and_then_Some)
  note r1 = builder_call.refines [OF c1 s s1]
  have "d2 < length (cbb_frames s1)" using depth [of "cbb_abs s" "cbb_abs s1"] r1 frames_wf [of s1] by simp
  with builder_call.refines [OF c2 _ _ c'] r1 cbb_extends_trans [of s s1 s']
  show "wf_cbb s' \<and> \<not> cbb_failed s' \<and> cbb_extends s s' \<and> Option.bind (sp1 (cbb_abs s)) sp2 = Some (cbb_abs s')"
    by simp
next
  fix s s' assume s: "wf_cbb s" "d < length (cbb_frames s)" and c: "and_then (c1 s) (\<lambda>_. c2) = (None, s')"
  show "wf_cbb s' \<and> cbb_failed s' \<and> cbb_extends s s'"
  proof (cases "c1 s = (None, s')")
    case True
    then show ?thesis by (rule builder_call.fails [OF c1 s])
  next
    case False
    then obtain s1 where s1: "c1 s = (Some (), s1)" and c': "c2 s1 = (None, s')" using c by (auto simp: and_then_None)
    note r1 = builder_call.refines [OF c1 s s1]
    have "d2 < length (cbb_frames s1)" using depth [of "cbb_abs s" "cbb_abs s1"] r1 frames_wf [of s1] by simp
    with builder_call.fails [OF c2 _ _ c'] r1 cbb_extends_trans [of s s1 s'] show ?thesis by simp
  qed
next
  show "cbb_failed s \<Longrightarrow> and_then (c1 s) (\<lambda>_. c2) = (None, s)" for s
    by (simp add: builder_call.sticks [OF c1])
next
  fix s ls assume s: "wf_cbb s" "d < length (cbb_frames s)" "\<not> cbb_failed s"
    and ls: "Option.bind (sp1 (cbb_abs s)) sp2 = Some ls" "level_size ls \<le> cbb_cap s"
  then obtain l1 where l1: "sp1 (cbb_abs s) = Some l1" "sp2 l1 = Some ls" by (auto simp: bind_eq_Some_conv)
  have "fst (c1 s) = Some ()"
    using builder_call.fits [OF c1 s l1(1)] builder_call.grows [OF c2 l1(2)] ls(2) by simp
  then obtain s1 where s1: "c1 s = (Some (), s1)" by (metis prod.collapse)
  note r1 = builder_call.refines [OF c1 s(1,2) s1]
  have "d2 < length (cbb_frames s1)" using depth [OF l1(1)] l1(1) r1 frames_wf [of s1] by simp
  then have "fst (c2 s1) = Some ()"
    using builder_call.fits [OF c2, of s1 ls] r1 l1 ls(2) cbb_extends_cap [of s s1] by simp
  then show "fst (and_then (c1 s) (\<lambda>_. c2)) = Some ()" by (simp add: s1)
next
  fix ls ls' assume "Option.bind (sp1 ls) sp2 = Some ls'"
  then show "level_size ls \<le> level_size ls'"
    using builder_call.grows [OF c1] builder_call.grows [OF c2] by (fastforce simp: bind_eq_Some_conv)
qed

text \<open>A call that agrees with one of the contract wherever the contract speaks.\<close>

lemma call_cong:
  assumes c: "builder_call c sp d"
    and same: "\<And>s. cbb_failed s \<or> wf_cbb s \<and> d < length (cbb_frames s) \<Longrightarrow> c' s = c s" and sp: "\<And>ls. sp' ls = sp ls"
  shows "builder_call c' sp' d"
proof
  fix s s' assume s: "wf_cbb s" "d < length (cbb_frames s)"
  then have eq: "c' s = c s" by (intro same) simp
  show "c' s = (Some (), s') \<Longrightarrow> wf_cbb s' \<and> \<not> cbb_failed s' \<and> cbb_extends s s' \<and> sp' (cbb_abs s) = Some (cbb_abs s')"
    unfolding eq sp by (rule builder_call.refines [OF c s])
  show "c' s = (None, s') \<Longrightarrow> wf_cbb s' \<and> cbb_failed s' \<and> cbb_extends s s'"
    unfolding eq by (rule builder_call.fails [OF c s])
  show "\<not> cbb_failed s \<Longrightarrow> sp' (cbb_abs s) = Some ls \<Longrightarrow> level_size ls \<le> cbb_cap s \<Longrightarrow> fst (c' s) = Some ()" for ls
    unfolding eq sp by (rule builder_call.fits [OF c s])
next
  fix s assume f: "cbb_failed s"
  then show "c' s = (None, s)" using same builder_call.sticks [OF c f] by simp
next
  show "sp' ls = Some ls' \<Longrightarrow> level_size ls \<le> level_size ls'" for ls ls'
    unfolding sp by (rule builder_call.grows [OF c])
qed

text \<open>Opening a child: a placeholder of \<open>n\<close> zero bytes and a new level.\<close>

lemma open_levels_size:
  assumes "open_levels d k ls = Some ls'"
  shows "\<exists>ls1. flush_levels d ls = Some ls1 \<and> level_size ls' = level_size ls1 + header_room k"
proof -
  obtain c where c: "collapse (drop d ls) = Some c" and ls': "ls' = (take d ls @ [(fst (ls ! d), c)]) @ [(k, [])]"
    using assms by (auto simp: open_levels_def flush_levels_def)
  have "level_size (us @ [(k0, c), (k, [])]) = level_size (us @ [(k0, c)]) + header_room k" for us k0
    using level_size_append [of "[(k0, c), (k, [])]" us] level_size_append [of "[(k0, c)]" us] by simp
  then show ?thesis using c ls' by (simp add: flush_levels_def)
qed

lemma open_step:
  assumes s: "wf_cbb s" "length (cbb_frames s) = Suc d" "\<not> cbb_failed s"
    and n: "1 \<le> n" "n \<le> 8" "asn1 \<Longrightarrow> n = 1"
    and g: "appender g (Some x)" "length x = n" and r: "on_base g s = (Some u, s1)"
  defines "s' \<equiv> add_child d (base_len s) n asn1 s1"
  shows "wf_cbb s' \<and> \<not> cbb_failed s' \<and> cbb_extends s s' \<and>
    open_levels d (if asn1 then Element else Prefixed n) (cbb_abs s) = Some (cbb_abs s')"
proof -
  have d: "d < length (cbb_frames s)" using s(2) by simp
  from wf_cbb_at [OF s(1) d] obtain b f us ls where
    st: "cbb_base s = Some b" "cbb_frames s = f # us @ ls" "length us = d"
    and td: "take (Suc d) (cbb_frames s) = f # us" and "drop (Suc d) (cbb_frames s) = ls"
    and f: "offset f = 0" "pending_len_len f = 0" "\<not> is_child f"
    and w: "wf_buffer b" "chain_up 0 us" "chain_ok b (start_of 0 us) ls"
    and abs: "cbb_abs s = upper b 0 Root us @ levels_from b (start_of 0 us) (kind_at Root us) ls" by blast
  let ?p = "start_of 0 us" and ?k = "kind_at Root us"
  have ls: "ls = []" using st s(2) by simp
  have e: "\<not> error b" using s(3) st(1) by (simp add: cbb_failed_def)
  obtain b' where g': "g b = (Some u, b')" and s1: "s1 = s\<lparr>cbb_base := Some b'\<rparr>"
    using r by (auto simp: on_base_def st(1) split: prod.splits)
  from appender.app [OF g(1) w(1) e g'] g(2)
  have b': "wf_buffer b'" "extends b b'" "take (blen b) (buf b') = take (blen b) (buf b)" "\<not> error b'" "blen b' = blen b + n"
    by auto
  define c where "c = \<lparr>offset = blen b, pending_len_len = n, pending_is_asn1 = asn1, is_child = True\<rparr>"
  have s': "s' = \<lparr>cbb_base = Some b', cbb_frames = f # us @ [c]\<rparr>"
    using td by (simp add: s'_def s1 add_child_def base_len_def st(1) c_def)
  have pb: "?p \<le> blen b" using w(3) ls by simp
  have "chain_ok b' ?p [c]" using pb n b'(5) by (simp add: c_def)
  then have wf: "wf_cbb s'" unfolding s' using b'(1) w(2) f by (intro wf_cbbI)
  have up: "upper b 0 Root us = upper b' 0 Root us"
    by (rule upper_same [OF w(2)], rule take_prefix_eq [OF pb], rule b'(3) [symmetric])
  have "cbb_abs s' = upper b 0 Root us @ [(?k, seg b ?p (blen b)), (kind_of c, [])]"
    using seg_take [OF b'(3), of ?p] b'(5) up
    by (simp add: cbb_abs_def s' levels_append, simp add: c_def seg_def)
  moreover have "kind_of c = (if asn1 then Element else Prefixed n)" by (simp add: kind_of_def c_def)
  moreover have "open_levels d k (cbb_abs s) = Some (upper b 0 Root us @ [(?k, seg b ?p (blen b)), (k, [])])" for k
    using st(3) by (simp add: abs ls open_levels_def flush_levels_def nth_append)
  ultimately show ?thesis using wf b' st(1) by (simp add: s' cbb_failed_def cbb_extends_def)
qed

lemma zeros_appender:
  assumes "1 \<le> n" and "n \<le> 8"
  shows "appender (\<lambda>b. and_then (cbb_buffer_add env b n) (\<lambda>p base. (Some (), base\<lparr>buf :=
         take p (buf base) @ replicate n 0 @ drop (p + n) (buf base)\<rparr>))) (Some (replicate n 0))"
  using bytes_appender [of "replicate n 0" env] assms by (simp add: PTRDIFF_LIMIT_def)

text \<open>The steps that open a child, after the flush: append \<open>x\<close>, then add the child.\<close>

lemma open_call:
  assumes n: "1 \<le> n" "n \<le> 8" "asn1 \<Longrightarrow> n = 1" and g: "appender g (Some x)" "length x = n"
  shows "builder_call (\<lambda>s. and_then (CBB_flush env d s) (\<lambda>_ s. and_then (on_base g s) (\<lambda>_ t.
      (Some (), add_child d (base_len s) n asn1 t)))) (open_levels d (if asn1 then Element else Prefixed n)) d"
    (is "builder_call ?c (open_levels d ?k) d")
proof
  note ap = appender.is_call [OF g(1), of env d]
  have hr: "header_room ?k = n" using n by simp
  fix s s' assume s: "wf_cbb s" "d < length (cbb_frames s)"
  {
    assume "?c s = (Some (), s')"
    then obtain s0 u t where s0: "CBB_flush env d s = (Some (), s0)" and t: "on_base g s0 = (Some u, t)"
      and s': "s' = add_child d (base_len s0) n asn1 t" by (auto simp: and_then_Some)
    note f = flush.refines [OF s s0]
    have "open_levels d ?k (cbb_abs s) = open_levels d ?k (cbb_abs s0)"
      using f flush_levels_idem [of d "cbb_abs s" "cbb_abs s0"] by (simp add: open_levels_def)
    with open_step [OF _ flushed_frames [OF s s0] _ n g t] f cbb_extends_trans [of s s0 s']
    show "wf_cbb s' \<and> \<not> cbb_failed s' \<and> cbb_extends s s' \<and> open_levels d ?k (cbb_abs s) = Some (cbb_abs s')"
      by (simp add: s')
  next
    assume "?c s = (None, s')"
    then have "and_then (CBB_flush env d s) (\<lambda>_. on_base g) = (None, s')"
      by (auto simp: and_then_None)
    then show "wf_cbb s' \<and> cbb_failed s' \<and> cbb_extends s s'" by (rule builder_call.fails [OF ap s])
  next
    fix ls assume e: "\<not> cbb_failed s" and ls: "open_levels d ?k (cbb_abs s) = Some ls" "level_size ls \<le> cbb_cap s"
    from open_levels_size [OF ls(1)] hr obtain l1 where l1: "flush_levels d (cbb_abs s) = Some l1" "level_size ls = level_size l1 + n"
      by auto
    then obtain l2 where l2: "append_option d (Some x) (cbb_abs s) = Some l2"
      by (auto simp: append_option_def append_levels_def)
    then have "level_size l2 = level_size ls"
      using append_levels_size [of d x "cbb_abs s" l2] l1 g(2) by (auto simp: append_option_def)
    then have "fst (and_then (CBB_flush env d s) (\<lambda>_. on_base g)) = Some ()"
      using builder_call.fits [OF ap s e l2] ls(2) by simp
    then obtain s1 where "and_then (CBB_flush env d s) (\<lambda>_. on_base g) = (Some (), s1)" by (metis prod.collapse)
    then show "fst (?c s) = Some ()" by (auto simp: and_then_Some)
  }
next
  show "cbb_failed s \<Longrightarrow> ?c s = (None, s)" for s by (simp add: flush.sticks)
next
  fix ls ls' assume "open_levels d ?k ls = Some ls'"
  from open_levels_size [OF this] flush_levels_grows show "level_size ls \<le> level_size ls'" by fastforce
qed

lemma on_base_and_then:
  "on_base (\<lambda>b. and_then (h b) k) s = and_then (on_base h s) (\<lambda>p. on_base (k p))"
proof (cases "cbb_base s")
  case (Some b)
  obtain r b' where "h b = (r, b')" by fastforce
  then show ?thesis using Some by (cases r) (simp_all add: on_base_def split: prod.split)
qed (simp add: on_base_def)

lemma and_then_assoc: "and_then (and_then r k) k' = and_then r (\<lambda>a s. and_then (k a s) k')"
  by (cases "(r, k)" rule: and_then.cases) auto

lemma prefix_call:
  assumes "1 \<le> n" and "n \<le> 8"
  shows "builder_call (cbb_add_length_prefixed env d n) (open_levels d (Prefixed n)) d"
  using open_call [OF assms(1,2) _ zeros_appender [OF assms, of env], of False env d]
  by (simp add: cbb_add_length_prefixed_def [abs_def] Let_def on_base_and_then and_then_assoc)

unbundle bit_operations_syntax

section \<open>Bytes in sequence and elements\<close>

lemma append_append:
  "Option.bind (append_levels d x ls) (append_levels d y) = append_levels d (x @ y) ls"
proof (cases "flush_levels d ls")
  case None
  then show ?thesis by (simp add: append_levels_def)
next
  case (Some ls1)
  then obtain c where "collapse (drop d ls) = Some c" and ls1: "ls1 = take d ls @ [(fst (ls ! d), c)]"
    by (auto simp: flush_levels_def)
  then have "d < length ls" by (intro ccontr [of "d < length ls"]) simp
  then have "length (take d ls) = d" by simp
  then show ?thesis using Some
    by (simp add: append_levels_def ls1) (simp add: flush_levels_def nth_append)
qed

lemma append_length: "append_levels d x ls = Some ls' \<Longrightarrow> length ls' = Suc d"
  using flush_levels_idem by (fastforce simp: append_levels_def)

lemma and_then_return: "and_then r (\<lambda>_ s. (Some (), s)) = r" for r :: "(unit, 's) outcome"
  by (cases "(r, \<lambda>_ :: unit. \<lambda>s :: 's. (Some (), s))" rule: and_then.cases) simp_all

lemma add_u8s_call:
  "bs \<noteq> [] \<Longrightarrow> builder_call (add_u8s env d bs) (append_option d (Some bs)) d"
proof (induction bs)
  case (Cons b bs)
  show ?case
  proof (cases "bs = []")
    case True
    have "add_u8s env d [] = (\<lambda>s. (Some (), s))" by (rule ext) simp
    then have "add_u8s env d [b] = CBB_add_u8 env d b" by (intro ext) (simp add: and_then_return)
    then show ?thesis using u8_call [of env d b] True by (simp del: add_u8s.simps)
  next
    case False
    have "builder_call (\<lambda>s. and_then (CBB_add_u8 env d b s) (\<lambda>_. add_u8s env d bs))
        (\<lambda>ls. Option.bind (append_option d (Some [b]) ls) (append_option d (Some bs))) d"
      by (rule call_sequence [OF u8_call Cons.IH [OF False]]) (simp add: append_option_def append_length)
    moreover have "Option.bind (append_option d (Some [b]) ls) (append_option d (Some bs)) = append_option d (Some (b # bs)) ls" for ls
      using append_append [of d "[b]" ls bs] by (simp add: append_option_def [abs_def])
    moreover have "add_u8s env d (b # bs) = (\<lambda>s. and_then (CBB_add_u8 env d b s) (\<lambda>_. add_u8s env d bs))" by auto
    ultimately show ?thesis by simp
  qed
qed simp

lemma unat_base128_byte:
  "unat (base128_byte v i) = unat v div 128 ^ i mod 128 + (if i = 0 then 0 else 128)"
proof -
  let ?b = "ucast (drop_bit (7 * i) v) AND 0x7f :: u8"
  have "unat (ucast (drop_bit (7 * i) v) :: u8) = unat v div 128 ^ i mod 256"
    by (simp add: unsigned_ucast_eq take_bit_nat_def unat_drop power_mult)
  then have b: "unat ?b = unat v div 128 ^ i mod 128"
    unfolding unat_and_7f by (simp add: mod_mod_cancel)
  have "?b OR 0x80 = push_bit 7 1 OR ?b" by (simp add: or.commute)
  also have "unat \<dots> = unat (1 :: u8) * 2 ^ 7 + unat ?b"
    using b by (intro unat_push_or) simp_all
  finally have "unat (?b OR 0x80) = 128 + unat ?b" by simp
  then show ?thesis using b by (cases "i = 0") (auto simp: base128_byte_def Let_def)
qed

lemma base128_byte_of_nat:
  "base128_byte v i = of_nat (unat v div 128 ^ i mod 128 + (if i = 0 then 0 else 128))"
  unfolding unat_base128_byte [symmetric] by simp

lemma rev_upt_Suc: "rev [0..<Suc m] = map Suc (rev [0..<m]) @ [0]"
proof -
  have "[0..<Suc m] = 0 # map Suc [0..<m]" by (simp add: upt_conv_Cons map_Suc_upt del: upt_Suc)
  then show ?thesis by (simp add: rev_map del: upt_Suc)
qed

lemma word_not_pos: "\<not> 0 < v \<Longrightarrow> v = (0 :: 'a::len word)"
  by (simp add: word_less_nat_alt word_unat_eq_iff)

lemma base128_hi_digits:
  "map (\<lambda>i. of_nat (unat v div 128 ^ i mod 128 + 128)) (rev [0..<base128_digits v]) = base128_hi (unat v)"
proof (induction v rule: base128_digits.induct)
  case (1 v)
  show ?case
  proof (cases "v > 0")
    case True
    have "unat (drop_bit 7 v) = unat v div 128" using unat_drop [of 7 v] by simp
    moreover have "0 < unat v" using True by (simp add: word_less_nat_alt)
    ultimately show ?thesis using 1 [OF True]
      by (simp add: base128_digits.simps [of v] True rev_upt_Suc base128_hi.simps [of "unat v"] div_mult2_eq comp_def del: upt_Suc)
  next
    case False
    then show ?thesis using word_not_pos [of v] by (simp add: base128_digits.simps [of 0])
  qed
qed

lemma base128_bytes:
  "map (base128_byte v) (rev [0..<if base128_digits v = 0 then 1 else base128_digits v]) = base128 (unat v)"
proof (cases "v > 0")
  case True
  have d: "base128_digits v = Suc (base128_digits (drop_bit 7 v))" by (simp add: base128_digits.simps [of v] True)
  have "unat (drop_bit 7 v) = unat v div 128" using unat_drop [of 7 v] by simp
  then have "map (base128_byte v) (map Suc (rev [0..<base128_digits (drop_bit 7 v)])) = base128_hi (unat v div 128)"
    using base128_hi_digits [of "drop_bit 7 v"] by (simp add: base128_byte_of_nat div_mult2_eq comp_def)
  then show ?thesis by (simp add: d rev_upt_Suc base128_def base128_byte_of_nat [of v 0] del: upt_Suc)
next
  case False
  then have "v = 0" by (rule word_not_pos)
  then show ?thesis by (simp add: base128_digits.simps [of 0] base128_def base128_byte_def)
qed

lemma base128_call: "builder_call (add_base128_integer env d v) (append_option d (Some (base128 (unat v)))) d"
proof -
  have "base128 (unat v) \<noteq> []" by (simp add: base128_def)
  moreover have "add_base128_integer env d v = add_u8s env d (base128 (unat v))"
    by (rule ext) (simp only: add_base128_integer_def Let_def base128_bytes)
  ultimately show ?thesis by (simp add: add_u8s_call)
qed

lemma asn1_tag_bytes:
  fixes tag :: u32
  defines "bits \<equiv> ucast (drop_bit CBS_ASN1_TAG_SHIFT tag AND 0xe0) :: u8" and "num \<equiv> tag AND CBS_ASN1_TAG_NUMBER_MASK"
  shows "unat num = unat tag mod 2 ^ 29"
    and "unat n < 32 \<Longrightarrow> unat (bits OR n) = 32 * (unat tag div 2 ^ 29) + unat n"
    and "ucast (ucast bits OR num) = bits OR ucast num"
proof -
  show num: "unat num = unat tag mod 2 ^ 29"
    using unat_take [of 29 tag]
    by (simp add: num_def CBS_ASN1_TAG_NUMBER_MASK_def CBS_ASN1_TAG_SHIFT_def mask_eq_exp_minus_1 flip: take_mask)
  define b where "b = (ucast (drop_bit 24 tag) :: u8)"
  have "unat tag div 2 ^ 24 < 2 ^ 8" using unsigned_less [of tag, where ?'a = nat] by simp
  then have b: "unat b = unat tag div 2 ^ 24"
    by (simp add: b_def unsigned_ucast_eq take_bit_nat_def unat_drop)
  have "bits = b AND 0xe0"
    by (simp add: bits_def b_def CBS_ASN1_TAG_SHIFT_def unsigned_and_eq)
  then have bits: "bits = push_bit 5 (drop_bit 5 b)" by (simp only: and_e0)
  show "unat (bits OR n) = 32 * (unat tag div 2 ^ 29) + unat n" if "unat n < 32"
  proof -
    have d: "unat (drop_bit 5 b) = unat tag div 2 ^ 29"
      using div_mult2_eq [of "unat tag" "2 ^ 24" "2 ^ 5"] by (simp add: unat_drop b)
    then have "unat (drop_bit 5 b) < 8" using unsigned_less [of tag, where ?'a = nat] by simp
    then show ?thesis unfolding bits using that d by (subst unat_push_or) simp_all
  qed
  show "ucast (ucast bits OR num) = bits OR ucast num"
    by (rule bit_word_eqI) (auto simp: bit_simps)
qed

definition asn1_levels :: "nat \<Rightarrow> u32 \<Rightarrow> levels \<Rightarrow> levels option" where
  "asn1_levels d tag ls = Option.bind (append_levels d (der_tag tag) ls) (open_levels d Element)"

text \<open>The identifier octets as \<open>CBB_add_asn1\<close> writes them.\<close>

definition tag_call :: "mem_env \<Rightarrow> nat \<Rightarrow> u32 \<Rightarrow> cbb_state \<Rightarrow> (unit, cbb_state) outcome" where
  "tag_call env d tag s =
     (let tag_bits = (ucast (drop_bit CBS_ASN1_TAG_SHIFT tag AND 0xe0) :: u8);
          tag_number = tag AND CBS_ASN1_TAG_NUMBER_MASK
      in if tag_number \<ge> 0x1f
         then and_then (CBB_add_u8 env d (tag_bits OR 0x1f) s) (\<lambda>_ s. add_base128_integer env d (ucast tag_number) s)
         else CBB_add_u8 env d (ucast (ucast tag_bits OR tag_number)) s)"

lemma tag_call: "builder_call (tag_call env d tag) (append_option d (Some (der_tag tag))) d"
proof -
  define bits where "bits = (ucast (drop_bit CBS_ASN1_TAG_SHIFT tag AND 0xe0) :: u8)"
  define num where "num = tag AND CBS_ASN1_TAG_NUMBER_MASK"
  note t = asn1_tag_bytes [where tag = tag, folded bits_def num_def]
  show ?thesis
  proof (cases "num \<ge> 0x1f")
    case True
    have dt: "der_tag tag = (bits OR 0x1f) # base128 (unat (ucast num :: u64))"
    proof -
      have "bits OR 0x1f = of_nat (unat (bits OR 0x1f))" by simp
      moreover have "31 \<le> unat num" using True by (simp add: word_le_nat_alt)
      ultimately show ?thesis using t(1) t(2) [where n = "0x1f"] by (simp add: der_tag_def Let_def unat_ucast_up)
    qed
    have "builder_call (\<lambda>s. and_then (CBB_add_u8 env d (bits OR 0x1f) s) (\<lambda>_. add_base128_integer env d (ucast num)))
      (\<lambda>ls. Option.bind (append_option d (Some [bits OR 0x1f]) ls) (append_option d (Some (base128 (unat (ucast num :: u64)))))) d"
      by (rule call_sequence [OF u8_call base128_call]) (simp add: append_option_def append_length)
    moreover have "Option.bind (append_option d (Some [bits OR 0x1f]) ls) (append_option d (Some (base128 (unat (ucast num :: u64))))) =
        append_option d (Some (der_tag tag)) ls" for ls
      using append_append [of d "[bits OR 0x1f]" ls] by (simp add: append_option_def [abs_def] dt)
    moreover have "tag_call env d tag = (\<lambda>s. and_then (CBB_add_u8 env d (bits OR 0x1f) s) (\<lambda>_. add_base128_integer env d (ucast num)))"
      using True by (intro ext) (simp add: tag_call_def Let_def bits_def num_def)
    ultimately show ?thesis by simp
  next
    case False
    then have lt: "unat num < 31" by (simp add: word_le_nat_alt)
    then have u: "unat (ucast num :: u8) = unat num" by (simp add: unsigned_ucast_eq take_bit_nat_def)
    have dt: "der_tag tag = [bits OR ucast num]"
    proof -
      have "bits OR ucast num = of_nat (unat (bits OR ucast num))" by simp
      also have "unat (bits OR ucast num) = 32 * (unat tag div 2 ^ 29) + unat num" using t(2) [where n = "ucast num"] lt u by simp
      finally show ?thesis using lt t(1) by (simp add: der_tag_def Let_def)
    qed
    have "tag_call env d tag = CBB_add_u8 env d (bits OR ucast num)"
      using False t(3) by (intro ext) (simp add: tag_call_def Let_def bits_def num_def)
    then show ?thesis using u8_call dt by simp
  qed
qed

lemma call_frames:
  assumes "builder_call c sp d" and "wf_cbb s" and "d < length (cbb_frames s)" and "c s = (Some (), s')"
    and "\<And>ls ls'. sp ls = Some ls' \<Longrightarrow> length ls' = n"
  shows "wf_cbb s'" "length (cbb_frames s') = n" "\<not> cbb_failed s'"
  using builder_call.refines [OF assms(1-4)] assms(5) [of "cbb_abs s" "cbb_abs s'"] frames_wf [of s'] by simp_all

lemma open_length: "open_levels d k ls = Some ls' \<Longrightarrow> length ls' = Suc (Suc d)"
  using flush_levels_idem by (fastforce simp: open_levels_def)

lemma asn1_length: "asn1_levels d tag ls = Some ls' \<Longrightarrow> length ls' = Suc (Suc d)"
  by (auto simp: asn1_levels_def bind_eq_Some_conv dest: open_length)

lemma append_option_length: "append_option d bs ls = Some ls' \<Longrightarrow> length ls' = Suc d"
  by (auto simp: append_option_def append_length split: option.splits)

lemma asn1_call: "builder_call (CBB_add_asn1 env d tag) (asn1_levels d tag) d"
proof -
  define op where "op = (\<lambda>s. and_then (CBB_flush env d s) (\<lambda>_ s. and_then
      (on_base (\<lambda>b. cbb_buffer_add_u env b (ucast (0 :: u8)) 1) s) (\<lambda>_ t. (Some (), add_child d (base_len s) 1 True t))))"
  have op: "builder_call op (open_levels d Element) d"
    using open_call [of 1 True "\<lambda>b. cbb_buffer_add_u env b (ucast (0 :: u8)) 1" "[0]", OF _ _ _ u8.appender_axioms]
    by (simp add: op_def)
  have "builder_call (\<lambda>s. and_then (tag_call env d tag s) (\<lambda>_. op))
      (\<lambda>ls. Option.bind (append_option d (Some (der_tag tag)) ls) (open_levels d Element)) d"
    by (rule call_sequence [OF tag_call op]) (simp add: append_option_length)
  then have "builder_call (\<lambda>s. and_then (CBB_flush env d s) (\<lambda>_ s. and_then (tag_call env d tag s) (\<lambda>_. op)))
      (\<lambda>ls. Option.bind (flush_levels d ls) (\<lambda>ls. Option.bind (append_option d (Some (der_tag tag)) ls) (open_levels d Element))) d"
    by (rule call_sequence [OF flush.builder_call_axioms]) (simp add: flush_levels_idem)
  then show ?thesis
  proof (rule call_cong)
    fix s assume s: "cbb_failed s \<or> wf_cbb s \<and> d < length (cbb_frames s)"
    have code: "CBB_add_asn1 env d tag s = and_then (CBB_flush env d s) (\<lambda>_ s. and_then (tag_call env d tag s) (\<lambda>_ s.
        and_then (CBB_add_u8 env d 0 s) (\<lambda>_ t. (Some (), add_child d (base_len s) 1 True t))))"
      by (simp add: CBB_add_asn1_def tag_call_def Let_def)
    show "CBB_add_asn1 env d tag s = and_then (CBB_flush env d s) (\<lambda>_ s. and_then (tag_call env d tag s) (\<lambda>_. op))"
    proof (cases "cbb_failed s")
      case True
      then show ?thesis by (simp add: code flush.sticks)
    next
      case False
      with s have w: "wf_cbb s" "d < length (cbb_frames s)" by simp_all
      show ?thesis unfolding code
      proof (intro and_then_cong refl)
        fix u s0 v s1 assume s0: "CBB_flush env d s = (Some u, s0)" and s1: "tag_call env d tag s0 = (Some v, s1)"
        note f = flush.refines [OF w, of env s0]
        have "wf_cbb s0" "d < length (cbb_frames s0)" using f s0 flushed_frames [OF w, of env s0] by simp_all
        from call_frames [OF tag_call this _ append_option_length, of env tag s1] s1
        have "length (cbb_frames s1) = Suc d" "\<not> cbb_failed s1" by simp_all
        then have "CBB_flush env d s1 = (Some (), s1)" by (rule flush_idle)
        then show "and_then (CBB_add_u8 env d 0 s1) (\<lambda>_ t. (Some (), add_child d (base_len s1) 1 True t)) = op s1"
          by (simp add: op_def CBB_add_u8_def CBB_add_uint_def)
      qed
    qed
  next
    fix ls
    show "asn1_levels d tag ls = Option.bind (flush_levels d ls)
        (\<lambda>ls. Option.bind (append_option d (Some (der_tag tag)) ls) (open_levels d Element))"
      using append_flushed [of d ls] by (cases "flush_levels d ls")
        (auto simp: asn1_levels_def append_option_def append_levels_def)
  qed
qed

text \<open>An element whose body is appended in one go and closed.\<close>

definition element_bytes :: "u32 \<Rightarrow> bytes \<Rightarrow> bytes option" where
  "element_bytes tag body = (if length body \<le> 0xfffffffe then Some (der_element (tag, body)) else None)"

lemma element_levels:
  "Option.bind (asn1_levels d tag ls) (\<lambda>ls. Option.bind (append_option (Suc d) (Some body) ls) (flush_levels d)) =
     append_option d (element_bytes tag body) ls"
proof (cases "flush_levels d ls")
  case None
  then show ?thesis by (simp add: asn1_levels_def append_option_def append_levels_def split: option.split)
next
  case (Some ls1)
  then obtain c where "collapse (drop d ls) = Some c" and ls1: "ls1 = take d ls @ [(fst (ls ! d), c)]"
    by (auto simp: flush_levels_def)
  then have "d < length ls" by (intro ccontr [of "d < length ls"]) simp
  then have l: "length (take d ls) = d" by simp
  define up where "up = take d ls"
  have l: "length up = d" using l by (simp add: up_def)
  have a: "append_levels d x ls = Some (up @ [(fst (ls ! d), c @ x)])" for x
    using Some by (simp add: append_levels_def ls1 up_def)
  have o: "open_levels d Element (up @ [(k, y)]) = Some (up @ [(k, y), (Element, [])])" for k y
    using l by (simp add: open_levels_def flush_levels_def nth_append)
  have b: "append_levels (Suc d) body (up @ [(k, y), (Element, [])]) = Some (up @ [(k, y), (Element, body)])" for k y
    using l by (simp add: append_levels_def flush_levels_def nth_append butlast_append)
  have f: "flush_levels d (up @ [(k, y), (Element, body)]) =
      (if length body \<le> 0xfffffffe then Some (up @ [(k, y @ der_len (length body) @ body)]) else None)" for k y
    using l by (simp add: flush_levels_def nth_append)
  show ?thesis
    by (simp add: asn1_levels_def append_option_def a o b f element_bytes_def der_element_def)
qed

lemma element_call:
  assumes "builder_call c (append_option (Suc d) (Some body)) (Suc d)"
  shows "builder_call (\<lambda>s. and_then (CBB_add_asn1 env d tag s) (\<lambda>_ s. and_then (c s) (\<lambda>_. CBB_flush env d)))
    (append_option d (element_bytes tag body)) d"
proof -
  have "builder_call (\<lambda>s. and_then (c s) (\<lambda>_. CBB_flush env d))
      (\<lambda>ls. Option.bind (append_option (Suc d) (Some body) ls) (flush_levels d)) (Suc d)"
    by (rule call_sequence [OF assms flush.builder_call_axioms]) (simp add: append_option_length)
  then have "builder_call (\<lambda>s. and_then (CBB_add_asn1 env d tag s) (\<lambda>_ s. and_then (c s) (\<lambda>_. CBB_flush env d)))
      (\<lambda>ls. Option.bind (asn1_levels d tag ls) (\<lambda>ls. Option.bind (append_option (Suc d) (Some body) ls) (flush_levels d))) d"
    by (rule call_sequence [OF asn1_call]) (simp add: asn1_length)
  then show ?thesis unfolding element_levels .
qed

lemma octet_string_call:
  assumes "length data < PTRDIFF_LIMIT"
  shows "builder_call (CBB_add_asn1_octet_string env d data (length data)) (append_option d (element_bytes CBS_ASN1_OCTETSTRING data)) d"
  using element_call [OF bytes_call [OF assms]] by (simp add: CBB_add_asn1_octet_string_def [abs_def])

lemma bool_call:
  "builder_call (CBB_add_asn1_bool env d v) (append_option d (Some [1, 1, if v \<noteq> 0 then 0xff else 0])) d"
  using element_call [OF u8_call, of env d CBS_ASN1_BOOLEAN env "if v \<noteq> 0 then 0xff else 0"]
  by (simp add: CBB_add_asn1_bool_def [abs_def] element_bytes_def der_element_def der_tag_def der_len_def CBS_ASN1_BOOLEAN_def Let_def)

section \<open>INTEGER\<close>

fun uint64_octets :: "bytes \<Rightarrow> bool \<Rightarrow> bytes" where
  "uint64_octets [] started = (if started then [] else [0])"
| "uint64_octets (b # bs) started =
     (if \<not> started \<and> b = 0 then uint64_octets bs False
      else (if \<not> started \<and> b AND 0x80 \<noteq> 0 then [0] else []) @ b # uint64_octets bs True)"

lemma add_u8s_fun:
  "add_u8s env d [] = (\<lambda>s. (Some (), s))"
  "add_u8s env d (b # bs) = (\<lambda>s. and_then (CBB_add_u8 env d b s) (\<lambda>_. add_u8s env d bs))"
  by (rule ext, simp)+

lemma add_uint64_loop_eq: "add_uint64_loop env d bs started s = add_u8s env d (uint64_octets bs started) s"
proof (induction bs arbitrary: started s)
  case Nil
  show ?case by (simp add: add_u8s_fun and_then_return)
next
  case (Cons b bs)
  then have "add_uint64_loop env d bs started = add_u8s env d (uint64_octets bs started)" for started by (intro ext)
  then show ?case by (simp add: add_u8s_fun)
qed

lemma uint64_octets_started: "uint64_octets bs True = bs"
  by (induction bs) simp_all

lemma uint64_octets_value: "twos (uint64_octets bs False) = int (be_val bs) \<and> minimal (uint64_octets bs False)"
proof (induction bs)
  case (Cons b bs)
  show ?case
  proof (cases "b = 0")
    case False
    then have "unat b \<noteq> 0" by (simp add: word_unat_eq_iff)
    then show ?thesis using False
      by (cases bs) (auto simp: uint64_octets_started twos_def minimal_def and_80_zero not_less)
  qed (use Cons in simp)
qed (simp add: twos_def minimal_def)

lemma be_bytes_shift:
  "be_bytes n (unat (v :: u64)) = map (\<lambda>i. ucast (drop_bit (8 * i) v)) (rev [0..<n])"
proof (induction n arbitrary: v)
  case (Suc n)
  have u: "unat v div 256 = unat (drop_bit 8 v)" using unat_drop [of 8 v] by simp
  have "(of_nat (unat v) :: u8) = ucast v" by (simp add: of_nat_unat)
  then show ?case unfolding rev_upt_Suc
    by (simp add: u Suc comp_def add.commute del: upt_Suc)
qed simp

lemma uint64_bytes:
  "map (\<lambda>i. ucast (drop_bit (8 * (7 - i)) v AND 0xff)) [0..<8] = be_bytes 8 (unat (v :: u64))"
proof -
  have m: "(ucast (w AND 0xff) :: u8) = ucast w" for w :: u64
  proof -
    have "w AND 0xff = take_bit 8 w" by (simp add: take_mask [symmetric] mask_eq_exp_minus_1)
    then show ?thesis by (simp only:) (rule bit_word_eqI, auto simp: bit_simps)
  qed
  have "rev [0..<8] = map (\<lambda>i. 7 - i) [0..<8::nat]" by code_simp
  then show ?thesis unfolding be_bytes_shift by (simp add: m comp_def del: upt_rec_numeral)
qed

lemma uint64_call:
  "builder_call (CBB_add_asn1_uint64 env d v) (append_option d (Some (der_element (CBS_ASN1_INTEGER, der_int (uint v))))) d"
proof -
  let ?bs = "uint64_octets (be_bytes 8 (unat v)) False"
  have "be_val (be_bytes 8 (unat v)) = unat v"
    using unsigned_less [of v, where ?'a = nat] by (simp add: be_val_be_bytes)
  then have bs: "?bs = der_int (uint v)"
    using uint64_octets_value [of "be_bytes 8 (unat v)"] der_int_twos [of ?bs] by simp
  have "?bs \<noteq> []" using uint64_octets_value [of "be_bytes 8 (unat v)"] by (simp add: minimal_def)
  note c = element_call [OF add_u8s_call [OF this, of env "Suc d"], of env CBS_ASN1_INTEGER]
  have "element_bytes CBS_ASN1_INTEGER ?bs = Some (der_element (CBS_ASN1_INTEGER, der_int (uint v)))"
    using length_der_uint64 [of v] by (simp add: element_bytes_def bs)
  moreover have "CBB_add_asn1_uint64 env d v =
      (\<lambda>s. and_then (CBB_add_asn1 env d CBS_ASN1_INTEGER s) (\<lambda>_ s. and_then (add_u8s env (Suc d) ?bs s) (\<lambda>_. CBB_flush env d)))"
    by (intro ext) (simp only: CBB_add_asn1_uint64_def add_uint64_loop_eq uint64_bytes)
  ultimately show ?thesis using c by simp
qed


text \<open>Negative numbers: the bytes from the first that is not sign extension.\<close>

lemma int64_bytes_eq: "int64_bytes v = rev (be_bytes 8 (unat v))"
  by (simp add: be_bytes_shift int64_bytes_def rev_map)

text \<open>Dropping a sign-extension byte keeps the value.\<close>

lemma twos_drop_ff:
  assumes "128 \<le> unat b"
  shows "twos (0xff # b # r) = twos (b # r)"
proof -
  have "unat (0xff :: u8) = 255" by simp
  then show ?thesis using assms by (simp add: twos_def algebra_simps del: unsigned_numeral)
qed

lemma int64_octets:
  "128 \<le> unat (u ! n) \<Longrightarrow>
   twos (map ((!) u) (rev [0..<Suc (int64_start u n)])) = twos (map ((!) u) (rev [0..<Suc n])) \<and>
   minimal (map ((!) u) (rev [0..<Suc (int64_start u n)]))"
proof (induction n)
  case 0
  then show ?case by (simp add: minimal_def)
next
  case (Suc n)
  have L: "map ((!) u) (rev [0..<Suc (Suc n)]) = u ! Suc n # u ! n # map ((!) u) (rev [0..<n])" by simp
  show ?case
  proof (cases "u ! Suc n = 0xff \<and> u ! n AND 0x80 \<noteq> 0")
    case True
    then have "128 \<le> unat (u ! n)" by (simp add: and_80_zero)
    with Suc.IH True show ?thesis by (simp add: twos_drop_ff)
  next
    case False
    then have "minimal (map ((!) u) (rev [0..<Suc (Suc n)]))"
      unfolding L using Suc.prems by (auto simp: minimal_def and_80_zero)
    moreover have "int64_start u (Suc n) = Suc n" using False by auto
    ultimately show ?thesis by (simp del: upt_Suc int64_start.simps)
  qed
qed

lemma sint_cases: "sint (v :: u64) = (if unat v < 2 ^ 63 then int (unat v) else int (unat v) - 2 ^ 64)"
proof -
  have "sint v = take_bit 64 (uint v + 2 ^ 63) - 2 ^ 63"
    using signed_take_bit_eq_take_bit_shift [of 63 "uint v"] by (simp add: sint_uint)
  then have "sint v = (int (unat v) + 2 ^ 63) mod 2 ^ 64 - 2 ^ 63" by (simp add: take_bit_eq_mod)
  moreover have lt: "int (unat v) < 2 ^ 64" using uint_lt2p [of v] by simp
  moreover have "(int (unat v) + 2 ^ 63) mod 2 ^ 64 = int (unat v) + 2 ^ 63 - 2 ^ 64" if "2 ^ 63 \<le> int (unat v)"
    using that lt mod_pos_geq [of "2 ^ 64" "int (unat v) + 2 ^ 63"]
    by (simp del: of_nat_unat)
  moreover have "2 ^ 63 \<le> int (unat v) \<longleftrightarrow> \<not> unat v < 2 ^ 63"
    using of_nat_le_iff [of "2 ^ 63" "unat v", where ?'a = int] by (simp del: of_nat_unat add: not_less)
  ultimately show ?thesis by (cases "unat v < 2 ^ 63") (simp_all del: of_nat_unat)
qed

lemma twos_be_bytes:
  assumes "sint (v :: u64) < 0"
  shows "twos (be_bytes 8 (unat v)) = sint v" and "128 \<le> unat (int64_bytes v ! 7)"
proof -
  have u: "int (unat v) = sint v + 2 ^ 64" and ge: "2 ^ 63 \<le> unat v"
    using assms by (auto simp: sint_cases simp del: of_nat_unat split: if_splits)
  have bv: "be_val (be_bytes 8 (unat v)) = unat v"
    using unsigned_less [of v, where ?'a = nat] by (simp add: be_val_be_bytes)
  show hd: "128 \<le> unat (int64_bytes v ! 7)"
  proof -
    have "int64_bytes v ! 7 = ucast (drop_bit 56 v)" by (simp add: int64_bytes_def)
    moreover have "unat (drop_bit 56 v) = unat v div 2 ^ 56" by (rule unat_drop)
    moreover have "unat v div 2 ^ 56 < 256" using unsigned_less [of v, where ?'a = nat] by simp
    ultimately have "unat (int64_bytes v ! 7) = unat v div 2 ^ 56" by (simp add: unsigned_ucast_eq take_bit_nat_def)
    moreover have "2 ^ 63 div 2 ^ 56 \<le> unat v div 2 ^ 56" by (rule div_le_mono [OF ge])
    ultimately show ?thesis by simp
  qed
  have "be_bytes 8 (unat v) = rev (int64_bytes v)" by (simp add: int64_bytes_eq)
  moreover have "hd (rev (int64_bytes v)) = int64_bytes v ! 7"
    by (simp add: hd_rev last_conv_nth int64_bytes_def)
  moreover have "length (int64_bytes v) = 8" "int64_bytes v \<noteq> []" by (auto simp add: int64_bytes_def)
  ultimately show "twos (be_bytes 8 (unat v)) = sint v"
    using hd u bv by (simp add: twos_def)
qed

lemma int64_call:
  "builder_call (CBB_add_asn1_int64 env d v) (append_option d (Some (der_element (CBS_ASN1_INTEGER, der_int (sint v))))) d"
proof (cases "0 \<le> sint v")
  case True
  then have "sint v = uint v" using sint_cases [of v] uint_lt2p [of v] by (auto split: if_splits)
  moreover have "CBB_add_asn1_int64 env d v = CBB_add_asn1_uint64 env d v"
    using True by (intro ext) (simp add: CBB_add_asn1_int64_def)
  ultimately show ?thesis using uint64_call by simp
next
  case False
  let ?u = "int64_bytes v"
  let ?bs = "map ((!) ?u) (rev [0..<Suc (int64_start ?u 7)])"
  note neg = twos_be_bytes [of v]
  have "map ((!) ?u) (rev [0..<Suc 7]) = rev ?u"
  proof -
    have "length ?u = Suc 7" by (simp add: int64_bytes_def)
    then show ?thesis using map_nth [of ?u] by (simp only: rev_map [symmetric])
  qed
  then have bs: "twos ?bs = sint v \<and> minimal ?bs"
    using int64_octets [OF neg(2)] neg(1) False by (simp add: int64_bytes_eq)
  then have L: "?bs = der_int (sint v)" using der_int_twos [of ?bs] by simp
  have ne: "?bs \<noteq> []" using bs by (simp add: minimal_def)
  note c = element_call [OF add_u8s_call [OF ne, of env "Suc d"], of env CBS_ASN1_INTEGER]
  have "element_bytes CBS_ASN1_INTEGER ?bs = Some (der_element (CBS_ASN1_INTEGER, der_int (sint v)))"
    using length_der_int64 [of v] unfolding element_bytes_def L by simp
  moreover have "CBB_add_asn1_int64 env d v =
      (\<lambda>s. and_then (CBB_add_asn1 env d CBS_ASN1_INTEGER s) (\<lambda>_ s. and_then (add_u8s env (Suc d) ?bs s) (\<lambda>_. CBB_flush env d)))"
    using False by (intro ext) (simp only: CBB_add_asn1_int64_def Let_def if_False)
  ultimately show ?thesis using c by simp
qed

end
