(* ===== verification/Readers.thy ===== *)
theory Readers
  imports ASN1_Values
begin

text \<open>
  Memory safety of the parser of \<open>cbs.c\<close>: every getter meets the contract \<open>reader\<close>, and
  whatever sequence of getters is run on a \<open>CBS\<close> and on the \<open>CBS\<close>s it hands out, each
  \<open>CBS\<close> that is reached stays inside the bytes of the first one.
\<close>

section \<open>Readers are closed under the composition of the code\<close>

named_theorems reader_intros \<open>building readers\<close>

lemma reader_return [reader_intros]: "reader (\<lambda>c. (f c, c))"
proof
  show "\<exists>n\<le>cbs_len c. snd (f c, c) = advance c n" for c by (rule exI [of _ 0]) simp
qed

lemma reader_and_then [reader_intros]:
  assumes "reader rd" and "\<And>a. reader (k a)"
  shows "reader (\<lambda>c. and_then (rd c) k)"
proof
  fix c assume wf: "wf_cbs c"
  obtain r c1 where rd: "rd c = (r, c1)" by fastforce
  obtain n where n: "n \<le> cbs_len c" "c1 = advance c n"
    using reader.consumes [OF assms(1) wf] rd by auto
  show "\<exists>n\<le>cbs_len c. snd (and_then (rd c) k) = advance c n"
  proof (cases r)
    case None
    then show ?thesis using n rd by auto
  next
    case (Some a)
    have "wf_cbs c1" using wf n(2) by simp
    from reader.consumes [OF assms(2) this] obtain m where "m \<le> cbs_len c1" "snd (k a c1) = advance c1 m"
      by blast
    then show ?thesis using n rd Some by (intro exI [of _ "n + m"]) simp
  qed
qed

lemma reader_if [reader_intros]: "reader f \<Longrightarrow> reader g \<Longrightarrow> reader (\<lambda>c. if P c then f c else g c)"
  by (simp add: reader_def)

lemma reader_case_option [reader_intros]:
  "reader f \<Longrightarrow> (\<And>a. reader (g a)) \<Longrightarrow> reader (\<lambda>c. case x of None \<Rightarrow> f c | Some a \<Rightarrow> g a c)"
  by (cases x) simp_all

lemma reader_outcome [reader_intros]:
  "reader f \<Longrightarrow> (\<And>a s. reader (g a s)) \<Longrightarrow> reader (\<lambda>c. case r of (None, _) \<Rightarrow> f c | (Some a, s) \<Rightarrow> g a s c)"
  by (auto simp: reader_def split: prod.split option.split)

lemma reader_let [reader_intros]: "(\<And>v. reader (\<lambda>c. f v c)) \<Longrightarrow> reader (\<lambda>c. let v = e in f v c)"
  by simp

lemma reader_get [reader_intros]: "reader (\<lambda>c. cbs_get c n)"
proof
  show "\<exists>m\<le>cbs_len c. snd (cbs_get c n) = advance c m" for c
    using advance_0 [of c] by (auto simp: cbs_get_eq not_less intro: exI [of _ 0] exI [of _ n])
qed

section \<open>Elements\<close>

text \<open>
  The BER parser differs from the DER parser only on a constructed element of indefinite length,
  where it returns the header.
\<close>

lemma ber_element_eq:
  "cbs_get_any_asn1_element c True = cbs_get_any_asn1_element c False \<or>
   (\<exists>t h n. parse_asn1_tag c = (Some t, h) \<and>
      cbs_get_any_asn1_element c True =
        (if cbs_len c < n then (None, c) else (Some (CBS_init (cbs_data c) n, t, n), advance c n)))"
  by (auto simp: cbs_get_any_asn1_element_def Let_def CBS_get_bytes_eq split: prod.split option.split)

text \<open>The element parser, BER or DER, cuts one piece off the front, header included.\<close>

definition cuts :: "cbs_st \<Rightarrow> (cbs_st \<times> u32 \<times> nat, cbs_st) outcome \<Rightarrow> bool" where
  "cuts c r \<longleftrightarrow> (case r of (None, c') \<Rightarrow> c' = c
     | (Some (out, t, hl), c') \<Rightarrow>
         hl \<le> cbs_len out \<and> cbs_len out \<le> cbs_len c \<and> out = CBS_init (cbs_data c) (cbs_len out) \<and>
         c' = advance c (cbs_len out))"

lemma der_element_cuts:
  assumes wf: "wf_cbs c"
  shows "cuts c (cbs_get_any_asn1_element c False)"
  unfolding element_eq [OF wf] cuts_def
  by (auto simp: Let_def split: prod.split option.split)

lemma element_cuts:
  assumes wf: "wf_cbs c"
  shows "cuts c (cbs_get_any_asn1_element c ber)"
proof (cases ber)
  case True
  then show ?thesis
    using ber_element_eq [of c] der_element_cuts [OF wf]
    by (auto simp: cuts_def split: if_splits)
qed (simp add: der_element_cuts [OF wf])


section \<open>Every getter is a reader\<close>

lemma reader_element [reader_intros]: "reader (\<lambda>c. cbs_get_any_asn1_element c ber)"
proof
  fix c assume "wf_cbs c"
  from element_cuts [OF this, of ber]
  show "\<exists>n\<le>cbs_len c. snd (cbs_get_any_asn1_element c ber) = advance c n"
    using advance_0 [of c] by (fastforce simp: cuts_def split: prod.splits option.splits)
qed

lemma reader_case_prod [reader_intros]: "(\<And>a b. reader (f a b)) \<Longrightarrow> reader (case p of (a, b) \<Rightarrow> f a b)"
  by (cases p) simp

lemmas getter_defs =
  CBS_skip_def CBS_get_u8_def CBS_get_u16_def CBS_get_u16le_def CBS_get_u24_def CBS_get_u32_def
  CBS_get_u32le_def CBS_get_u64_def CBS_get_u64le_def cbs_get_u_def CBS_get_bytes_def CBS_copy_bytes_def
  CBS_get_u8_length_prefixed_def CBS_get_u16_length_prefixed_def CBS_get_u24_length_prefixed_def
  cbs_get_length_prefixed_def CBS_get_any_asn1_element_def CBS_get_any_ber_asn1_element_def
  CBS_get_any_asn1_def cbs_get_asn1_def CBS_get_asn1_def CBS_get_asn1_element_def
  CBS_get_asn1_uint64_def CBS_get_asn1_int64_def CBS_get_asn1_bool_def CBS_get_optional_asn1_def
  CBS_get_optional_asn1_octet_string_def CBS_get_optional_asn1_uint64_def CBS_get_optional_asn1_bool_def

interpretation skip: reader "\<lambda>c. CBS_skip c n" for n unfolding getter_defs by (intro reader_intros)
interpretation get_u8: reader CBS_get_u8 unfolding getter_defs by (intro reader_intros)
interpretation get_u16: reader CBS_get_u16 unfolding getter_defs by (intro reader_intros)
interpretation get_u16le: reader CBS_get_u16le unfolding getter_defs by (intro reader_intros)
interpretation get_u24: reader CBS_get_u24 unfolding getter_defs by (intro reader_intros)
interpretation get_u32: reader CBS_get_u32 unfolding getter_defs by (intro reader_intros)
interpretation get_u32le: reader CBS_get_u32le unfolding getter_defs by (intro reader_intros)
interpretation get_u64: reader CBS_get_u64 unfolding getter_defs by (intro reader_intros)
interpretation get_u64le: reader CBS_get_u64le unfolding getter_defs by (intro reader_intros)
interpretation get_bytes: reader "\<lambda>c. CBS_get_bytes c n" for n unfolding getter_defs by (intro reader_intros)
interpretation copy_bytes: reader "\<lambda>c. CBS_copy_bytes c n" for n unfolding getter_defs by (intro reader_intros)
interpretation length_prefixed: reader "\<lambda>c. cbs_get_length_prefixed c n" for n
  unfolding getter_defs by (intro reader_intros)
interpretation any_asn1: reader CBS_get_any_asn1 unfolding getter_defs by (intro reader_intros)
interpretation any_element: reader "\<lambda>c. cbs_get_any_asn1_element c ber" for ber by (rule reader_element)
interpretation get_asn1: reader "\<lambda>c. cbs_get_asn1 c tag skip_header" for tag skip_header
  unfolding getter_defs by (intro reader_intros)
interpretation get_uint64: reader CBS_get_asn1_uint64 unfolding getter_defs by (intro reader_intros)
interpretation get_int64: reader CBS_get_asn1_int64 unfolding getter_defs by (intro reader_intros)
interpretation get_bool: reader CBS_get_asn1_bool unfolding getter_defs by (intro reader_intros)
interpretation optional_asn1: reader "\<lambda>c. CBS_get_optional_asn1 c tag" for tag
  unfolding getter_defs by (intro reader_intros)
interpretation optional_octet_string: reader "\<lambda>c. CBS_get_optional_asn1_octet_string c tag" for tag
  unfolding getter_defs by (intro reader_intros)
interpretation optional_uint64: reader "\<lambda>c. CBS_get_optional_asn1_uint64 c tag d" for tag d
  unfolding getter_defs by (intro reader_intros)
interpretation optional_bool: reader "\<lambda>c. CBS_get_optional_asn1_bool c tag d" for tag d
  unfolding getter_defs by (intro reader_intros)


section \<open>Staying in bounds\<close>

text \<open>\<open>inside c d\<close>: the memory that \<open>d\<close> stands for is part of the memory \<open>c\<close> stands for.\<close>

definition inside :: "cbs_st \<Rightarrow> cbs_st \<Rightarrow> bool" where
  "inside c d \<longleftrightarrow> (\<exists>p. cbs_data d = drop p (cbs_data c) \<and> p + cbs_len d \<le> cbs_len c)"

lemma inside_refl [simp]: "inside c c"
  unfolding inside_def by (rule exI [of _ 0]) simp

lemma inside_trans: "inside b c \<Longrightarrow> inside c d \<Longrightarrow> inside b d"
proof -
  assume "inside b c" "inside c d"
  then obtain p q where "cbs_data c = drop p (cbs_data b)" "p + cbs_len c \<le> cbs_len b"
    "cbs_data d = drop q (cbs_data c)" "q + cbs_len d \<le> cbs_len c" by (auto simp: inside_def)
  then show "inside b d" unfolding inside_def by (intro exI [of _ "q + p"]) simp
qed

lemma inside_wf: "wf_cbs c \<Longrightarrow> inside c d \<Longrightarrow> wf_cbs d"
  by (auto simp: wf_cbs_def inside_def)

lemma inside_bytes:
  assumes "inside c d"
  shows "\<exists>p s. cbs_bytes c = p @ cbs_bytes d @ s"
proof -
  obtain p where p: "cbs_data d = drop p (cbs_data c)" "p + cbs_len d \<le> cbs_len c"
    using assms by (auto simp: inside_def)
  have "cbs_bytes d = take (cbs_len d) (drop p (cbs_bytes c))"
    using p by (simp add: cbs_bytes_def drop_take min_def)
  then have "cbs_bytes c = take p (cbs_bytes c) @ cbs_bytes d @ drop (cbs_len d) (drop p (cbs_bytes c))"
    by (metis append_take_drop_id)
  then show ?thesis by blast
qed

lemma inside_advance: "n \<le> cbs_len c \<Longrightarrow> inside c (advance c n)"
  unfolding inside_def by (rule exI [of _ n]) simp

lemma inside_init: "n \<le> cbs_len c \<Longrightarrow> inside c (CBS_init (cbs_data c) n)"
  unfolding inside_def by (rule exI [of _ 0]) simp

context reader begin

lemma stays_inside: "wf_cbs c \<Longrightarrow> inside c (snd (rd c))"
  using consumes [of c] inside_advance by auto

end

section \<open>Whole programs\<close>

text \<open>The \<open>CBS\<close>s that a getter hands out.\<close>

lemma bytes_out: "CBS_get_bytes c n = (Some out, c') \<Longrightarrow> inside c out"
  by (auto simp: CBS_get_bytes_eq inside_init split: if_splits)

lemma length_prefixed_out:
  assumes "cbs_get_length_prefixed c n = (Some out, c')"
  shows "inside c out"
proof -
  obtain v where "cbs_len c \<ge> n" "CBS_get_bytes (advance c n) (unat (v :: u64)) = (Some out, c')"
    using assms by (auto simp: cbs_get_length_prefixed_def cbs_get_u_eq split: if_splits)
  then show ?thesis using bytes_out inside_trans inside_advance by blast
qed

lemma element_out:
  assumes "wf_cbs c" and "cbs_get_any_asn1_element c ber = (Some (out, t, hl), c')"
  shows "inside c out" "hl \<le> cbs_len out"
proof -
  have "hl \<le> cbs_len out" "cbs_len out \<le> cbs_len c" "out = CBS_init (cbs_data c) (cbs_len out)"
    using element_cuts [OF assms(1), of ber] assms(2) by (simp_all add: cuts_def)
  then show "inside c out" "hl \<le> cbs_len out" using inside_init by metis+
qed

lemma any_asn1_out: 
  assumes "wf_cbs c" and "CBS_get_any_asn1 c = (Some (out, t), c')"
  shows "inside c out"
proof -
  obtain el hl where "CBS_get_any_asn1_element c = (Some (el, t, hl), c')" "out = advance el hl"
    using assms(2) by (auto simp: CBS_get_any_asn1_eq and_then_Some split: if_splits)
  then have "inside c el" "hl \<le> cbs_len el" "out = advance el hl"
    using element_out [OF assms(1), of False el t hl c'] by (simp_all add: CBS_get_any_asn1_element_def)
  then show ?thesis using inside_trans [OF _ inside_advance] by simp
qed

lemma get_asn1_out:
  assumes "wf_cbs c" and "cbs_get_asn1 c t skip_header = (Some out, c')"
  shows "inside c out"
proof -
  obtain el hl where el: "CBS_get_any_asn1_element c = (Some (el, t, hl), c')"
    and "out = el \<or> out = advance el hl"
    using assms(2) by (auto simp: cbs_get_asn1_def CBS_skip_eq and_then_Some split: if_splits)
  then have "inside c el" "hl \<le> cbs_len el" "out = el \<or> out = advance el hl"
    using element_out [OF assms(1), of False el t hl c'] by (simp_all add: CBS_get_any_asn1_element_def)
  then show ?thesis using inside_trans [OF _ inside_advance] by auto
qed

lemma optional_out:
  assumes "wf_cbs c" and "CBS_get_optional_asn1 c t = (Some (Some out), c')"
  shows "inside c out" 
  using assms get_asn1_out [of c t True]
  by (auto simp: CBS_get_optional_asn1_def CBS_get_asn1_def and_then_Some split: if_splits)

lemma optional_octet_string_out:
  assumes wf: "wf_cbs c" and "CBS_get_optional_asn1_octet_string c t = (Some (out, True), c')"
  shows "inside c out"
proof -
  obtain present where c: "CBS_get_optional_asn1 c t = (Some present, c')"
    and k: "present = Some child \<Longrightarrow> \<exists>rest. CBS_get_asn1 child CBS_ASN1_OCTETSTRING = (Some out, rest)"
    and "present \<noteq> None" for child
    using assms(2) unfolding CBS_get_optional_asn1_octet_string_def and_then_Some
    by (fastforce split: option.splits prod.splits if_splits)
  then obtain child rest where c: "CBS_get_optional_asn1 c t = (Some (Some child), c')"
    and o: "CBS_get_asn1 child CBS_ASN1_OCTETSTRING = (Some out, rest)" by blast
  have child: "inside c child" by (rule optional_out [OF wf c])
  then have "inside child out"
    using get_asn1_out [OF inside_wf [OF wf child]] o unfolding CBS_get_asn1_def by blast
  with child show ?thesis by (rule inside_trans)
qed

text \<open>
  One step of a program that parses: any getter applied to a \<open>CBS\<close>, yielding the \<open>CBS\<close> it
  leaves or, on success, the one it hands out.
\<close>

inductive cbs_step :: "cbs_st \<Rightarrow> cbs_st \<Rightarrow> bool" where
  "cbs_step c (snd (CBS_skip c n))"
| "cbs_step c (snd (CBS_get_u8 c))"
| "cbs_step c (snd (CBS_get_u16 c))"
| "cbs_step c (snd (CBS_get_u16le c))"
| "cbs_step c (snd (CBS_get_u24 c))"
| "cbs_step c (snd (CBS_get_u32 c))"
| "cbs_step c (snd (CBS_get_u32le c))"
| "cbs_step c (snd (CBS_get_u64 c))"
| "cbs_step c (snd (CBS_get_u64le c))"
| "cbs_step c (snd (CBS_get_last_u8 c))"
| "cbs_step c (snd (CBS_get_bytes c n))"
| "CBS_get_bytes c n = (Some out, c') \<Longrightarrow> cbs_step c out"
| "cbs_step c (snd (CBS_copy_bytes c n))"
| "cbs_step c (snd (cbs_get_length_prefixed c n))"
| "cbs_get_length_prefixed c n = (Some out, c') \<Longrightarrow> cbs_step c out"
| "cbs_step c (snd (cbs_get_any_asn1_element c ber))"
| "cbs_get_any_asn1_element c ber = (Some (out, t, hl), c') \<Longrightarrow> cbs_step c out"
| "cbs_step c (snd (CBS_get_any_asn1 c))"
| "CBS_get_any_asn1 c = (Some (out, t), c') \<Longrightarrow> cbs_step c out"
| "cbs_step c (snd (cbs_get_asn1 c t skip_header))"
| "cbs_get_asn1 c t skip_header = (Some out, c') \<Longrightarrow> cbs_step c out"
| "cbs_step c (snd (CBS_get_asn1_uint64 c))"
| "cbs_step c (snd (CBS_get_asn1_int64 c))"
| "cbs_step c (snd (CBS_get_asn1_bool c))"
| "cbs_step c (snd (CBS_get_optional_asn1 c t))"
| "CBS_get_optional_asn1 c t = (Some (Some out), c') \<Longrightarrow> cbs_step c out"
| "cbs_step c (snd (CBS_get_optional_asn1_octet_string c t))"
| "CBS_get_optional_asn1_octet_string c t = (Some (out, True), c') \<Longrightarrow> cbs_step c out"
| "cbs_step c (snd (CBS_get_optional_asn1_uint64 c t d))"
| "cbs_step c (snd (CBS_get_optional_asn1_bool c t b))"

lemma last_u8_inside: "inside c (snd (CBS_get_last_u8 c))"
  by (auto simp: CBS_get_last_u8_def inside_def intro: exI [of _ 0])

lemma step_inside: "cbs_step c d \<Longrightarrow> wf_cbs c \<Longrightarrow> inside c d"
  by (induction rule: cbs_step.induct)
    (blast intro: skip.stays_inside get_u8.stays_inside get_u16.stays_inside get_u16le.stays_inside
      get_u24.stays_inside get_u32.stays_inside get_u32le.stays_inside get_u64.stays_inside
      get_u64le.stays_inside get_bytes.stays_inside copy_bytes.stays_inside length_prefixed.stays_inside
      any_element.stays_inside any_asn1.stays_inside get_asn1.stays_inside get_uint64.stays_inside
      get_int64.stays_inside get_bool.stays_inside optional_asn1.stays_inside
      optional_octet_string.stays_inside optional_uint64.stays_inside optional_bool.stays_inside
      last_u8_inside bytes_out length_prefixed_out element_out any_asn1_out get_asn1_out optional_out
      optional_octet_string_out)+

lemma steps_inside: "cbs_step\<^sup>*\<^sup>* c d \<Longrightarrow> wf_cbs c \<Longrightarrow> inside c d \<and> wf_cbs d"
  by (induction rule: rtranclp_induct) (auto dest: step_inside intro: inside_trans inside_wf)


section \<open>Nested elements\<close>

text \<open>A reader of one DER element that must fill the body of another.\<close>

lemma optional_uint64_present:
  assumes wf: "wf_cbs c" and peek: "CBS_peek_asn1_tag c t"
  shows "CBS_get_optional_asn1_uint64 c t d = (Some v, c') \<longleftrightarrow>
    cbs_bytes c = der_element (t, der_element (CBS_ASN1_INTEGER, der_int (uint v))) @ cbs_bytes c' \<and>
    c' = advance c (length (der_element (t, der_element (CBS_ASN1_INTEGER, der_int (uint v)))))"
    (is "?lhs \<longleftrightarrow> cbs_bytes c = der_element (t, ?int) @ _ \<and> _")
proof -
  have inner: "(\<exists>r. CBS_get_asn1_uint64 out = (Some v, r) \<and> CBS_len r = 0) \<longleftrightarrow> cbs_bytes out = ?int"
    if wfo: "wf_cbs out" for out
  proof -
    have "cbs_bytes (advance out (length ?int)) = [] \<longleftrightarrow> cbs_len (advance out (length ?int)) = 0"
      using length_cbs_bytes [OF wf_advance [OF wfo]] by (metis length_0_conv)
    then show ?thesis
      using asn1_uint64.reads_iff [OF wfo, of v] by (auto simp: CBS_len_def)
  qed
  have short: "length ?int < 2 ^ 32"
    using length_der_uint64 [of v] length_der_tag [of CBS_ASN1_INTEGER] by (simp add: der_element_def der_len_def)
  have "?lhs \<longleftrightarrow> (\<exists>out. CBS_get_asn1 c t = (Some out, c') \<and>
      (\<exists>r. CBS_get_asn1_uint64 out = (Some v, r) \<and> CBS_len r = 0))"
  proof (cases "CBS_get_asn1 c t")
    case (Pair r c1)
    show ?thesis
    proof (cases r)
      case (Some out)
      then show ?thesis using Pair peek
        by (cases "CBS_get_asn1_uint64 out")
          (auto simp: CBS_get_optional_asn1_uint64_def CBS_get_optional_asn1_def split: option.split)
    qed (use Pair peek in \<open>simp add: CBS_get_optional_asn1_uint64_def CBS_get_optional_asn1_def\<close>)
  qed
  also have "\<dots> \<longleftrightarrow> (\<exists>out. CBS_get_asn1 c t = (Some out, c') \<and> cbs_bytes out = ?int)"
    using inner CBS_get_asn1_sound [OF wf] by blast
  also have "\<dots> \<longleftrightarrow> cbs_bytes c = der_element (t, ?int) @ cbs_bytes c' \<and> c' = advance c (length (der_element (t, ?int)))"
  proof
    assume "\<exists>out. CBS_get_asn1 c t = (Some out, c') \<and> cbs_bytes out = ?int"
    then obtain out where o: "CBS_get_asn1 c t = (Some out, c')" and b: "cbs_bytes out = ?int" by blast
    from CBS_get_asn1_sound [OF wf o]
    show "cbs_bytes c = der_element (t, ?int) @ cbs_bytes c' \<and> c' = advance c (length (der_element (t, ?int)))"
      unfolding b by blast
  next
    assume eq: "cbs_bytes c = der_element (t, ?int) @ cbs_bytes c' \<and> c' = advance c (length (der_element (t, ?int)))"
    from CBS_get_asn1_complete [OF wf short conjunct1 [OF eq]]
    show "\<exists>out. CBS_get_asn1 c t = (Some out, c') \<and> cbs_bytes out = ?int"
      unfolding conjunct2 [OF eq, symmetric] by blast
  qed
  finally show ?thesis .
qed

section \<open>Properties\<close>

text \<open>C1: memory safety of the parser. Whatever sequence of getters a program runs on a valid
  \<open>CBS\<close> and on the \<open>CBS\<close>s it obtains on the way, failed calls and BER parsing included, every
  \<open>CBS\<close> it ever holds denotes a contiguous part of the original byte string, and its length field
  stays within the memory behind its pointer.\<close>

theorem cbs_parsing_in_bounds:
  assumes "wf_cbs c" and "cbs_step\<^sup>*\<^sup>* c d"
  shows "(\<exists>p s. cbs_bytes c = p @ cbs_bytes d @ s) \<and> cbs_len d \<le> length (cbs_data d)"
  using steps_inside [OF assms(2,1)] inside_bytes [of c d] by (simp add: wf_cbs_def)

definition sample_sequence :: bytes where
  "sample_sequence = [0x30, 3, 1, 1, 0xff, 7]"

lemma sample_sequence_parse:
  "CBS_get_any_asn1 (CBS_init sample_sequence 6) =
     (Some (\<lparr>cbs_data = [1, 1, 0xff, 7], cbs_len = 3\<rparr>, 0x20000010), \<lparr>cbs_data = [7], cbs_len = 1\<rparr>)"
  by code_simp

theorem cbs_parsing_in_bounds_witness:
  "wf_cbs (CBS_init sample_sequence 6) \<and>
   cbs_step\<^sup>*\<^sup>* (CBS_init sample_sequence 6) \<lparr>cbs_data = [1, 1, 0xff, 7], cbs_len = 3\<rparr> \<and>
   (\<exists>p s. cbs_bytes (CBS_init sample_sequence 6) = p @ [1, 1, 0xff] @ s)"
proof -
  have wf: "wf_cbs (CBS_init sample_sequence 6)" by code_simp
  have step: "cbs_step\<^sup>*\<^sup>* (CBS_init sample_sequence 6) \<lparr>cbs_data = [1, 1, 0xff, 7], cbs_len = 3\<rparr>"
    by (rule r_into_rtranclp, rule cbs_step.intros(19) [OF sample_sequence_parse])
  show ?thesis using wf step cbs_parsing_in_bounds [OF wf step] by (simp add: cbs_bytes_def)
qed

text \<open>C4: the DER element parser accepts exactly the canonical encodings. It returns tag \<open>t\<close> and
  body \<open>body\<close> and leaves \<open>c'\<close> if and only if the input is the DER encoding of that element (the
  minimal identifier octets, the minimal length octets, the body of less than 2^32 bytes) followed
  by what \<open>c'\<close> holds.\<close>

theorem der_element_iff:
  assumes "wf_cbs c"
  shows "(\<exists>out. CBS_get_any_asn1 c = (Some (out, t), c') \<and> cbs_bytes out = body) \<longleftrightarrow>
    length body < 2 ^ 32 \<and> cbs_bytes c = der_element (t, body) @ cbs_bytes c' \<and>
    c' = advance c (length (der_element (t, body)))"
  using element.reads_iff [OF assms, of "(t, body)" c']
  by (auto simp: read_element_def and_then_Some)

theorem der_element_iff_witness:
  "\<exists>out. CBS_get_any_asn1 (CBS_init sample_sequence 6) = (Some (out, 0x20000010), CBS_init [7] 1) \<and>
     cbs_bytes out = [1, 1, 0xff]"
proof -
  have "wf_cbs (CBS_init sample_sequence 6)" by code_simp
  then show ?thesis by (rule iffD2 [OF der_element_iff]) code_simp
qed

text \<open>C10: tags. The identifier octets are accepted exactly in their minimal form: a tag number below
  31 in the low five bits, any other in base 128 without a leading zero digit.\<close>

theorem asn1_tag_iff:
  assumes "wf_cbs c"
  shows "parse_asn1_tag c = (Some t, c') \<longleftrightarrow>
    cbs_bytes c = der_tag t @ cbs_bytes c' \<and> c' = advance c (length (der_tag t))"
  using asn1_tag.reads_iff [OF assms] by simp

theorem asn1_tag_iff_witness:
  "parse_asn1_tag (CBS_init [0xbf, 0x81, 0x00, 5] 4) = (Some 0xa0000080, CBS_init [5] 1)"
proof -
  have "wf_cbs (CBS_init [0xbf, 0x81, 0x00, 5] 4)" by code_simp
  then show ?thesis by (rule iffD2 [OF asn1_tag_iff]) code_simp
qed

text \<open>C11: unsigned INTEGER. The reader returns \<open>v\<close> if and only if the input begins with the DER
  INTEGER whose contents are the shortest two's complement encoding of \<open>v\<close>; so negative, padded
  and too large encodings are rejected and every 64-bit value is accepted.\<close>

theorem asn1_uint64_iff:
  assumes "wf_cbs c"
  shows "CBS_get_asn1_uint64 c = (Some v, c') \<longleftrightarrow>
    cbs_bytes c = der_element (CBS_ASN1_INTEGER, der_int (uint v)) @ cbs_bytes c' \<and>
    c' = advance c (length (der_element (CBS_ASN1_INTEGER, der_int (uint v))))"
  using asn1_uint64.reads_iff [OF assms] by simp

theorem asn1_uint64_iff_witness:
  "CBS_get_asn1_uint64 (CBS_init [2, 2, 0, 0x80, 9] 5) = (Some 128, CBS_init [9] 1)"
proof -
  have "wf_cbs (CBS_init [2, 2, 0, 0x80, 9] 5)" by code_simp
  then show ?thesis by (rule iffD2 [OF asn1_uint64_iff]) code_simp
qed

text \<open>C12: signed INTEGER. The union of eight bytes that the reader fills from the end yields the
  two's complement value: \<open>v\<close> is returned if and only if the input begins with the minimal DER
  INTEGER of the signed value of \<open>v\<close>.\<close>

theorem asn1_int64_iff:
  assumes "wf_cbs c"
  shows "CBS_get_asn1_int64 c = (Some v, c') \<longleftrightarrow>
    cbs_bytes c = der_element (CBS_ASN1_INTEGER, der_int (sint v)) @ cbs_bytes c' \<and>
    c' = advance c (length (der_element (CBS_ASN1_INTEGER, der_int (sint v))))"
  using asn1_int64.reads_iff [OF assms] by simp

theorem asn1_int64_iff_witness:
  "CBS_get_asn1_int64 (CBS_init [2, 2, 0xff, 0x7f, 9] 5) = (Some (- 129), CBS_init [9] 1)"
proof -
  have "wf_cbs (CBS_init [2, 2, 0xff, 0x7f, 9] 5)" by code_simp
  then show ?thesis by (rule iffD2 [OF asn1_int64_iff]) code_simp
qed

text \<open>BOOLEAN. Exactly the one-byte bodies \<open>0x00\<close> and \<open>0xff\<close> are accepted.\<close>

theorem asn1_bool_iff:
  assumes "wf_cbs c"
  shows "CBS_get_asn1_bool c = (Some b, c') \<longleftrightarrow>
    (b = 0 \<or> b = 1) \<and> cbs_bytes c = [1, 1, if b = 0 then 0 else 0xff] @ cbs_bytes c' \<and> c' = advance c 3"
proof -
  have "der_element (CBS_ASN1_BOOLEAN, enc_bool b) = [1, 1, if b = 0 then 0 else 0xff]"
    by (simp add: der_element_def der_tag_def der_len_def CBS_ASN1_BOOLEAN_def enc_bool_def Let_def)
  then show ?thesis using asn1_bool.reads_iff [OF assms, of b c'] by (simp add: eval_nat_numeral)
qed

theorem asn1_bool_iff_witness:
  "CBS_get_asn1_bool (CBS_init [1, 1, 0xff, 9] 4) = (Some 1, CBS_init [9] 1)"
proof -
  have "wf_cbs (CBS_init [1, 1, 0xff, 9] 4)" by code_simp
  then show ?thesis by (rule iffD2 [OF asn1_bool_iff]) code_simp
qed

text \<open>C13: BIT STRING. A bit that \<open>CBS_asn1_bitstring_has_bit\<close> reports as set is one of the bits the
  string has: its index is below eight times the number of content bytes less the unused bits
  that the leading byte announces, so padding bits are never read as set.\<close>

theorem bitstring_bit_in_range:
  assumes "wf_cbs c" and "CBS_asn1_bitstring_has_bit c i"
  shows "unat i + unat (hd (cbs_bytes c)) < 8 * (length (cbs_bytes c) - 1)"
  by (rule has_bit_in_range [OF assms])

theorem bitstring_bit_in_range_witness:
  "CBS_asn1_bitstring_has_bit (CBS_init [4, 0x50] 2) 3 \<and> 3 + unat (4 :: u8) < 8 * (2 - 1)"
proof -
  have wf: "wf_cbs (CBS_init [4, 0x50] 2)" and b: "CBS_asn1_bitstring_has_bit (CBS_init [4, 0x50] 2) 3"
    by code_simp+
  from bitstring_bit_in_range [OF wf b] b show ?thesis by simp
qed

text \<open>C14: OPTIONAL with a default. The default is returned, and nothing consumed, exactly when the
  next tag differs; otherwise the element must hold one DER INTEGER and nothing else, and its value
  is returned.\<close>

theorem optional_uint64_cases:
  assumes "wf_cbs c"
  shows "CBS_get_optional_asn1_uint64 c t d = (Some v, c') \<longleftrightarrow>
    (if \<exists>rest. cbs_bytes c = der_tag t @ rest
     then cbs_bytes c = der_element (t, der_element (CBS_ASN1_INTEGER, der_int (uint v))) @ cbs_bytes c' \<and>
       c' = advance c (length (der_element (t, der_element (CBS_ASN1_INTEGER, der_int (uint v)))))
     else v = d \<and> c' = c)"
proof (cases "CBS_peek_asn1_tag c t")
  case False
  then show ?thesis
    using peek_iff [OF assms, of t]
    by (auto simp: CBS_get_optional_asn1_uint64_def CBS_get_optional_asn1_def)
next
  case True
  then show ?thesis
    using peek_iff [OF assms, of t] optional_uint64_present [OF assms True] by simp
qed

theorem optional_uint64_cases_witness:
  "CBS_get_optional_asn1_uint64 (CBS_init [0xa0, 3, 2, 1, 5, 9] 6) 0xa0000000 7 = (Some 5, CBS_init [9] 1) \<and>
   CBS_get_optional_asn1_uint64 (CBS_init [9] 1) 0xa0000000 7 = (Some 7, CBS_init [9] 1)"
proof -
  have wf: "wf_cbs (CBS_init [0xa0, 3, 2, 1, 5, 9] 6)" "wf_cbs (CBS_init [9] 1)" by code_simp+
  have p: "(\<exists>rest. cbs_bytes (CBS_init [0xa0, 3, 2, 1, 5, 9] 6) = der_tag 0xa0000000 @ rest)"
    and n: "\<not> (\<exists>rest. cbs_bytes (CBS_init [9] 1) = der_tag 0xa0000000 @ rest)"
    by (simp_all add: der_tag_def Let_def)
  have e: "cbs_bytes (CBS_init [0xa0, 3, 2, 1, 5, 9] 6) =
      der_element (0xa0000000, der_element (CBS_ASN1_INTEGER, der_int (uint (5 :: u64)))) @ cbs_bytes (CBS_init [9] 1)"
    "CBS_init [9] 1 = advance (CBS_init [0xa0, 3, 2, 1, 5, 9] 6)
       (length (der_element (0xa0000000, der_element (CBS_ASN1_INTEGER, der_int (uint (5 :: u64))))))"
    by code_simp+
  have "CBS_get_optional_asn1_uint64 (CBS_init [0xa0, 3, 2, 1, 5, 9] 6) 0xa0000000 7 = (Some 5, CBS_init [9] 1)"
    by (rule iffD2 [OF optional_uint64_cases [OF wf(1)]], subst if_P [OF p], rule conjI [OF e])
  moreover have "CBS_get_optional_asn1_uint64 (CBS_init [9] 1) 0xa0000000 7 = (Some 7, CBS_init [9] 1)"
    by (rule iffD2 [OF optional_uint64_cases [OF wf(2)]], subst if_not_P [OF n], rule conjI [OF refl refl])
  ultimately show ?thesis by (rule conjI)
qed

end
