(* ===== verification/CBB_Programs.thy ===== *)
theory CBB_Programs
  imports CBB_Calls Readers
begin

text \<open>
  Programs over one builder: any sequence of calls on any of its live \<open>CBB\<close>s, its meaning on the
  abstract levels, what \<open>CBB_finish\<close> returns, and the round trips with the parser.
\<close>

section \<open>Fixed-width integers and prefixes\<close>

lemma uint_call:
  assumes "1 \<le> n" and "n \<le> 8"
  shows "builder_call (CBB_add_uint env d v n) (append_option d (if unat v < 256 ^ n then Some (be_bytes n (unat v)) else None)) d"
  using appender.is_call [OF uint_appender [OF assms, of env v], of env d]
  by (simp add: CBB_add_uint_def [abs_def])

section \<open>Programs\<close>

datatype cbb_op =
    Flush nat
  | U8 nat u8 | U16 nat u16 | U24 nat u32 | U32 nat u32 | U64 nat u64
  | Bytes nat bytes
  | U8_prefixed nat | U16_prefixed nat | U24_prefixed nat
  | Asn1 nat u32
  | Asn1_uint64 nat u64 | Asn1_int64 nat u64 | Asn1_octet_string nat bytes | Asn1_bool nat int

fun exec :: "mem_env \<Rightarrow> cbb_op \<Rightarrow> cbb_state \<Rightarrow> (unit, cbb_state) outcome" where
  "exec env (Flush d) = CBB_flush env d"
| "exec env (U8 d v) = CBB_add_u8 env d v"
| "exec env (U16 d v) = CBB_add_u16 env d v"
| "exec env (U24 d v) = CBB_add_u24 env d v"
| "exec env (U32 d v) = CBB_add_u32 env d v"
| "exec env (U64 d v) = CBB_add_u64 env d v"
| "exec env (Bytes d bs) = CBB_add_bytes env d bs (length bs)"
| "exec env (U8_prefixed d) = CBB_add_u8_length_prefixed env d"
| "exec env (U16_prefixed d) = CBB_add_u16_length_prefixed env d"
| "exec env (U24_prefixed d) = CBB_add_u24_length_prefixed env d"
| "exec env (Asn1 d tag) = CBB_add_asn1 env d tag"
| "exec env (Asn1_uint64 d v) = CBB_add_asn1_uint64 env d v"
| "exec env (Asn1_int64 d v) = CBB_add_asn1_int64 env d v"
| "exec env (Asn1_octet_string d bs) = CBB_add_asn1_octet_string env d bs (length bs)"
| "exec env (Asn1_bool d b) = CBB_add_asn1_bool env d b"

text \<open>What the call does to the levels.\<close>

fun op_levels :: "cbb_op \<Rightarrow> levels \<Rightarrow> levels option" where
  "op_levels (Flush d) = flush_levels d"
| "op_levels (U8 d v) = append_levels d [v]"
| "op_levels (U16 d v) = append_levels d (be_bytes 2 (unat v))"
| "op_levels (U24 d v) = append_option d (if unat v < 256 ^ 3 then Some (be_bytes 3 (unat v)) else None)"
| "op_levels (U32 d v) = append_levels d (be_bytes 4 (unat v))"
| "op_levels (U64 d v) = append_levels d (be_bytes 8 (unat v))"
| "op_levels (Bytes d bs) = append_levels d bs"
| "op_levels (U8_prefixed d) = open_levels d (Prefixed 1)"
| "op_levels (U16_prefixed d) = open_levels d (Prefixed 2)"
| "op_levels (U24_prefixed d) = open_levels d (Prefixed 3)"
| "op_levels (Asn1 d tag) = asn1_levels d tag"
| "op_levels (Asn1_uint64 d v) = append_levels d (der_element (CBS_ASN1_INTEGER, der_int (uint v)))"
| "op_levels (Asn1_int64 d v) = append_levels d (der_element (CBS_ASN1_INTEGER, der_int (sint v)))"
| "op_levels (Asn1_octet_string d bs) = append_option d (element_bytes CBS_ASN1_OCTETSTRING bs)"
| "op_levels (Asn1_bool d b) = append_levels d [1, 1, if b \<noteq> 0 then 0xff else 0]"

fun op_depth :: "cbb_op \<Rightarrow> nat" where
  "op_depth (Flush d) = d" | "op_depth (U8 d v) = d" | "op_depth (U16 d _) = d" | "op_depth (U24 d _) = d"
| "op_depth (U32 d _) = d" | "op_depth (U64 d _) = d" | "op_depth (Bytes d _) = d" | "op_depth (U8_prefixed d) = d"
| "op_depth (U16_prefixed d) = d" | "op_depth (U24_prefixed d) = d" | "op_depth (Asn1 d _) = d"
| "op_depth (Asn1_uint64 d _) = d" | "op_depth (Asn1_int64 d _) = d" | "op_depth (Asn1_octet_string d _) = d"
| "op_depth (Asn1_bool d _) = d"

text \<open>The data of a call is an object in memory.\<close>

fun op_ok :: "cbb_op \<Rightarrow> bool" where
  "op_ok (Bytes _ bs) = (length bs < PTRDIFF_LIMIT)"
| "op_ok (Asn1_octet_string _ bs) = (length bs < PTRDIFF_LIMIT)"
| "op_ok _ = True"

lemma append_option_Some: "append_option d (Some x) = append_levels d x"
  by (rule ext) (simp add: append_option_def)

lemma op_call:
  assumes "op_ok p"
  shows "builder_call (exec env p) (op_levels p) (op_depth p)"
proof (cases p)
  case (U16 d v)
  have "unat v < 256 ^ 2" using unsigned_less [of v, where ?'a = nat] by simp
  then show ?thesis using U16 uint_call [of 2 env d "ucast v"]
    by (simp add: CBB_add_u16_def [abs_def] append_option_Some unat_ucast_up)
next
  case (U24 d v)
  have "unat (ucast v :: u64) = unat v" by (simp add: unat_ucast_up)
  then show ?thesis using U24 uint_call [of 3 env d "ucast v"]
    by (simp add: CBB_add_u24_def [abs_def] cong del: if_weak_cong)
next
  case (U32 d v)
  have "unat v < 256 ^ 4" using unsigned_less [of v, where ?'a = nat] by simp
  then show ?thesis using U32 uint_call [of 4 env d "ucast v"]
    by (simp add: CBB_add_u32_def [abs_def] append_option_Some unat_ucast_up)
next
  case (U64 d v)
  have "unat v < 256 ^ 8" using unsigned_less [of v, where ?'a = nat] by simp
  then show ?thesis using U64 uint_call [of 8 env d v]
    by (simp add: CBB_add_u64_def [abs_def] append_option_Some)
qed (use assms u8_call bytes_call flush.builder_call_axioms prefix_call [of 1] prefix_call [of 2] prefix_call [of 3]
      asn1_call uint64_call int64_call octet_string_call bool_call in
    \<open>simp_all add: append_option_Some CBB_add_u8_length_prefixed_def [abs_def] CBB_add_u16_length_prefixed_def [abs_def]
      CBB_add_u24_length_prefixed_def [abs_def]\<close>)

fun run :: "mem_env \<Rightarrow> cbb_op list \<Rightarrow> cbb_state \<Rightarrow> (unit, cbb_state) outcome" where
  "run env [] s = (Some (), s)"
| "run env (p # ps) s = and_then (exec env p s) (\<lambda>_ s. run env ps s)"

fun run_levels :: "cbb_op list \<Rightarrow> levels \<Rightarrow> levels option" where
  "run_levels [] ls = Some ls"
| "run_levels (p # ps) ls =
     (if op_depth p < length ls then Option.bind (op_levels p ls) (run_levels ps) else None)"

text \<open>A call on a \<open>CBB\<close> that is no longer live fails without effect.\<close>

lemma flush_dead: "length (cbb_frames s) \<le> d \<Longrightarrow> CBB_flush env d s = (None, s)"
  by (simp add: CBB_flush_def)

lemma exec_dead: "length (cbb_frames s) \<le> op_depth p \<Longrightarrow> exec env p s = (None, s)"
  by (cases p) (simp_all add: flush_dead CBB_add_u8_def CBB_add_u16_def CBB_add_u24_def CBB_add_u32_def CBB_add_u64_def
      CBB_add_uint_def CBB_add_bytes_def CBB_add_u8_length_prefixed_def CBB_add_u16_length_prefixed_def
      CBB_add_u24_length_prefixed_def cbb_add_length_prefixed_def CBB_add_asn1_def CBB_add_asn1_uint64_def
      CBB_add_asn1_int64_def CBB_add_asn1_octet_string_def CBB_add_asn1_bool_def)

lemma run_refines:
  "wf_cbb s \<Longrightarrow> \<not> cbb_failed s \<Longrightarrow> list_all op_ok ps \<Longrightarrow> run env ps s = (Some (), s') \<Longrightarrow>
   wf_cbb s' \<and> \<not> cbb_failed s' \<and> run_levels ps (cbb_abs s) = Some (cbb_abs s')"
proof (induction ps arbitrary: s)
  case (Cons p ps)
  then obtain s1 where s1: "exec env p s = (Some (), s1)" and r: "run env ps s1 = (Some (), s')"
    by (auto simp: and_then_Some)
  have d: "op_depth p < length (cbb_frames s)" by (rule ccontr) (use exec_dead [of s p env] s1 in simp)
  have c: "builder_call (exec env p) (op_levels p) (op_depth p)" using Cons.prems(3) by (intro op_call) simp
  from builder_call.refines [OF c Cons.prems(1) d s1]
  have "wf_cbb s1" "\<not> cbb_failed s1" "op_levels p (cbb_abs s) = Some (cbb_abs s1)" by simp_all
  with Cons.IH [OF _ _ _ r] Cons.prems d show ?case by (simp add: frames_wf)
qed simp

lemma run_grows:
  "list_all op_ok ps \<Longrightarrow> run_levels ps ls = Some ls' \<Longrightarrow> level_size ls \<le> level_size ls'"
proof (induction ps arbitrary: ls)
  case (Cons p ps)
  then obtain l1 where l1: "op_levels p ls = Some l1" "run_levels ps l1 = Some ls'"
    by (auto simp: bind_eq_Some_conv split: if_splits)
  have c: "builder_call (exec env p) (op_levels p) (op_depth p)" for env using Cons.prems(1) by (intro op_call) simp
  show ?case using builder_call.grows [OF c l1(1)] Cons.IH [OF _ l1(2)] Cons.prems(1) by simp
qed simp

lemma run_fits:
  "wf_cbb s \<Longrightarrow> \<not> cbb_failed s \<Longrightarrow> list_all op_ok ps \<Longrightarrow> run_levels ps (cbb_abs s) = Some ls \<Longrightarrow>
   level_size ls \<le> cbb_cap s \<Longrightarrow> fst (run env ps s) = Some ()"
proof (induction ps arbitrary: s)
  case (Cons p ps)
  then obtain l1 where d: "op_depth p < length (cbb_frames s)" and l1: "op_levels p (cbb_abs s) = Some l1" "run_levels ps l1 = Some ls"
    by (auto simp: bind_eq_Some_conv frames_wf split: if_splits)
  have c: "builder_call (exec env p) (op_levels p) (op_depth p)" using Cons.prems(3) by (intro op_call) simp
  have "level_size l1 \<le> level_size ls" using run_grows [OF _ l1(2)] Cons.prems(3) by simp
  then have "fst (exec env p s) = Some ()"
    using builder_call.fits [OF c Cons.prems(1) d Cons.prems(2) l1(1)] Cons.prems(5) by simp
  then obtain s1 where s1: "exec env p s = (Some (), s1)" by (metis prod.collapse)
  from builder_call.refines [OF c Cons.prems(1) d s1] l1(1)
  have "wf_cbb s1" "\<not> cbb_failed s1" "cbb_extends s s1" "l1 = cbb_abs s1" by simp_all
  with Cons.IH [of s1] l1(2) Cons.prems(3,5) cbb_extends_cap [of s s1] show ?case by (simp add: s1)
qed simp


section \<open>From initialisation to the finished string\<close>

definition fresh_levels :: levels where
  "fresh_levels = [(Root, [])]"

lemma init_wf:
  assumes "CBB_init env n = (Some (), s)" and "n < PTRDIFF_LIMIT"
  shows "wf_cbb s \<and> \<not> cbb_failed s \<and> cbb_abs s = fresh_levels \<and> cbb_cap s = n"
proof -
  have small: "n < SIZE_LIMIT - OPENSSL_MALLOC_PREFIX"
    using assms(2) by (simp add: PTRDIFF_LIMIT_def SIZE_LIMIT_def OPENSSL_MALLOC_PREFIX_def)
  then have "n + OPENSSL_MALLOC_PREFIX < PTRDIFF_LIMIT \<and> length b = n" if "OPENSSL_malloc env n = Some b" for b
    using OPENSSL_malloc_length [OF small that] by simp
  with assms show ?thesis
    by (auto simp: CBB_init_def cbb_init_def CBB_zero_def wf_cbb_def wf_buffer_def cbb_failed_def cbb_abs_def
        cbb_cap_def fresh_levels_def seg_def OPENSSL_MALLOC_PREFIX_def PTRDIFF_LIMIT_def split: option.splits if_splits)
qed

lemma init_fixed_wf:
  assumes "CBB_init_fixed env b n = (Some (), s)" and "length b = n" and "n < PTRDIFF_LIMIT"
  shows "wf_cbb s \<and> \<not> cbb_failed s \<and> cbb_abs s = fresh_levels \<and> cbb_cap s = n \<and>
    cbb_base s = Some \<lparr>buf = b, blen = 0, cap = n, can_resize = False, error = False\<rparr>"
  using assms
  by (auto simp: CBB_init_fixed_def cbb_init_def CBB_zero_def wf_cbb_def wf_buffer_def cbb_failed_def cbb_abs_def
      cbb_cap_def fresh_levels_def seg_def split: option.splits)

text \<open>\<open>CBB_finish\<close> on the root returns the buffer and the length of the collapsed levels.\<close>

lemma finish_output:
  assumes s: "wf_cbb s" and f: "CBB_finish env 0 True True s = (Some (Some out, Some n), s')"
  shows "collapse (cbb_abs s) = Some (take n out) \<and> n \<le> length out"
proof -
  have d: "0 < length (cbb_frames s)" using s by (auto simp: wf_cbb_def split: option.splits list.splits)
  obtain s1 b where s1: "CBB_flush env 0 s = (Some (), s1)" and b: "cbb_base s1 = Some b" "out = buf b" "n = blen b"
    using f by (auto simp: CBB_finish_def and_then_Some split: if_splits option.splits)
  note r = flush.refines [OF s d s1]
  have "length (cbb_frames s1) = 1" using flushed_frames [OF s d s1] by simp
  then obtain x where fr: "cbb_frames s1 = [x]" by (cases "cbb_frames s1") auto
  have "cbb_abs s1 = [(Root, take n out)]" "blen b \<le> length (buf b)"
    using r b fr by (auto simp: cbb_abs_def seg_def wf_cbb_def wf_buffer_def)
  then show ?thesis using r b by (auto simp: flush_levels_def)
qed

lemma finish_fits:
  assumes s: "wf_cbb s" "\<not> cbb_failed s" and c: "collapse (cbb_abs s) = Some c" "length c \<le> cbb_cap s"
  shows "\<exists>out s'. CBB_finish env 0 True True s = (Some (Some out, Some (length c)), s') \<and> take (length c) out = c"
proof -
  have d: "0 < length (cbb_frames s)" using s(1) by (auto simp: wf_cbb_def split: option.splits list.splits)
  have root: "\<not> is_child (cbb_frames s ! 0)" using s(1) by (auto simp: wf_cbb_def split: option.splits list.splits)
  have "flush_levels 0 (cbb_abs s) = Some [(fst (cbb_abs s ! 0), c)]" by (simp add: flush_levels_def c(1))
  from flush.fits [OF s(1) d s(2) this, of env] c(2) have "fst (CBB_flush env 0 s) = Some ()" by simp
  then obtain s1 where s1: "CBB_flush env 0 s = (Some (), s1)" by (metis prod.collapse)
  note r = flush.refines [OF s(1) d s1]
  from r obtain b where b: "cbb_base s1 = Some b" by (auto simp: wf_cbb_def split: option.splits)
  have f: "CBB_finish env 0 True True s = (Some (Some (buf b), Some (blen b)), CBB_cleanup 0 s1)"
    using d root by (simp add: CBB_finish_def s1 b)
  from finish_output [OF s(1) f] c(1) have "c = take (blen b) (buf b)" "blen b \<le> length (buf b)" by simp_all
  then show ?thesis using f by (intro exI [of _ "buf b"] exI [of _ "CBB_cleanup 0 s1"]) simp
qed

section \<open>What a program keeps\<close>

lemma wf_cbb_base:
  "wf_cbb s \<Longrightarrow> \<exists>b f fs. s = \<lparr>cbb_base = Some b, cbb_frames = f # fs\<rparr> \<and> wf_buffer b \<and> chain_ok b 0 fs \<and>
     offset f = 0 \<and> pending_len_len f = 0 \<and> \<not> is_child f"
  by (cases s) (auto simp: wf_cbb_def split: option.splits list.splits)

lemma wf_cbb_grow:
  assumes "wf_cbb s" and "cbb_base s = Some b" and "wf_buffer b'" and "blen b \<le> blen b'"
  shows "wf_cbb (s\<lparr>cbb_base := Some b'\<rparr>)"
proof -
  obtain b0 f fs where s: "s = \<lparr>cbb_base = Some b0, cbb_frames = f # fs\<rparr>" and w: "chain_ok b0 0 fs"
    "offset f = 0" "pending_len_len f = 0" "\<not> is_child f"
    using wf_cbb_base [OF assms(1)] by blast
  have "chain_ok b' 0 fs" using chain_ok_grow [OF w(1)] assms(2,4) s by simp
  then show ?thesis using s w assms(3) by (simp add: wf_cbb_def)
qed

lemma cbb_extends_refl: "wf_cbb s \<Longrightarrow> cbb_extends s s"
  using wf_cbb_base [of s] by (auto simp: cbb_extends_def)

lemma exec_keeps:
  assumes p: "op_ok p" and s: "wf_cbb s"
  shows "wf_cbb (snd (exec env p s)) \<and> cbb_extends s (snd (exec env p s))"
proof (cases "op_depth p < length (cbb_frames s)")
  case True
  note c = op_call [OF p, of env]
  obtain r s1 where s1: "exec env p s = (r, s1)" by fastforce
  then show ?thesis
    using builder_call.refines [OF c s True, of s1] builder_call.fails [OF c s True, of s1] by (cases r) simp_all
next
  case False
  then show ?thesis using exec_dead [of s p env] s cbb_extends_refl by simp
qed

lemma run_extends:
  "wf_cbb s \<Longrightarrow> list_all op_ok ps \<Longrightarrow> run env ps s = (Some (), t) \<Longrightarrow> cbb_extends s t"
proof (induction ps arbitrary: s)
  case (Cons p ps)
  then obtain s1 where s1: "exec env p s = (Some (), s1)" and r: "run env ps s1 = (Some (), t)"
    by (auto simp: and_then_Some)
  have "wf_cbb s1" "cbb_extends s s1" using exec_keeps [of p s env] Cons.prems(1,2) s1 by simp_all
  then show ?case using Cons.IH [OF _ _ r] Cons.prems(2) cbb_extends_trans by simp
qed (simp add: cbb_extends_refl)

lemma run_cap:
  "wf_cbb s \<Longrightarrow> list_all op_ok ps \<Longrightarrow> run env ps s = (Some (), t) \<Longrightarrow> cbb_cap s \<le> cbb_cap t"
  using run_extends cbb_extends_cap by blast

text \<open>A program whose abstract result fits the initial capacity runs to the end.\<close>

lemma program_runs:
  assumes "CBB_init env n = (Some (), s)" and "n < PTRDIFF_LIMIT" and "list_all op_ok ps"
    and "Option.bind (run_levels ps fresh_levels) collapse = Some c" and "length c \<le> n"
  shows "\<exists>t out k u. run env ps s = (Some (), t) \<and>
    CBB_finish env 0 True True t = (Some (Some out, Some k), u) \<and> take k out = c"
proof -
  have w: "wf_cbb s" "\<not> cbb_failed s" "cbb_abs s = fresh_levels" "cbb_cap s = n"
    using init_wf [OF assms(1,2)] by simp_all
  obtain ls where ls: "run_levels ps fresh_levels = Some ls" "collapse ls = Some c"
    using assms(4) by (auto simp: bind_eq_Some_conv)
  have "level_size ls \<le> cbb_cap s" using collapse_grows [OF ls(2)] assms(5) w by simp
  then have "fst (run env ps s) = Some ()" using run_fits [OF w(1,2) assms(3), of ls env] ls(1) w by simp
  then obtain t where t: "run env ps s = (Some (), t)" by (metis prod.collapse)
  have r: "wf_cbb t" "\<not> cbb_failed t" "cbb_abs t = ls"
    using run_refines [OF w(1,2) assms(3) t] ls(1) w by simp_all
  have "cbb_cap s \<le> cbb_cap t" by (rule run_cap [OF w(1) assms(3) t])
  with finish_fits [OF r(1,2), of c env] r(3) ls(2) t w(4) assms(5) show ?thesis by fastforce
qed

section \<open>Properties\<close>

definition any_env :: mem_env where
  "any_env = \<lparr>fits = (\<lambda>_. True), fresh = (\<lambda>_. 0xaa)\<rparr>"

text \<open>C3: the builder refines the abstract levels. If every call of a program succeeds on a new
  builder and \<open>CBB_finish\<close> succeeds, the finished string is what the abstract operations give:
  the bytes appended at each level, and for each child its length, in the fixed number of octets or
  in DER form, in front of its contents.\<close>

theorem cbb_program_output:
  assumes "CBB_init env n = (Some (), s)" and "n < PTRDIFF_LIMIT" and "list_all op_ok ps"
    and "run env ps s = (Some (), t)" and "CBB_finish env 0 True True t = (Some (Some out, Some k), u)"
  shows "Option.bind (run_levels ps fresh_levels) collapse = Some (take k out)"
proof -
  have w: "wf_cbb s" "\<not> cbb_failed s" "cbb_abs s = fresh_levels" using init_wf [OF assms(1,2)] by simp_all
  from run_refines [OF w(1,2) assms(3,4)] w(3) have "wf_cbb t" "run_levels ps fresh_levels = Some (cbb_abs t)"
    by simp_all
  with finish_output [OF _ assms(5)] show ?thesis by simp
qed

definition sample_program :: "cbb_op list" where
  "sample_program = [U16_prefixed 0, Asn1 1 0x20000010, Asn1_uint64 2 300, U8 1 7]"

theorem cbb_program_output_witness:
  "\<exists>t out k u. run any_env sample_program (snd (CBB_init any_env 9)) = (Some (), t) \<and>
     CBB_finish any_env 0 True True t = (Some (Some out, Some k), u) \<and>
     Some [0, 7, 0x30, 4, 2, 2, 1, 0x2c, 7] = Some (take k out)"
proof -
  have i: "CBB_init any_env 9 = (Some (), snd (CBB_init any_env 9))" by code_simp
  have n: "(9::nat) < PTRDIFF_LIMIT" and ok: "list_all op_ok sample_program"
    and c: "Option.bind (run_levels sample_program fresh_levels) collapse = Some [0, 7, 0x30, 4, 2, 2, 1, 0x2c, 7]"
    by code_simp+
  obtain t out k u where r: "run any_env sample_program (snd (CBB_init any_env 9)) = (Some (), t)"
    and f: "CBB_finish any_env 0 True True t = (Some (Some out, Some k), u)"
    using program_runs [OF i n ok c] by auto
  from cbb_program_output [OF i n ok r f] c r f show ?thesis by fastforce
qed

lemma fixed_capacity:
  "cbb_extends s t \<Longrightarrow> cbb_base s = Some b \<Longrightarrow> \<not> can_resize b \<Longrightarrow> cbb_cap t = cap b"
  by (auto simp: cbb_extends_def extends_def cbb_cap_def split: option.splits)

lemma finish_length:
  assumes s: "wf_cbb s" and f: "CBB_finish env 0 True True s = (Some (Some out, Some n), s')"
    and b: "cbb_base s = Some b" "\<not> can_resize b"
  shows "length out = cap b"
proof -
  have d: "0 < length (cbb_frames s)" using s by (auto simp: wf_cbb_def split: option.splits list.splits)
  obtain s1 b1 where s1: "CBB_flush env 0 s = (Some (), s1)" and b1: "cbb_base s1 = Some b1" "out = buf b1"
    using f by (auto simp: CBB_finish_def and_then_Some split: if_splits option.splits)
  have "wf_cbb s1" "cbb_extends s s1" using flush.refines [OF s d s1] by simp_all
  then show ?thesis using b b1 wf_cbb_base [of s1] by (auto simp: cbb_extends_def extends_def wf_buffer_def)
qed

text \<open>C6: a fixed buffer. All calls of a program and \<open>CBB_finish\<close> succeed on a builder over a
  caller's buffer if and only if the abstract program is defined (every length fits its prefix,
  every call is on a live \<open>CBB\<close>) and its result fits the buffer; then the result is what is
  returned, so nothing is truncated and nothing is rejected without need.\<close>

theorem cbb_fixed_program:
  assumes "CBB_init_fixed env m (length m) = (Some (), s)" and "length m < PTRDIFF_LIMIT" and "list_all op_ok ps"
  shows "(\<exists>t out k u. run env ps s = (Some (), t) \<and> CBB_finish env 0 True True t = (Some (Some out, Some k), u) \<and> take k out = c) \<longleftrightarrow>
    Option.bind (run_levels ps fresh_levels) collapse = Some c \<and> length c \<le> length m"
    (is "?lhs \<longleftrightarrow> ?rhs")
proof
  note i = init_fixed_wf [OF assms(1) refl assms(2)]
  assume ?lhs
  then obtain t out k u where t: "run env ps s = (Some (), t)" and f: "CBB_finish env 0 True True t = (Some (Some out, Some k), u)"
    and c: "take k out = c" by blast
  have r: "wf_cbb t" "run_levels ps fresh_levels = Some (cbb_abs t)" and e: "cbb_extends s t"
    using run_refines [OF _ _ assms(3) t] run_extends [OF _ assms(3) t] i by simp_all
  then obtain b where b: "cbb_base t = Some b" "cap b = length m" "\<not> can_resize b"
    using i by (auto simp: cbb_extends_def extends_def split: option.splits)
  show ?rhs using finish_output [OF r(1) f] finish_length [OF r(1) f b(1,3)] b(2) r(2) c by auto
next
  note i = init_fixed_wf [OF assms(1) refl assms(2)]
  assume ?rhs
  then obtain ls where ls: "run_levels ps fresh_levels = Some ls" "collapse ls = Some c" and fit: "length c \<le> length m"
    by (auto simp: bind_eq_Some_conv)
  have "level_size ls \<le> cbb_cap s" using collapse_grows [OF ls(2)] fit i by simp
  then have "fst (run env ps s) = Some ()" using run_fits [OF _ _ assms(3), of s ls env] ls(1) i by simp
  then obtain t where t: "run env ps s = (Some (), t)" by (metis prod.collapse)
  have r: "wf_cbb t" "\<not> cbb_failed t" "cbb_abs t = ls" and e: "cbb_extends s t"
    using run_refines [OF _ _ assms(3) t] run_extends [OF _ assms(3) t] i ls(1) by simp_all
  have "length c \<le> cbb_cap t" using fixed_capacity [OF e] i fit by simp
  with finish_fits [OF r(1,2), of c env] r(3) ls(2) t show ?lhs by fastforce
qed

theorem cbb_fixed_program_witness:
  "(\<exists>t out k u. run any_env [U8_prefixed 0, Bytes 1 [5, 6]] (snd (CBB_init_fixed any_env [0, 0, 0] 3)) = (Some (), t) \<and>
      CBB_finish any_env 0 True True t = (Some (Some out, Some k), u) \<and> take k out = [2, 5, 6])"
proof -
  have "CBB_init_fixed any_env [0, 0, 0] (length [0, 0, 0 :: u8]) = (Some (), snd (CBB_init_fixed any_env [0, 0, 0] 3))"
    by code_simp
  moreover have "length [0, 0, 0 :: u8] < PTRDIFF_LIMIT" "list_all op_ok [U8_prefixed 0, Bytes 1 [5, 6]]" by code_simp+
  ultimately show ?thesis by (rule iffD2 [OF cbb_fixed_program]) code_simp
qed

section \<open>Round trips with the parser\<close>

lemma finish_limit:
  assumes s: "wf_cbb s" and f: "CBB_finish env 0 True True s = (Some (Some out, Some n), s')"
  shows "length out < PTRDIFF_LIMIT"
proof -
  have d: "0 < length (cbb_frames s)" using s by (auto simp: wf_cbb_def split: option.splits list.splits)
  obtain s1 b1 where s1: "CBB_flush env 0 s = (Some (), s1)" and b1: "cbb_base s1 = Some b1" "out = buf b1"
    using f by (auto simp: CBB_finish_def and_then_Some split: if_splits option.splits)
  have "wf_cbb s1" using flush.refines [OF s d s1] by simp
  then show ?thesis using b1 wf_cbb_base [of s1] by (auto simp: wf_buffer_def)
qed

text \<open>The finished string of a program, as a \<open>CBS\<close>.\<close>

lemma program_cbs:
  assumes "CBB_init env n = (Some (), s)" and "n < PTRDIFF_LIMIT" and "list_all op_ok ps"
    and "run env ps s = (Some (), t)" and "CBB_finish env 0 True True t = (Some (Some out, Some k), u)"
    and "Option.bind (run_levels ps fresh_levels) collapse = Some c"
  shows "wf_cbs (CBS_init out k)" "cbs_bytes (CBS_init out k) = c" "k = length c"
proof -
  have w: "wf_cbb s" "\<not> cbb_failed s" "cbb_abs s = fresh_levels" using init_wf [OF assms(1,2)] by simp_all
  from run_refines [OF w(1,2) assms(3,4)] w(3) have t: "wf_cbb t" "run_levels ps fresh_levels = Some (cbb_abs t)"
    by simp_all
  from finish_output [OF t(1) assms(5)] t(2) assms(6) have o: "c = take k out" "k \<le> length out" by simp_all
  have "length out < SIZE_LIMIT" using finish_limit [OF t(1) assms(5)] by (simp add: PTRDIFF_LIMIT_def SIZE_LIMIT_def)
  then show "wf_cbs (CBS_init out k)" "cbs_bytes (CBS_init out k) = c" "k = length c" using o by simp_all
qed

lemma program_cbs_defined:
  assumes "CBB_init env n = (Some (), s)" and "n < PTRDIFF_LIMIT" and "list_all op_ok ps"
    and "run env ps s = (Some (), t)" and "CBB_finish env 0 True True t = (Some (Some out, Some k), u)"
  shows "Option.bind (run_levels ps fresh_levels) collapse \<noteq> None"
proof -
  have w: "wf_cbb s" "\<not> cbb_failed s" "cbb_abs s = fresh_levels" using init_wf [OF assms(1,2)] by simp_all
  from run_refines [OF w(1,2) assms(3,4)] w(3) have t: "wf_cbb t" "run_levels ps fresh_levels = Some (cbb_abs t)"
    by simp_all
  from finish_output [OF t(1) assms(5)] t(2) show ?thesis by simp
qed

text \<open>C5: what \<open>CBB_add_asn1\<close> builds, \<open>CBS_get_any_asn1\<close> takes apart: for every tag and body, the
  element that the builder writes is parsed back to the same tag and body, with nothing left.\<close>

theorem cbb_cbs_element_roundtrip:
  assumes "CBB_init env n = (Some (), s)" and "n < PTRDIFF_LIMIT" and "length body < PTRDIFF_LIMIT"
    and "run env [Asn1 0 tag, Bytes 1 body] s = (Some (), t)"
    and "CBB_finish env 0 True True t = (Some (Some out, Some k), u)"
  shows "\<exists>el rest. CBS_get_any_asn1 (CBS_init out k) = (Some (el, tag), rest) \<and> cbs_bytes el = body \<and> cbs_len rest = 0"
proof -
  let ?ps = "[Asn1 0 tag, Bytes 1 body]"
  have ok: "list_all op_ok ?ps" using assms(3) by simp
  have lv: "run_levels ?ps fresh_levels = Some [(Root, der_tag tag), (Element, body)]"
    by (simp add: fresh_levels_def asn1_levels_def append_levels_def open_levels_def flush_levels_def)
  have "collapse [(Root, der_tag tag), (Element, body)] \<noteq> None"
    using program_cbs_defined [OF assms(1,2) ok assms(4,5)] unfolding lv by simp
  then have len: "length body \<le> 0xfffffffe" by (simp split: if_splits)
  then have c: "Option.bind (run_levels ?ps fresh_levels) collapse = Some (der_element (tag, body))"
    unfolding lv by (simp add: der_element_def)
  note p = program_cbs [OF assms(1,2) ok assms(4,5) c]
  have "length body < 2 ^ 32" "cbs_bytes (CBS_init out k) = der_element (tag, body) @ []" using len p(2) by simp_all
  from CBS_get_any_asn1_complete [OF p(1) this] p(3) show ?thesis by auto
qed

theorem cbb_cbs_element_roundtrip_witness:
  "\<exists>out k. take k out = [0x24, 2, 9, 8] \<and>
     (\<exists>el rest. CBS_get_any_asn1 (CBS_init out k) = (Some (el, 0x20000004), rest) \<and> cbs_bytes el = [9, 8] \<and> cbs_len rest = 0)"
proof -
  let ?ps = "[Asn1 0 0x20000004, Bytes 1 [9, 8]]"
  have i: "CBB_init any_env 4 = (Some (), snd (CBB_init any_env 4))" by code_simp
  have n: "(4::nat) < PTRDIFF_LIMIT" and ok: "list_all op_ok ?ps"
    and c: "Option.bind (run_levels ?ps fresh_levels) collapse = Some [0x24, 2, 9, 8]"
    by code_simp+
  have le: "length ([0x24, 2, 9, 8] :: bytes) \<le> 4" by simp
  obtain t out k u where r: "run any_env ?ps (snd (CBB_init any_env 4)) = (Some (), t)"
    and f: "CBB_finish any_env 0 True True t = (Some (Some out, Some k), u)" and o: "take k out = [0x24, 2, 9, 8]"
    using program_runs [OF i n ok c le] by blast
  have "length [9, 8 :: u8] < PTRDIFF_LIMIT" by code_simp
  from cbb_cbs_element_roundtrip [OF i n this r f] o show ?thesis by blast
qed

lemma get_u_be:
  assumes "wf_cbs c" and "cbs_bytes c = be_bytes n v @ r" and "n \<le> 8" and "v < 256 ^ n"
  shows "cbs_get_u c n = (Some (of_nat v), advance c n) \<and> cbs_bytes (advance c n) = r \<and> wf_cbs (advance c n)"
proof -
  have "length (cbs_bytes c) = n + length r" by (simp add: assms(2))
  then have le: "n \<le> cbs_len c" using assms(1) by simp
  have "be_word (be_bytes n v) = (of_nat v :: u64)"
    using assms(4) by (subst be_word_of_nat) (simp_all add: be_val_be_bytes)
  then show ?thesis using le assms by (simp add: cbs_get_u_eq take_data not_less)
qed

lemma ucast_u64_back:
  fixes x :: "'a::len word"
  assumes "LENGTH('a) \<le> 64"
  shows "ucast (ucast x :: u64) = x"
  by (rule bit_word_eqI) (use assms in \<open>auto simp: bit_simps dest: bit_imp_le_length\<close>)

text \<open>C9: fixed-width integers. The bytes the builder writes for integers of 8, 16, 24, 32 and 64
  bits are read back by the parser's functions of the same widths, in order, to the same values,
  and a 24-bit write fails rather than dropping high bits.\<close>

theorem cbb_cbs_integer_roundtrip:
  assumes "CBB_init env n = (Some (), s)" and "n < PTRDIFF_LIMIT"
    and "run env [U8 0 a, U16 0 b, U24 0 c, U32 0 d, U64 0 e] s = (Some (), t)"
    and "CBB_finish env 0 True True t = (Some (Some out, Some k), u)"
  shows "\<exists>c1 c2 c3 c4 c5. CBS_get_u8 (CBS_init out k) = (Some a, c1) \<and> CBS_get_u16 c1 = (Some b, c2) \<and>
    CBS_get_u24 c2 = (Some c, c3) \<and> CBS_get_u32 c3 = (Some d, c4) \<and> CBS_get_u64 c4 = (Some e, c5) \<and>
    cbs_len c5 = 0"
proof -
  let ?ps = "[U8 0 a, U16 0 b, U24 0 c, U32 0 d, U64 0 e]"
  have ok: "list_all op_ok ?ps" by simp
  have "Option.bind (run_levels ?ps fresh_levels) collapse \<noteq> None"
    by (rule program_cbs_defined [OF assms(1,2) ok assms(3,4)])
  then have c24: "unat c < 256 ^ 3"
    by (rule contrapos_np) (simp add: fresh_levels_def append_levels_def append_option_def flush_levels_def bind_eq_None_conv)
  let ?out = "[a] @ be_bytes 2 (unat b) @ be_bytes 3 (unat c) @ be_bytes 4 (unat d) @ be_bytes 8 (unat e) @ []"
  have "Option.bind (run_levels ?ps fresh_levels) collapse = Some ?out"
    using c24 by (simp add: fresh_levels_def append_levels_def append_option_def flush_levels_def del: be_bytes.simps)
  note p = program_cbs [OF assms(1,2) ok assms(3,4) this]
  define c0 where "c0 = CBS_init out k"
  have w0: "wf_cbs c0" "cbs_bytes c0 = ?out" "cbs_len c0 = 18" using p by (simp_all add: c0_def)
  have lt: "unat b < 256 ^ 2" "unat d < 256 ^ 4" "unat e < 256 ^ 8"
    using unsigned_less [of b, where ?'a = nat] unsigned_less [of d, where ?'a = nat] unsigned_less [of e, where ?'a = nat]
    by simp_all
  have "cbs_data c0 ! 0 = a" using nth_data [of 0 c0] w0 by simp
  then have r1: "CBS_get_u8 c0 = (Some a, advance c0 1)" and w1: "wf_cbs (advance c0 1)" and b1: "cbs_bytes (advance c0 1) =
      be_bytes 2 (unat b) @ be_bytes 3 (unat c) @ be_bytes 4 (unat d) @ be_bytes 8 (unat e) @ []"
    using w0 by (simp_all add: CBS_get_u8_advance)
  from get_u_be [OF w1 b1 _ lt(1)] have r2: "cbs_get_u (advance c0 1) 2 = (Some (of_nat (unat b)), advance c0 3)" "wf_cbs (advance c0 3)"
    "cbs_bytes (advance c0 3) = be_bytes 3 (unat c) @ be_bytes 4 (unat d) @ be_bytes 8 (unat e) @ []" by (simp_all add: numeral_3_eq_3)
  from get_u_be [OF r2(2,3) _ c24] have r3: "cbs_get_u (advance c0 3) 3 = (Some (of_nat (unat c)), advance c0 6)" "wf_cbs (advance c0 6)"
    "cbs_bytes (advance c0 6) = be_bytes 4 (unat d) @ be_bytes 8 (unat e) @ []" by simp_all
  from get_u_be [OF r3(2,3) _ lt(2)] have r4: "cbs_get_u (advance c0 6) 4 = (Some (of_nat (unat d)), advance c0 10)" "wf_cbs (advance c0 10)"
    "cbs_bytes (advance c0 10) = be_bytes 8 (unat e) @ []" by simp_all
  from get_u_be [OF r4(2,3) _ lt(3)] have r5: "cbs_get_u (advance c0 10) 8 = (Some (of_nat (unat e)), advance c0 18)" by simp
  have u: "ucast (of_nat (unat b) :: u64) = b" "ucast (of_nat (unat c) :: u64) = c" "ucast (of_nat (unat d) :: u64) = d"
    "(of_nat (unat e) :: u64) = e"
    by (simp_all add: of_nat_unat ucast_u64_back)
  show ?thesis unfolding c0_def [symmetric]
    using r1 w0(3) by (simp add: CBS_get_u16_def CBS_get_u24_def CBS_get_u32_def CBS_get_u64_def r2 [simplified] r3 r4 r5 u ucast_u64_back)
qed

theorem cbb_cbs_integer_roundtrip_witness:
  "\<exists>out k. take k out = [1, 0, 2, 0, 0, 3, 0, 0, 0, 4, 0, 0, 0, 0, 0, 0, 0, 5] \<and>
     (\<exists>c1 c2 c3 c4 c5. CBS_get_u8 (CBS_init out k) = (Some 1, c1) \<and> CBS_get_u16 c1 = (Some 2, c2) \<and>
       CBS_get_u24 c2 = (Some 3, c3) \<and> CBS_get_u32 c3 = (Some 4, c4) \<and> CBS_get_u64 c4 = (Some 5, c5) \<and> cbs_len c5 = 0)"
proof -
  let ?ps = "[U8 0 1, U16 0 2, U24 0 3, U32 0 4, U64 0 5]"
  have i: "CBB_init any_env 18 = (Some (), snd (CBB_init any_env 18))" by code_simp
  have n: "(18::nat) < PTRDIFF_LIMIT" and ok: "list_all op_ok ?ps"
    and c: "Option.bind (run_levels ?ps fresh_levels) collapse = Some [1, 0, 2, 0, 0, 3, 0, 0, 0, 4, 0, 0, 0, 0, 0, 0, 0, 5]"
    by code_simp+
  have le: "length ([1, 0, 2, 0, 0, 3, 0, 0, 0, 4, 0, 0, 0, 0, 0, 0, 0, 5] :: bytes) \<le> 18" by simp
  obtain t out k u where r: "run any_env ?ps (snd (CBB_init any_env 18)) = (Some (), t)"
    and f: "CBB_finish any_env 0 True True t = (Some (Some out, Some k), u)" and o: "take k out = [1, 0, 2, 0, 0, 3, 0, 0, 0, 4, 0, 0, 0, 0, 0, 0, 0, 5]"
    using program_runs [OF i n ok c le] by blast
  from cbb_cbs_integer_roundtrip [OF i n r f] o show ?thesis by blast
qed

text \<open>C8: ASN.1 values. What \<open>CBB_add_asn1_uint64\<close>, \<open>CBB_add_asn1_int64\<close> and
  \<open>CBB_add_asn1_bool\<close> write, the parser's readers of the same types return: every unsigned and
  signed 64-bit value and both booleans survive, through the writers' loops that skip leading
  zero or sign bytes and the readers' checks for minimal encodings.\<close>

theorem cbb_cbs_asn1_value_roundtrip:
  assumes "CBB_init env n = (Some (), s)" and "n < PTRDIFF_LIMIT"
    and "run env [Asn1_uint64 0 v, Asn1_int64 0 w, Asn1_bool 0 b] s = (Some (), t)"
    and "CBB_finish env 0 True True t = (Some (Some out, Some k), u)"
  shows "\<exists>c1 c2 c3. CBS_get_asn1_uint64 (CBS_init out k) = (Some v, c1) \<and> CBS_get_asn1_int64 c1 = (Some w, c2) \<and>
    CBS_get_asn1_bool c2 = (Some (if b = 0 then 0 else 1), c3) \<and> cbs_len c3 = 0"
proof -
  let ?ps = "[Asn1_uint64 0 v, Asn1_int64 0 w, Asn1_bool 0 b]"
  let ?v = "der_element (CBS_ASN1_INTEGER, der_int (uint v))" and ?w = "der_element (CBS_ASN1_INTEGER, der_int (sint w))"
  let ?b = "der_element (CBS_ASN1_BOOLEAN, enc_bool (if b = 0 then 0 else 1))"
  have ok: "list_all op_ok ?ps" by simp
  have eb: "?b = [1, 1, if b \<noteq> 0 then 0xff else 0]"
    by (simp add: der_element_def der_tag_def der_len_def CBS_ASN1_BOOLEAN_def enc_bool_def Let_def)
  have "Option.bind (run_levels ?ps fresh_levels) collapse = Some (?v @ ?w @ ?b)"
    unfolding eb by (simp add: fresh_levels_def append_levels_def flush_levels_def)
  note p = program_cbs [OF assms(1,2) ok assms(3,4) this]
  define c0 where "c0 = CBS_init out k"
  define c1 where "c1 = advance c0 (length ?v)"
  define c2 where "c2 = advance c1 (length ?w)"
  have w0: "wf_cbs c0" "cbs_bytes c0 = ?v @ ?w @ ?b" "cbs_len c0 = length ?v + length ?w + length ?b"
    using p by (simp_all add: c0_def)
  then have w1: "wf_cbs c1" "cbs_bytes c1 = ?w @ ?b" "cbs_len c1 = length ?w + length ?b" by (simp_all add: c1_def)
  then have w2: "wf_cbs c2" "cbs_bytes c2 = ?b @ []" "cbs_len c2 = length ?b" by (simp_all add: c2_def)
  have "CBS_get_asn1_uint64 c0 = (Some v, c1)"
    unfolding c1_def by (rule asn1_uint64.complete [OF w0(1) TrueI w0(2)])
  moreover have "CBS_get_asn1_int64 c1 = (Some w, c2)"
    unfolding c2_def by (rule asn1_int64.complete [OF w1(1) TrueI w1(2)])
  moreover have "CBS_get_asn1_bool c2 = (Some (if b = 0 then 0 else 1), advance c2 (length ?b))"
    by (rule asn1_bool.complete [OF w2(1) _ w2(2)]) simp
  ultimately show ?thesis using w2(3) by (auto simp: c0_def)
qed

theorem cbb_cbs_asn1_value_roundtrip_witness:
  "\<exists>out k. take k out = [2, 2, 0, 0x80, 2, 1, 0x80, 1, 1, 0xff] \<and>
     (\<exists>c1 c2 c3. CBS_get_asn1_uint64 (CBS_init out k) = (Some 128, c1) \<and>
       CBS_get_asn1_int64 c1 = (Some (- 128), c2) \<and> CBS_get_asn1_bool c2 = (Some (if (7::int) = 0 then 0 else 1), c3) \<and> cbs_len c3 = 0)"
proof -
  let ?ps = "[Asn1_uint64 0 128, Asn1_int64 0 (- 128), Asn1_bool 0 7]"
  have i: "CBB_init any_env 10 = (Some (), snd (CBB_init any_env 10))" by code_simp
  have n: "(10::nat) < PTRDIFF_LIMIT" and ok: "list_all op_ok ?ps"
    and c: "Option.bind (run_levels ?ps fresh_levels) collapse = Some [2, 2, 0, 0x80, 2, 1, 0x80, 1, 1, 0xff]"
    by code_simp+
  have le: "length ([2, 2, 0, 0x80, 2, 1, 0x80, 1, 1, 0xff] :: bytes) \<le> 10" by simp
  obtain t out k u where r: "run any_env ?ps (snd (CBB_init any_env 10)) = (Some (), t)"
    and f: "CBB_finish any_env 0 True True t = (Some (Some out, Some k), u)" and o: "take k out = [2, 2, 0, 0x80, 2, 1, 0x80, 1, 1, 0xff]"
    using program_runs [OF i n ok c le] by blast
  from cbb_cbs_asn1_value_roundtrip [OF i n r f] o show ?thesis by blast
qed

section \<open>One string\<close>

text \<open>A builder that is used for one string: what comes out, and that enough room is enough.\<close>

lemma fresh_append: "append_option 0 (Some bs) fresh_levels = Some [(Root, bs)]"
  by (simp add: append_option_def append_levels_def flush_levels_def fresh_levels_def)

lemma one_string:
  assumes c: "builder_call c (append_option 0 (Some bs)) 0" and i: "CBB_init env n = (Some (), s)" "n < PTRDIFF_LIMIT"
  shows "c s = (Some (), t) \<Longrightarrow> CBB_finish env 0 True True t = (Some (Some out, Some k), u) \<Longrightarrow>
      take k out = bs \<and> k = length bs \<and> k \<le> length out"
    and "length bs \<le> n \<Longrightarrow> \<exists>t out u. c s = (Some (), t) \<and>
      CBB_finish env 0 True True t = (Some (Some out, Some (length bs)), u) \<and> take (length bs) out = bs"
proof -
  have w: "wf_cbb s" "\<not> cbb_failed s" "cbb_abs s = fresh_levels" "cbb_cap s = n" using init_wf [OF i] by simp_all
  have d: "0 < length (cbb_frames s)" using w(1) by (auto simp: wf_cbb_def split: option.splits list.splits)
  show "take k out = bs \<and> k = length bs \<and> k \<le> length out"
    if t: "c s = (Some (), t)" and f: "CBB_finish env 0 True True t = (Some (Some out, Some k), u)"
  proof -
    have r: "wf_cbb t" "cbb_abs t = [(Root, bs)]"
      using builder_call.refines [OF c w(1) d t] w(3) fresh_append [of bs] by auto
    from finish_output [OF r(1) f] r(2) show ?thesis by auto
  qed
  assume le: "length bs \<le> n"
  have sp: "append_option 0 (Some bs) (cbb_abs s) = Some [(Root, bs)]" using w(3) fresh_append by simp
  have "fst (c s) = Some ()" using builder_call.fits [OF c w(1) d w(2) sp] le w(4) by simp
  then obtain t where t: "c s = (Some (), t)" by (metis prod.collapse)
  have r: "wf_cbb t" "\<not> cbb_failed t" "cbb_abs t = [(Root, bs)]" "cbb_extends s t"
    using builder_call.refines [OF c w(1) d t] sp by auto
  have "cbb_cap s \<le> cbb_cap t" by (rule cbb_extends_cap [OF r(4)])
  with finish_fits [OF r(1,2), of bs env] r(3) le w(4) t
  show "\<exists>t out u. c s = (Some (), t) \<and>
      CBB_finish env 0 True True t = (Some (Some out, Some (length bs)), u) \<and> take (length bs) out = bs" by auto
qed

end
