(* ===== verification/OID.thy ===== *)
theory OID
  imports CBB_Programs
begin

text \<open>
  Object identifiers as text: \<open>CBB_add_asn1_oid_from_text\<close> of \<open>cbb.c\<close> and \<open>CBS_asn1_oid_to_text\<close> of
  \<open>cbs.c\<close>. Character 46 is the dot. The loops over a \<open>CBS\<close> end because each turn consumes input.
\<close>

section \<open>From text\<close>

function dotted_loop :: "cbs_st \<Rightarrow> u64 \<Rightarrow> bool \<Rightarrow> (u64, cbs_st) outcome" where
  "dotted_loop c out seen_digit =
     (case CBS_get_u8 c of
        (None, c) \<Rightarrow> (if seen_digit then Some out else None, c)
      | (Some u, c) \<Rightarrow>
          if u = 46 \<and> CBS_len c > 0 then (if seen_digit then Some out else None, c)
          else if u < 48 \<or> u > 57 \<or> seen_digit \<and> out = 0 \<or> out > 0xffffffffffffffff div 10 \<or>
            out * 10 > 0xffffffffffffffff - ucast (u - 48)
          then (None, c)
          else dotted_loop c (out * 10 + ucast (u - 48)) True)"
  by pat_completeness auto
termination
  by (relation "measure (\<lambda>(c, out, seen). cbs_len c)") (auto simp: CBS_get_u8_advance split: if_splits)

declare dotted_loop.simps [simp del]

definition parse_dotted_decimal :: "cbs_st \<Rightarrow> (u64, cbs_st) outcome" where
  "parse_dotted_decimal c = dotted_loop c 0 False"

lemma dotted_loop_le: "cbs_len (snd (dotted_loop c out seen)) \<le> cbs_len c - 1"
proof (induction c out seen rule: dotted_loop.induct)
  case (1 c out seen)
  show ?case
  proof (cases "cbs_len c = 0")
    case True
    then show ?thesis by (simp add: dotted_loop.simps [of c] CBS_get_u8_advance)
  next
    case False
    then have u: "CBS_get_u8 c = (Some (cbs_data c ! 0), advance c 1)" by (simp add: CBS_get_u8_advance)
    let ?stop = "cbs_data c ! 0 = 46 \<and> CBS_len (advance c 1) > 0"
    let ?bad = "cbs_data c ! 0 < 48 \<or> cbs_data c ! 0 > 57 \<or> seen \<and> out = 0 \<or> out > 0xffffffffffffffff div 10 \<or>
            out * 10 > 0xffffffffffffffff - ucast (cbs_data c ! 0 - 48)"
    show ?thesis
    proof (cases "?stop \<or> ?bad")
      case True
      then show ?thesis by (auto simp: dotted_loop.simps [of c] u)
    next
      case False
      then have "cbs_len (snd (dotted_loop (advance c 1) (out * 10 + ucast (cbs_data c ! 0 - 48)) True)) \<le> cbs_len (advance c 1) - 1"
        using 1 [OF u [symmetric] refl] by blast
      moreover have "dotted_loop c out seen = dotted_loop (advance c 1) (out * 10 + ucast (cbs_data c ! 0 - 48)) True"
      proof -
        have "\<not> ?stop" "\<not> ?bad" using False by blast+
        then show ?thesis by (simp only: dotted_loop.simps [of c] u prod.case option.case if_False)
      qed
      ultimately show ?thesis by simp
    qed
  qed
qed

lemma dotted_loop_less: "dotted_loop c out seen = (r, c') \<Longrightarrow> 0 < cbs_len c \<Longrightarrow> cbs_len c' < cbs_len c"
  using dotted_loop_le [of c out seen] by simp

text \<open>The remaining components, encoded one by one.\<close>

function oid_rest :: "mem_env \<Rightarrow> nat \<Rightarrow> cbs_st \<Rightarrow> cbb_state \<Rightarrow> (unit, cbb_state) outcome" where
  "oid_rest env d c s =
     (if CBS_len c > 0
      then (case parse_dotted_decimal c of
              (None, _) \<Rightarrow> (None, s)
            | (Some a, c) \<Rightarrow> and_then (add_base128_integer env d a s) (\<lambda>_ s. oid_rest env d c s))
      else (Some (), s))"
  by pat_completeness auto
termination
  by (relation "measure (\<lambda>(env, d, c, s). cbs_len c)")
    (auto simp: parse_dotted_decimal_def CBS_len_def dest!: dotted_loop_less [OF sym])

declare oid_rest.simps [simp del]

definition CBB_add_asn1_oid_from_text :: "mem_env \<Rightarrow> nat \<Rightarrow> bytes \<Rightarrow> nat \<Rightarrow> cbb_state \<Rightarrow> (unit, cbb_state) outcome" where
  "CBB_add_asn1_oid_from_text env d text len s =
     and_then (CBB_flush env d s) (\<lambda>_ s.
       case parse_dotted_decimal (CBS_init text len) of
         (None, _) \<Rightarrow> (None, s)
       | (Some a, c) \<Rightarrow>
           (case parse_dotted_decimal c of
              (None, _) \<Rightarrow> (None, s)
            | (Some b, c) \<Rightarrow>
                if a > 2 \<or> a < 2 \<and> b > 39 \<or> b > 0xffffffffffffffff - 80 then (None, s)
                else and_then (add_base128_integer env d (40 * a + b) s) (\<lambda>_ s. oid_rest env d c s)))"

section \<open>To text\<close>

text \<open>
  The buffer of \<open>add_decimal\<close> has 24 bytes (\<open>DECIMAL_SIZE(uint64_t) + 1\<close>); what was in it before does
  not matter.
\<close>

definition add_decimal :: "mem_env \<Rightarrow> nat \<Rightarrow> u64 \<Rightarrow> cbb_state \<Rightarrow> (unit, cbb_state) outcome" where
  "add_decimal env d v s =
     (let buf = BIO_snprintf (replicate 24 0) 24 (dec_digits (unat v)) in CBB_add_bytes env d buf (c_strlen buf) s)"

lemma base128_loop_less: "parse_base128_loop c v = (Some w, c') \<Longrightarrow> cbs_len c' < cbs_len c"
proof (induction c v arbitrary: w c' rule: parse_base128_loop.induct)
  case (1 c v)
  let ?b = "cbs_data c ! 0" and ?v = "push_bit 7 v OR ucast (cbs_data c ! 0 AND 0x7f) :: u64"
  have u: "0 < cbs_len c" "CBS_get_u8 c = (Some ?b, advance c 1)" "drop_bit 57 v = 0" "\<not> (v = 0 \<and> ?b = 0x80)"
    and r: "if ?b AND 0x80 \<noteq> 0 then parse_base128_loop (advance c 1) ?v = (Some w, c') else c' = advance c 1"
    using "1.prems" by (auto simp: base128_loop_unfold [of c v] CBS_get_u8_advance Let_def split: if_splits)
  show ?case
  proof (cases "?b AND 0x80 = 0")
    case True
    then show ?thesis using r u(1) by simp
  next
    case False
    then have "cbs_len c' < cbs_len (advance c 1)" using r u by (intro "1.IH" [of ?b]) simp_all
    then show ?thesis by simp
  qed
qed

function oid_text_loop :: "mem_env \<Rightarrow> cbs_st \<Rightarrow> cbb_state \<Rightarrow> (unit, cbb_state) outcome" where
  "oid_text_loop env c s =
     (if CBS_len c \<noteq> 0
      then (case parse_base128_integer c of
              (None, _) \<Rightarrow> (None, s)
            | (Some v, c) \<Rightarrow>
                and_then (CBB_add_u8 env 0 46 s) (\<lambda>_ s. and_then (add_decimal env 0 v s) (\<lambda>_ s. oid_text_loop env c s)))
      else (Some (), s))"
  by pat_completeness auto
termination
  by (relation "measure (\<lambda>(env, c, s). cbs_len c)")
    (auto simp: parse_base128_integer_def dest!: base128_loop_less [OF sym])

declare oid_text_loop.simps [simp del]

text \<open>The first octets stand for the first two components.\<close>

definition CBS_asn1_oid_to_text :: "mem_env \<Rightarrow> cbs_st \<Rightarrow> bytes option" where
  "CBS_asn1_oid_to_text env c =
     (case CBB_init env 32 of
        (None, _) \<Rightarrow> None
      | (Some _, s) \<Rightarrow>
          (case parse_base128_integer c of
             (None, _) \<Rightarrow> None
           | (Some v, c) \<Rightarrow>
               (case and_then
                  (if v \<ge> 80
                   then and_then (CBB_add_bytes env 0 [50, 46] 2 s) (\<lambda>_ s. add_decimal env 0 (v - 80) s)
                   else and_then (add_decimal env 0 (v div 40) s) (\<lambda>_ s.
                        and_then (CBB_add_u8 env 0 46 s) (\<lambda>_ s. add_decimal env 0 (v mod 40) s))) (\<lambda>_ s.
                  and_then (oid_text_loop env c s) (\<lambda>_ s.
                  and_then (CBB_add_u8 env 0 0 s) (\<lambda>_ s.
                  CBB_finish env 0 True True s)))
                of (Some (txt, _), _) \<Rightarrow> txt
                 | (None, _) \<Rightarrow> None)))"

section \<open>Components\<close>

text \<open>The text of a list of components, and the encoding of valid components.\<close>

fun oid_text :: "nat list \<Rightarrow> bytes" where
  "oid_text [] = []"
| "oid_text [n] = dec_digits n"
| "oid_text (n # m # ns) = dec_digits n @ 46 # oid_text (m # ns)"

definition oid_valid :: "nat list \<Rightarrow> bool" where
  "oid_valid ns \<longleftrightarrow> 2 \<le> length ns \<and> ns ! 0 \<le> 2 \<and> (ns ! 0 < 2 \<longrightarrow> ns ! 1 \<le> 39) \<and> ns ! 1 + 80 < 2 ^ 64 \<and>
     (\<forall>n \<in> set ns. n < 2 ^ 64)"

definition oid_der :: "nat list \<Rightarrow> bytes" where
  "oid_der ns = concat (map base128 ((40 * ns ! 0 + ns ! 1) # drop 2 ns))"

section \<open>Decimal components\<close>

lemma dec_digits_last: "10 \<le> n \<Longrightarrow> dec_digits n = dec_digits (n div 10) @ [48 + of_nat (n mod 10)]"
  by (simp add: dec_digits.simps [of n])

lemma dec_digits_small: "n < 10 \<Longrightarrow> dec_digits n = [48 + of_nat n]"
  by (simp add: dec_digits.simps [of n])

lemma dec_digits_not_Nil [simp]: "dec_digits n \<noteq> []"
  by (cases "n < 10") (simp_all add: dec_digits_small dec_digits_last)

text \<open>A nonempty prefix of the digits of a number are the digits of the number without its last digits.\<close>

lemma digits_prefix: "p @ q = dec_digits n \<Longrightarrow> p \<noteq> [] \<Longrightarrow> p = dec_digits (n div 10 ^ length q)"
proof (induction q arbitrary: n rule: rev_induct)
  case (snoc y q)
  have "10 \<le> n"
  proof (rule ccontr)
    assume "\<not> 10 \<le> n"
    then have "length (p @ q @ [y]) = 1" using snoc.prems(1) by (simp add: dec_digits_small)
    then show False using snoc.prems(2) by simp
  qed
  then have "p @ q = dec_digits (n div 10)" using snoc.prems(1) dec_digits_last [of n] by simp
  from snoc.IH [OF this snoc.prems(2)] show ?case by (simp add: div_mult2_eq)
qed simp

lemma digit_code: "d < 10 \<Longrightarrow> unat (48 + of_nat d :: u8) = 48 + d"
proof -
  assume d: "d < 10"
  have "48 + of_nat d = (of_nat (48 + d) :: u8)" by simp
  then show ?thesis using d unat_of_nat_less [of "48 + d", where ?'a = 8] by (simp only:) simp
qed

lemma dec_digits_snoc: "0 < m \<Longrightarrow> d < 10 \<Longrightarrow> dec_digits m @ [48 + of_nat d] = dec_digits (m * 10 + d)"
  by (subst (2) dec_digits_last) simp_all

lemma dec_digits_digit: "c \<in> set (dec_digits n) \<Longrightarrow> 48 \<le> unat c \<and> unat c \<le> 57"
proof (induction n rule: dec_digits.induct)
  case (1 n)
  show ?case
  proof (cases "n < 10")
    case True
    then show ?thesis using 1(2) digit_code [of n] by (simp add: dec_digits_small)
  next
    case False
    then show ?thesis using 1 digit_code [of "n mod 10"] by (auto simp: dec_digits_last)
  qed
qed

lemma dec_digits_value: "foldl (\<lambda>v c. v * 10 + (unat c - 48)) 0 (dec_digits n) = n"
proof (induction n rule: dec_digits.induct)
  case (1 n)
  show ?case
  proof (cases "n < 10")
    case True
    then show ?thesis using digit_code [of n] by (simp add: dec_digits_small)
  next
    case False
    then show ?thesis using 1 digit_code [of "n mod 10"] by (simp add: dec_digits_last)
  qed
qed

lemma dec_digits_inj: "dec_digits m = dec_digits n \<Longrightarrow> m = n"
  by (metis dec_digits_value)

text \<open>The arithmetic of one step: the overflow check is exact.\<close>

lemma dotted_step:
  assumes "48 \<le> unat (u :: u8)" and "unat u \<le> 57"
  shows "((out :: u64) > 0xffffffffffffffff div 10 \<or> out * 10 > 0xffffffffffffffff - ucast (u - 48)) \<longleftrightarrow>
      2 ^ 64 \<le> unat out * 10 + (unat u - 48)"
    and "unat out * 10 + (unat u - 48) < 2 ^ 64 \<Longrightarrow> unat (out * 10 + ucast (u - 48)) = unat out * 10 + (unat u - 48)"
proof -
  define d where "d = unat u - 48"
  have d: "d \<le> 9" using assms by (simp add: d_def)
  have u: "unat (ucast (u - 48) :: u64) = d" using assms by (simp add: unat_ucast_up unat_sub word_le_nat_alt d_def)
  have m: "unat (0xffffffffffffffff div 10 :: u64) = (2 ^ 64 - 1) div 10" by (simp add: unat_div)
  have s: "unat (0xffffffffffffffff - ucast (u - 48) :: u64) = 2 ^ 64 - 1 - d"
    using u d by (subst unat_sub) (simp_all add: word_le_nat_alt)
  show "(out > 0xffffffffffffffff div 10 \<or> out * 10 > 0xffffffffffffffff - ucast (u - 48)) \<longleftrightarrow> 2 ^ 64 \<le> unat out * 10 + (unat u - 48)"
  proof (cases "unat out \<le> (2 ^ 64 - 1) div 10")
    case True
    then have t: "unat (out * 10) = unat out * 10" by (subst unat_mult_lem [THEN iffD1]) (simp_all, linarith?)
    have "\<not> out > 0xffffffffffffffff div 10" using True m by (simp add: word_less_nat_alt)
    then show ?thesis unfolding word_less_nat_alt [of "0xffffffffffffffff - ucast (u - 48)"] s t d_def [symmetric] using d by auto
  next
    case False
    then have "out > 0xffffffffffffffff div 10" using m by (simp add: word_less_nat_alt)
    moreover have "2 ^ 64 \<le> unat out * 10" using False by simp
    ultimately show ?thesis by simp
  qed
  show "unat (out * 10 + ucast (u - 48)) = unat out * 10 + (unat u - 48)" if "unat out * 10 + (unat u - 48) < 2 ^ 64"
  proof -
    have lim: "unat out * 10 + d < 2 ^ 64" using that by (simp add: d_def)
    have "unat (out * 10) = unat out * 10" using lim by (subst unat_mult_lem [THEN iffD1]) simp_all
    then show ?thesis using lim u by (subst unat_add_lem [THEN iffD1]) (simp_all add: d_def [symmetric])
  qed
qed

text \<open>What follows a component: nothing, or a dot and something.\<close>

definition dot_rest :: "bytes \<Rightarrow> bytes" where
  "dot_rest r = (if r = [] then [] else 46 # r)"

definition seen_digits :: "bool \<Rightarrow> u64 \<Rightarrow> bytes" where
  "seen_digits seen out = (if seen then dec_digits (unat out) else [])"

lemma dotted_loop_sound:
  assumes "dotted_loop c out seen = (Some v, c')" and "wf_cbs c" and "seen \<or> out = 0"
  shows "\<exists>ds. seen_digits seen out @ ds = dec_digits (unat v) \<and> cbs_bytes c = ds @ dot_rest (cbs_bytes c') \<and> wf_cbs c'"
  using assms
proof (induction c out seen arbitrary: v c' rule: dotted_loop.induct)
  case (1 c out seen)
  show ?case
  proof (cases "cbs_len c = 0")
    case True
    then have "seen" "v = out" "c' = c" using 1(2) by (auto simp: dotted_loop.simps [of c] CBS_get_u8_advance split: if_splits)
    then show ?thesis using True 1(3) by (simp add: seen_digits_def dot_rest_def cbs_bytes_def)
  next
    case False
    define u where "u = cbs_data c ! 0"
    have get: "CBS_get_u8 c = (Some u, advance c 1)" using False by (simp add: CBS_get_u8_advance u_def)
    have hd: "cbs_bytes c = u # cbs_bytes (advance c 1)"
      using first_byte [OF 1(3)] False by (simp add: u_def nth_data)
    show ?thesis
    proof (cases "u = 46 \<and> CBS_len (advance c 1) > 0")
      case True
      then have "seen" "v = out" "c' = advance c 1" using 1(2) get by (auto simp: dotted_loop.simps [of c] split: if_splits)
      moreover have "cbs_bytes (advance c 1) \<noteq> []" using True length_cbs_bytes [of "advance c 1"] 1(3) by (auto simp: CBS_len_def)
      ultimately show ?thesis using True 1(3) hd by (simp add: seen_digits_def dot_rest_def del: bytes_advance)
    next
      case stop: False
      let ?bad = "u < 48 \<or> u > 57 \<or> seen \<and> out = 0 \<or> out > 0xffffffffffffffff div 10 \<or> out * 10 > 0xffffffffffffffff - ucast (u - 48)"
      have ok: "\<not> ?bad"
      proof
        assume "?bad"
        then have "dotted_loop c out seen = (None, advance c 1)"
          by (simp only: dotted_loop.simps [of c] get prod.case option.case stop if_False if_True)
        then show False using 1(2) by simp
      qed
      have r: "dotted_loop (advance c 1) (out * 10 + ucast (u - 48)) True = (Some v, c')"
        using 1(2) by (simp only: dotted_loop.simps [of c] get prod.case option.case stop ok if_False)
      have u: "48 \<le> unat u" "unat u \<le> 57" using ok by (auto simp: word_less_nat_alt)
      note st = dotted_step [OF u, of out]
      have lim: "unat out * 10 + (unat u - 48) < 2 ^ 64" using ok st(1) by auto
      note val = st(2) [OF lim]
      obtain ds where ds: "seen_digits True (out * 10 + ucast (u - 48)) @ ds = dec_digits (unat v)"
          "cbs_bytes (advance c 1) = ds @ dot_rest (cbs_bytes c')" "wf_cbs c'"
        using 1(1) [OF get [symmetric] refl stop ok r] 1(3) by auto
      have "seen_digits seen out @ [u] = seen_digits True (out * 10 + ucast (u - 48))"
      proof (cases seen)
        case True
        then have "0 < unat out" using ok by (auto simp: word_neq_0_conv word_less_nat_alt)
        then show ?thesis using True u dec_digits_snoc [of "unat out" "unat u - 48"] by (simp add: seen_digits_def val)
      next
        case s: False
        then have "out = 0" using 1(4) by blast
        then show ?thesis using s u dec_digits_small [of "unat u - 48"] val by (simp add: seen_digits_def)
      qed
      then have "seen_digits seen out @ u # ds = dec_digits (unat v)" using ds(1) by (metis append.assoc append_Cons append_Nil)
      then show ?thesis using ds(2,3) hd by (intro exI [of _ "u # ds"]) (simp del: bytes_advance)
    qed
  qed
qed

lemma dotted_loop_complete:
  assumes "wf_cbs c" and "cbs_bytes c = ds @ dot_rest r" and "seen_digits seen out @ ds = dec_digits n" and "n < 2 ^ 64"
    and "seen \<or> out = 0"
  shows "\<exists>c'. dotted_loop c out seen = (Some (of_nat n), c') \<and> wf_cbs c' \<and> cbs_bytes c' = r"
  using assms
proof (induction ds arbitrary: c out seen)
  case Nil
  then have seen: "seen" "dec_digits (unat out) = dec_digits n" using dec_digits_not_Nil [of n]
    by (auto simp: seen_digits_def simp del: dec_digits_not_Nil split: if_splits)
  have out: "out = of_nat n" using dec_digits_inj [OF seen(2), symmetric] by simp
  show ?case
  proof (cases "r = []")
    case True
    then have "cbs_len c = 0" using Nil length_cbs_bytes [of c] by (simp add: dot_rest_def)
    then show ?thesis using seen out Nil(1) True by (simp add: dotted_loop.simps [of c] CBS_get_u8_advance cbs_bytes_def)
  next
    case False
    then have b: "cbs_bytes c = 46 # r" using Nil by (simp add: dot_rest_def)
    then have l: "cbs_len c = Suc (length r)" using length_cbs_bytes [OF Nil(1)] by simp
    then have "CBS_get_u8 c = (Some 46, advance c 1)" using b by (simp add: CBS_get_u8_advance nth_data)
    then show ?thesis using seen out Nil(1) b l False by (simp add: dotted_loop.simps [of c] CBS_len_def)
  qed
next
  case (Cons u ds)
  have hd: "cbs_bytes c = u # ds @ dot_rest r" using Cons.prems(2) by simp
  then have l: "0 < cbs_len c" using length_cbs_bytes [OF Cons.prems(1)] by simp
  then have get: "CBS_get_u8 c = (Some u, advance c 1)" using hd by (simp add: CBS_get_u8_advance nth_data)
  define m where "m = n div 10 ^ length ds"
  have pre: "seen_digits seen out @ [u] = dec_digits m"
    using digits_prefix [of "seen_digits seen out @ [u]" ds n] Cons.prems(3) by (simp add: m_def)
  have "u \<in> set (dec_digits m)" using pre by (metis in_set_conv_decomp)
  then have u: "48 \<le> unat u" "unat u \<le> 57" using dec_digits_digit by blast+
  have m: "unat out * 10 + (unat u - 48) = m \<and> \<not> (seen \<and> out = 0)"
  proof (cases seen)
    case True
    then have d: "dec_digits (unat out) @ [u] = dec_digits m" using pre by (simp add: seen_digits_def)
    have "10 \<le> m"
    proof (rule ccontr)
      assume "\<not> 10 \<le> m"
      then have "length (dec_digits (unat out) @ [u]) = 1" using d by (simp add: dec_digits_small)
      then show False by simp
    qed
    then have "dec_digits (unat out) = dec_digits (m div 10)" "u = 48 + of_nat (m mod 10)" using d dec_digits_last [of m] by simp_all
    then have "unat out = m div 10" "unat u = 48 + m mod 10" using dec_digits_inj digit_code [of "m mod 10"] by simp_all
    then show ?thesis using \<open>10 \<le> m\<close> by auto
  next
    case False
    then have d: "[u] = dec_digits m" and o: "out = 0" using pre Cons.prems(5) by (simp_all add: seen_digits_def)
    have "m < 10"
    proof (rule ccontr)
      assume "\<not> m < 10"
      then have "length [u] = Suc (length (dec_digits (m div 10)))" using d dec_digits_last [of m] by simp
      then show False by simp
    qed
    then have "unat u = 48 + m" using d digit_code [of m] by (simp add: dec_digits_small)
    then show ?thesis using o False by simp
  qed
  have "m \<le> n" unfolding m_def by simp
  then have lim: "unat out * 10 + (unat u - 48) < 2 ^ 64" using Cons.prems(4) m by simp
  note st = dotted_step [OF u, of out]
  note val = st(2) [OF lim]
  have ok: "\<not> (u < 48 \<or> u > 57 \<or> seen \<and> out = 0 \<or> out > 0xffffffffffffffff div 10 \<or> out * 10 > 0xffffffffffffffff - ucast (u - 48))"
    using u m lim st(1) by (auto simp: word_less_nat_alt)
  have stop: "\<not> (u = 46 \<and> CBS_len (advance c 1) > 0)" using u by auto
  have e: "dotted_loop c out seen = dotted_loop (advance c 1) (out * 10 + ucast (u - 48)) True"
    by (simp only: dotted_loop.simps [of c] get prod.case option.case stop ok if_False)
  have "cbs_bytes (advance c 1) = ds @ dot_rest r" using hd by simp
  moreover have "seen_digits True (out * 10 + ucast (u - 48)) @ ds = dec_digits n"
  proof -
    have "(seen_digits seen out @ [u]) @ ds = dec_digits n" using Cons.prems(3) by simp
    then show ?thesis unfolding pre using val m by (simp add: seen_digits_def)
  qed
  ultimately show ?case unfolding e using Cons.prems(1,4) by (intro Cons.IH) simp_all
qed

text \<open>So the component parser is exact: it accepts a component if and only if it is the decimal text of a number below
  $2^{64}$ without leading zeros, followed by nothing or by a dot and something.\<close>

lemma dotted_iff:
  assumes "wf_cbs c"
  shows "(\<exists>c'. parse_dotted_decimal c = (Some v, c') \<and> wf_cbs c' \<and> cbs_bytes c' = r) \<longleftrightarrow>
    cbs_bytes c = dec_digits (unat v) @ dot_rest r"
proof
  assume "\<exists>c'. parse_dotted_decimal c = (Some v, c') \<and> wf_cbs c' \<and> cbs_bytes c' = r"
  then show "cbs_bytes c = dec_digits (unat v) @ dot_rest r"
    using dotted_loop_sound [of c 0 False v] assms by (auto simp: parse_dotted_decimal_def seen_digits_def)
next
  assume "cbs_bytes c = dec_digits (unat v) @ dot_rest r"
  from dotted_loop_complete [OF assms this, of False 0 "unat v"]
  show "\<exists>c'. parse_dotted_decimal c = (Some v, c') \<and> wf_cbs c' \<and> cbs_bytes c' = r"
    using unsigned_less [of v, where ?'a = nat] by (simp add: parse_dotted_decimal_def seen_digits_def)
qed

section \<open>Calls in a row\<close>

fun seq_calls :: "(cbb_state \<Rightarrow> (unit, cbb_state) outcome) list \<Rightarrow> cbb_state \<Rightarrow> (unit, cbb_state) outcome" where
  "seq_calls [] s = (Some (), s)"
| "seq_calls (c # cs) s = and_then (c s) (\<lambda>_. seq_calls cs)"

lemma seq_calls_fun:
  "seq_calls [] = (\<lambda>s. (Some (), s))" "seq_calls (c # cs) = (\<lambda>s. and_then (c s) (\<lambda>_. seq_calls cs))"
  by (rule ext, simp)+

lemma seq_calls_append: "seq_calls (cs @ ds) = (\<lambda>s. and_then (seq_calls cs s) (\<lambda>_. seq_calls ds))"
proof (induction cs)
  case (Cons c cs)
  show ?case by (rule ext) (simp add: Cons.IH and_then_assoc)
qed (simp add: fun_eq_iff)

text \<open>A row of calls that append strings appends their concatenation.\<close>

lemma seq_calls_call:
  "list_all2 (\<lambda>c bs. builder_call c (append_option d (Some bs)) d) cs bss \<Longrightarrow> cs \<noteq> [] \<Longrightarrow>
    builder_call (seq_calls cs) (append_option d (Some (concat bss))) d"
proof (induction cs bss rule: list_all2_induct)
  case (Cons c cs bs bss)
  show ?case
  proof (cases "cs = []")
    case True
    then have "bss = []" using Cons by simp
    moreover have "seq_calls [c] = c" by (rule ext) (simp add: and_then_return fun_eq_iff [symmetric] seq_calls.simps(1) [abs_def])
    ultimately show ?thesis using Cons True by (simp del: seq_calls.simps)
  next
    case False
    have "builder_call (\<lambda>s. and_then (c s) (\<lambda>_. seq_calls cs))
        (\<lambda>ls. Option.bind (append_option d (Some bs) ls) (append_option d (Some (concat bss)))) d"
      by (rule call_sequence [OF Cons(1) Cons.IH [OF False]]) (simp add: append_option_def append_length)
    moreover have "Option.bind (append_option d (Some bs) ls) (append_option d (Some (concat bss))) = append_option d (Some (concat (bs # bss))) ls" for ls
      using append_append [of d bs ls "concat bss"] by (simp add: append_option_def [abs_def])
    moreover have "seq_calls (c # cs) = (\<lambda>s. and_then (c s) (\<lambda>_. seq_calls cs))" by auto
    ultimately show ?thesis by simp
  qed
qed simp

text \<open>A flush in front of a call that appends adds nothing to it.\<close>

lemma flush_first_call:
  assumes "builder_call c (append_option d (Some bs)) d"
  shows "builder_call (\<lambda>s. and_then (CBB_flush env d s) (\<lambda>_. c)) (append_option d (Some bs)) d"
proof -
  have "builder_call (\<lambda>s. and_then (CBB_flush env d s) (\<lambda>_. c)) (\<lambda>ls. Option.bind (flush_levels d ls) (append_option d (Some bs))) d"
    by (rule call_sequence [OF flush.builder_call_axioms assms]) (use flush_levels_idem in fastforce)
  moreover have "Option.bind (flush_levels d ls) (append_option d (Some bs)) = append_option d (Some bs) ls" for ls
  proof (cases "flush_levels d ls")
    case None
    then show ?thesis by (simp add: append_option_def append_levels_def)
  next
    case (Some l)
    then show ?thesis by (simp add: append_option_def append_flushed [OF Some])
  qed
  ultimately show ?thesis by simp
qed

lemma base128_row:
  "vs \<noteq> [] \<Longrightarrow> builder_call (seq_calls (map (add_base128_integer env d) vs)) (append_option d (Some (concat (map (base128 \<circ> unat) vs)))) d"
  by (rule seq_calls_call) (auto simp: list_all2_map1 list_all2_map2 list_all2_same base128_call)

section \<open>Reading the text\<close>

lemma oid_text_Cons: "oid_text (n # ns) = dec_digits n @ dot_rest (oid_text ns)"
proof (cases ns)
  case (Cons m ms)
  moreover have "oid_text (m # ms) \<noteq> []" by (cases ms) simp_all
  ultimately show ?thesis by (simp add: dot_rest_def)
qed (simp add: dot_rest_def)

lemma oid_text_Nil_iff [simp]: "oid_text ns = [] \<longleftrightarrow> ns = []" "[] = oid_text ns \<longleftrightarrow> ns = []"
  by (cases ns; simp add: oid_text_Cons)+

lemma oid_rest_iff:
  "wf_cbs c \<Longrightarrow> oid_rest env d c s = (Some (), t) \<longleftrightarrow>
    (\<exists>vs. cbs_bytes c = oid_text (map unat vs) \<and> seq_calls (map (add_base128_integer env d) vs) s = (Some (), t))"
proof (induction env d c s arbitrary: t rule: oid_rest.induct)
  case (1 env d c s)
  show ?case
  proof (cases "CBS_len c > 0")
    case False
    then have "cbs_bytes c = []" by (simp add: CBS_len_def cbs_bytes_def)
    then show ?thesis using False by (auto simp: oid_rest.simps [of env d c])
  next
    case True
    then have ne: "cbs_bytes c \<noteq> []" using length_cbs_bytes [OF 1(2)] by (auto simp: CBS_len_def)
    show ?thesis
    proof
      assume r: "oid_rest env d c s = (Some (), t)"
      then obtain a c' s1 where p: "parse_dotted_decimal c = (Some a, c')"
          and s1: "add_base128_integer env d a s = (Some (), s1)" "oid_rest env d c' s1 = (Some (), t)"
        using True by (auto simp: oid_rest.simps [of env d c] and_then_Some split: prod.splits option.splits)
      have wf: "wf_cbs c'" and b: "cbs_bytes c = dec_digits (unat a) @ dot_rest (cbs_bytes c')"
        using dotted_loop_sound [of c 0 False a c'] p 1(2) by (auto simp: parse_dotted_decimal_def seen_digits_def)
      from 1(1) [OF True p [symmetric] refl s1(1) wf] s1(2) obtain vs where
        "cbs_bytes c' = oid_text (map unat vs)" "seq_calls (map (add_base128_integer env d) vs) s1 = (Some (), t)" by blast
      then show "\<exists>vs. cbs_bytes c = oid_text (map unat vs) \<and> seq_calls (map (add_base128_integer env d) vs) s = (Some (), t)"
        using b s1(1) by (intro exI [of _ "a # vs"]) (simp add: oid_text_Cons)
    next
      assume "\<exists>vs. cbs_bytes c = oid_text (map unat vs) \<and> seq_calls (map (add_base128_integer env d) vs) s = (Some (), t)"
      then obtain ws where ws: "cbs_bytes c = oid_text (map unat ws)" "seq_calls (map (add_base128_integer env d) ws) s = (Some (), t)"
        by blast
      obtain a vs where w: "ws = a # vs" using ws(1) ne by (cases ws) auto
      have b: "cbs_bytes c = dec_digits (unat a) @ dot_rest (oid_text (map unat vs))" using ws(1) by (simp add: w oid_text_Cons)
      have r: "seq_calls (map (add_base128_integer env d) (a # vs)) s = (Some (), t)" using ws(2) by (simp add: w)
      from b dotted_iff [OF 1(2)] obtain c' where p: "parse_dotted_decimal c = (Some a, c')"
        and c': "wf_cbs c'" "cbs_bytes c' = oid_text (map unat vs)" by blast
      obtain s1 where s1: "add_base128_integer env d a s = (Some (), s1)" "seq_calls (map (add_base128_integer env d) vs) s1 = (Some (), t)"
        using r by (auto simp: and_then_Some)
      from 1(1) [OF True p [symmetric] refl s1(1) c'(1)] s1(2) c'(2) have "oid_rest env d c' s1 = (Some (), t)" by blast
      then show "oid_rest env d c s = (Some (), t)" using True p s1(1) by (simp add: oid_rest.simps [of env d c])
    qed
  qed
qed

lemma init_cbs: "n \<le> length text \<Longrightarrow> length text < SIZE_LIMIT \<Longrightarrow> wf_cbs (CBS_init text n) \<and> cbs_bytes (CBS_init text n) = take n text"
  by (simp add: wf_cbs_def)

lemma first_octets:
  assumes "\<not> (a > 2 \<or> a < 2 \<and> b > 39 \<or> b > (0xffffffffffffffff - 80 :: u64))"
  shows "unat (40 * a + b) = 40 * unat a + unat b" "unat a \<le> 2" "unat a < 2 \<Longrightarrow> unat b \<le> 39" "unat b + 80 < 2 ^ 64"
proof -
  show a: "unat a \<le> 2" and "unat a < 2 \<Longrightarrow> unat b \<le> 39" and b: "unat b + 80 < 2 ^ 64"
    using assms by (auto simp: word_less_nat_alt word_le_nat_alt)
  have "unat (40 * a) = 40 * unat a" using a by (subst unat_mult_lem [THEN iffD1]) simp_all
  then show "unat (40 * a + b) = 40 * unat a + unat b" using a b by (subst unat_add_lem [THEN iffD1]) simp_all
qed

lemma oid_from_text_iff:
  assumes "n \<le> length text" and "length text < SIZE_LIMIT"
  shows "CBB_add_asn1_oid_from_text env d text n s = (Some (), t) \<longleftrightarrow>
    (\<exists>a b vs. take n text = oid_text (map unat (a # b # vs)) \<and> oid_valid (map unat (a # b # vs)) \<and>
      and_then (CBB_flush env d s) (\<lambda>_. seq_calls (map (add_base128_integer env d) ((40 * a + b) # vs))) = (Some (), t))"
    (is "?l \<longleftrightarrow> ?r")
proof -
  note i = init_cbs [OF assms]
  define bad where "bad a b \<longleftrightarrow> a > (2 :: u64) \<or> a < 2 \<and> b > 39 \<or> b > (0xffffffffffffffff - 80 :: u64)" for a b
  have lim: "unat x < 18446744073709551616" for x :: u64 using unsigned_less [of x, where ?'a = nat] by simp
  have ok: "oid_valid (map unat (a # b # vs)) \<longleftrightarrow> \<not> bad a b" for a b :: u64 and vs :: "u64 list"
    using first_octets [of a b] lim
    by (auto simp: oid_valid_def bad_def word_less_nat_alt)
  show ?thesis
  proof
    assume ?l
    then obtain s1 where s1: "CBB_flush env d s = (Some (), s1)" and l1: "(case parse_dotted_decimal (CBS_init text n) of
        (None, _) \<Rightarrow> (None, s1)
      | (Some a, c) \<Rightarrow> (case parse_dotted_decimal c of
              (None, _) \<Rightarrow> (None, s1)
            | (Some b, c) \<Rightarrow> if bad a b then (None, s1) else and_then (add_base128_integer env d (40 * a + b) s1) (\<lambda>_ s. oid_rest env d c s))) =
        (Some (), t)"
      unfolding CBB_add_asn1_oid_from_text_def bad_def [symmetric] and_then_Some by auto
    obtain x c1 where p: "parse_dotted_decimal (CBS_init text n) = (x, c1)" by fastforce
    with l1 obtain a where a: "parse_dotted_decimal (CBS_init text n) = (Some a, c1)" by (cases x) auto
    obtain y c2 where q: "parse_dotted_decimal c1 = (y, c2)" by fastforce
    with l1 a obtain b where b1: "parse_dotted_decimal c1 = (Some b, c2)" by (cases y) auto
    with l1 a have b: "parse_dotted_decimal c1 = (Some b, c2)" "\<not> bad a b" by (auto split: if_splits)
    with l1 a obtain s2 where s2: "add_base128_integer env d (40 * a + b) s1 = (Some (), s2)" "oid_rest env d c2 s2 = (Some (), t)"
      by (auto simp: and_then_Some)
    have c1: "wf_cbs c1" "take n text = dec_digits (unat a) @ dot_rest (cbs_bytes c1)"
      using dotted_loop_sound [of "CBS_init text n" 0 False a c1] a i by (auto simp: parse_dotted_decimal_def seen_digits_def)
    have c2: "wf_cbs c2" "cbs_bytes c1 = dec_digits (unat b) @ dot_rest (cbs_bytes c2)"
      using dotted_loop_sound [of c1 0 False b c2] b(1) c1(1) by (auto simp: parse_dotted_decimal_def seen_digits_def)
    obtain vs where vs: "cbs_bytes c2 = oid_text (map unat vs)" "seq_calls (map (add_base128_integer env d) vs) s2 = (Some (), t)"
      using oid_rest_iff [OF c2(1)] s2(2) by blast
    have "take n text = oid_text (map unat (a # b # vs))" using c1(2) c2(2) vs(1) by (simp only: oid_text_Cons list.map)
    moreover have "oid_valid (map unat (a # b # vs))" using ok b(2) by blast
    moreover have "and_then (CBB_flush env d s) (\<lambda>_. seq_calls (map (add_base128_integer env d) ((40 * a + b) # vs))) = (Some (), t)"
      using s1 s2(1) vs(2) by simp
    ultimately show ?r by blast
  next
    assume ?r
    then obtain a b vs where eq: "take n text = oid_text (map unat (a # b # vs))" and v: "oid_valid (map unat (a # b # vs))"
      and r: "and_then (CBB_flush env d s) (\<lambda>_. seq_calls (map (add_base128_integer env d) ((40 * a + b) # vs))) = (Some (), t)" by blast
    have nb: "\<not> bad a b" using ok v by blast
    have "cbs_bytes (CBS_init text n) = dec_digits (unat a) @ dot_rest (oid_text (map unat (b # vs)))"
      using eq i by (simp only: oid_text_Cons list.map)
    then obtain c1 where c1: "parse_dotted_decimal (CBS_init text n) = (Some a, c1)" "wf_cbs c1" "cbs_bytes c1 = oid_text (map unat (b # vs))"
      using dotted_iff [OF conjunct1 [OF i]] by blast
    then have "cbs_bytes c1 = dec_digits (unat b) @ dot_rest (oid_text (map unat vs))" by (simp only: oid_text_Cons list.map)
    then obtain c2 where c2: "parse_dotted_decimal c1 = (Some b, c2)" "wf_cbs c2" "cbs_bytes c2 = oid_text (map unat vs)"
      using dotted_iff [OF c1(2)] by blast
    obtain s1 s2 where s: "CBB_flush env d s = (Some (), s1)" "add_base128_integer env d (40 * a + b) s1 = (Some (), s2)"
        "seq_calls (map (add_base128_integer env d) vs) s2 = (Some (), t)"
      using r by (auto simp: and_then_Some)
    have "oid_rest env d c2 s2 = (Some (), t)" using oid_rest_iff [OF c2(2)] c2(3) s(3) by blast
    then show ?l using c1(1) c2(1) s(1,2) nb by (simp add: CBB_add_asn1_oid_from_text_def bad_def)
  qed
qed

section \<open>Writing the text\<close>


lemma dec_digits_length: "n < 10 ^ k \<Longrightarrow> 0 < k \<Longrightarrow> length (dec_digits n) \<le> k"
proof (induction k arbitrary: n)
  case (Suc k)
  show ?case
  proof (cases "n < 10")
    case False
    then have "0 < k" using Suc.prems by (cases k) auto
    then have "length (dec_digits (n div 10)) \<le> k" using Suc.prems(1) by (intro Suc.IH) (auto simp: less_mult_imp_div_less mult.commute)
    then show ?thesis using False by (simp add: dec_digits_last)
  qed (simp add: dec_digits_small)
qed simp

lemma add_decimal_eq: "add_decimal env d v s = CBB_add_bytes env d (dec_digits (unat v) @ 0 # drop (Suc (length (dec_digits (unat v)))) (replicate 24 0)) (length (dec_digits (unat v))) s"
proof -
  have "unat v < 10 ^ 20" using unsigned_less [of v, where ?'a = nat] by simp
  then have l: "length (dec_digits (unat v)) < 24" using dec_digits_length [of "unat v" 20] by simp
  moreover have "0 \<notin> set (dec_digits (unat v))" using dec_digits_digit [of 0 "unat v"] by auto
  ultimately show ?thesis
    unfolding add_decimal_def Let_def using snprintf_fits [OF l, of "replicate 24 0"] by simp
qed

lemma add_bytes_prefix: "CBB_add_bytes env d (xs @ ys) (length xs) s = CBB_add_bytes env d xs (length xs) s"
  by (simp add: CBB_add_bytes_def)

lemma decimal_call: "builder_call (add_decimal env d v) (append_option d (Some (dec_digits (unat v)))) d"
proof -
  have "unat v < 10 ^ 20" using unsigned_less [of v, where ?'a = nat] by simp
  then have "length (dec_digits (unat v)) < PTRDIFF_LIMIT" using dec_digits_length [of "unat v" 20] by (simp add: PTRDIFF_LIMIT_def)
  from bytes_call [OF this, of env d] show ?thesis
    unfolding add_decimal_eq [abs_def] add_bytes_prefix .
qed

lemma oid_text_loop_row:
  "wf_cbs c \<Longrightarrow> cbs_bytes c = concat (map (base128 \<circ> unat) vs) \<Longrightarrow>
    oid_text_loop env c s = seq_calls (concat (map (\<lambda>v. [CBB_add_u8 env 0 46, add_decimal env 0 v]) vs)) s"
proof (induction vs arbitrary: c s)
  case Nil
  then have "CBS_len c = 0" using length_cbs_bytes [of c] by (simp add: CBS_len_def)
  then show ?case by (simp add: oid_text_loop.simps [of env c])
next
  case (Cons v vs)
  have b: "cbs_bytes c = base128 (unat v) @ concat (map (base128 \<circ> unat) vs)" using Cons.prems(2) by (simp add: comp_def)
  have "CBS_len c \<noteq> 0" using b length_cbs_bytes [OF Cons.prems(1)] by (auto simp: CBS_len_def base128_def)
  moreover have p: "parse_base128_integer c = (Some v, advance c (length (base128 (unat v))))"
    by (rule b128.complete [OF Cons.prems(1) _ b]) simp
  moreover have "oid_text_loop env (advance c (length (base128 (unat v)))) = 
      seq_calls (concat (map (\<lambda>v. [CBB_add_u8 env 0 46, add_decimal env 0 v]) vs))"
    by (rule ext, rule Cons.IH [OF wf_advance [OF Cons.prems(1)]]) (simp only: bytes_advance b append_eq_conv_conj simp_thms drop_append drop_all order_refl diff_self_eq_0 drop_0 append_Nil)
  ultimately show ?case by (simp add: oid_text_loop.simps [of env c] seq_calls_fun)
qed

lemma oid_text_pieces: "oid_text (n # ns) = dec_digits n @ concat (map (\<lambda>m. 46 # dec_digits m) ns)"
  by (induction ns arbitrary: n) (simp_all add: oid_text_Cons dot_rest_def)

text \<open>Valid components as machine words.\<close>

lemma oid_words:
  assumes "oid_valid ns"
  shows "\<exists>a b vs. ns = map unat (a # b # vs) \<and> oid_der ns = concat (map (base128 \<circ> unat) ((40 * a + b :: u64) # vs)) \<and>
    unat (40 * a + b) = 40 * unat a + unat b \<and> unat a \<le> 2 \<and> (unat a < 2 \<longrightarrow> unat b \<le> 39)"
proof -
  obtain x y zs where ns: "ns = x # y # zs" using assms by (cases ns; cases "tl ns") (auto simp: oid_valid_def)
  define a b :: u64 where "a = of_nat x" and "b = of_nat y"
  define vs :: "u64 list" where "vs = map of_nat zs"
  have u: "unat (of_nat n :: u64) = n" if "n \<in> set ns" for n
    using that assms by (intro unat_of_nat_less) (simp add: oid_valid_def)
  have w: "unat a = x" "unat b = y" "map unat vs = zs" using u by (auto simp: a_def b_def vs_def ns intro: map_idI)
  have "\<not> (a > 2 \<or> a < 2 \<and> b > 39 \<or> b > (0xffffffffffffffff - 80 :: u64))"
    using assms w by (auto simp: oid_valid_def ns word_less_nat_alt)
  note f = first_octets [OF this]
  have m: "concat (map (base128 \<circ> unat) vs) = concat (map base128 zs)" using w(3) by (metis map_map)
  show ?thesis
    by (intro exI [of _ a] exI [of _ b] exI [of _ vs]) (use w f m in \<open>simp add: ns oid_der_def\<close>)
qed

lemma oid_row_call:
  "builder_call (\<lambda>s. and_then (CBB_flush env d s) (\<lambda>_. seq_calls (map (add_base128_integer env d) (v # vs))))
    (append_option d (Some (concat (map (base128 \<circ> unat) (v # vs))))) d"
  by (rule flush_first_call, rule base128_row) simp

lemma oid_to_text_eq:
  assumes "oid_valid ns" and "wf_cbs c" and "cbs_bytes c = oid_der ns"
  shows "\<exists>row. builder_call row (append_option 0 (Some (oid_text ns @ [0]))) 0 \<and>
    CBS_asn1_oid_to_text env c = (case CBB_init env 32 of (None, _) \<Rightarrow> None
      | (Some _, s) \<Rightarrow> (case and_then (row s) (\<lambda>_ s. CBB_finish env 0 True True s) of (Some (txt, _), _) \<Rightarrow> txt | (None, _) \<Rightarrow> None))"
proof -
  from oid_words [OF assms(1)] obtain a b vs where w0: "ns = map unat (a # b # vs) \<and>
    oid_der ns = concat (map (base128 \<circ> unat) ((40 * a + b :: u64) # vs)) \<and>
    unat (40 * a + b) = 40 * unat a + unat b \<and> unat a \<le> 2 \<and> (unat a < 2 \<longrightarrow> unat b \<le> 39)" by (elim exE)
  then have w: "ns = map unat (a # b # vs)" "oid_der ns = concat (map (base128 \<circ> unat) ((40 * a + b) # vs))"
    and v: "unat (40 * a + b) = 40 * unat a + unat b" "unat a \<le> 2" "unat a < 2 \<Longrightarrow> unat b \<le> 39" by (elim conjE; assumption | blast)+
  define first where "first = 40 * a + b"
  define c1 where "c1 = advance c (length (base128 (unat first)))"
  have bytes: "cbs_bytes c = base128 (unat first) @ concat (map (base128 \<circ> unat) vs)" using w(2) assms(3) by (simp add: first_def)
  have p: "parse_base128_integer c = (Some first, c1)"
    unfolding c1_def by (rule b128.complete [OF assms(2) _ bytes]) simp
  have c1: "wf_cbs c1" "cbs_bytes c1 = concat (map (base128 \<circ> unat) vs)" using assms(2) bytes by (simp_all add: c1_def)
  define head where "head = (if first \<ge> 80 then [CBB_add_bytes env 0 [50, 46] 2, add_decimal env 0 (first - 80)]
    else [add_decimal env 0 (first div 40), CBB_add_u8 env 0 46, add_decimal env 0 (first mod 40)])"
  define tail where "tail = concat (map (\<lambda>v. [CBB_add_u8 env 0 46, add_decimal env 0 v]) vs)"
  define row where "row = seq_calls (head @ tail @ [CBB_add_u8 env 0 0])"
  have loop: "oid_text_loop env c1 = seq_calls tail"
    by (rule ext) (simp add: oid_text_loop_row [OF c1] tail_def)
  have e: "CBS_asn1_oid_to_text env c = (case CBB_init env 32 of (None, _) \<Rightarrow> None
      | (Some _, s) \<Rightarrow> (case and_then (row s) (\<lambda>_ s. CBB_finish env 0 True True s) of (Some (txt, _), _) \<Rightarrow> txt | (None, _) \<Rightarrow> None))"
  proof -
    have one: "seq_calls [x] = x" for x by (rule ext) (simp add: seq_calls_fun and_then_return)
    have hd: "seq_calls head s = (if first \<ge> 80 then and_then (CBB_add_bytes env 0 [50, 46] 2 s) (\<lambda>_. add_decimal env 0 (first - 80))
        else and_then (add_decimal env 0 (first div 40) s) (\<lambda>_ s. and_then (CBB_add_u8 env 0 46 s) (\<lambda>_. add_decimal env 0 (first mod 40))))" for s
      unfolding head_def by (simp add: seq_calls_fun and_then_return)
    show ?thesis
      unfolding CBS_asn1_oid_to_text_def p prod.case option.case loop hd [symmetric] row_def seq_calls_append one and_then_assoc ..
  qed
  have u8: "builder_call (CBB_add_u8 env 0 x) (append_option 0 (Some [x])) 0" for x by (rule u8_call)
  define hp where "hp = (if first \<ge> 80 then [[50, 46], dec_digits (unat (first - 80))]
    else [dec_digits (unat (first div 40)), [46], dec_digits (unat (first mod 40))])"
  have "builder_call (CBB_add_bytes env 0 [50, 46] 2) (append_option 0 (Some [50, 46])) 0"
  proof -
    have "length [50 :: u8, 46] < PTRDIFF_LIMIT" by (simp add: PTRDIFF_LIMIT_def)
    from bytes_call [OF this, of env 0] show ?thesis by (simp flip: numeral_2_eq_2)
  qed
  then have hd: "list_all2 (\<lambda>c bs. builder_call c (append_option 0 (Some bs)) 0) head hp"
    by (simp add: head_def hp_def u8 decimal_call)
  have tl: "list_all2 (\<lambda>c bs. builder_call c (append_option 0 (Some bs)) 0) tail (concat (map (\<lambda>v. [[46], dec_digits (unat v)]) vs))"
    unfolding tail_def by (induction vs) (simp_all add: u8 decimal_call)
  have "list_all2 (\<lambda>c bs. builder_call c (append_option 0 (Some bs)) 0) (head @ tail @ [CBB_add_u8 env 0 0])
      (hp @ concat (map (\<lambda>v. [[46], dec_digits (unat v)]) vs) @ [[0]])"
    by (intro list_all2_appendI hd tl) (simp add: u8)
  from seq_calls_call [OF this]
  have row: "builder_call row (append_option 0 (Some (concat (hp @ concat (map (\<lambda>v. [[46], dec_digits (unat v)]) vs) @ [[0]])))) 0"
    by (simp add: row_def)
  have hp: "concat hp = dec_digits (unat a) @ 46 # dec_digits (unat b)"
  proof (cases "unat a = 2")
    case True
    then have "80 \<le> first" "unat (first - 80) = unat b"
      using v(1) by (simp_all add: first_def [symmetric] word_le_nat_alt unat_sub)
    then show ?thesis using True by (simp add: hp_def dec_digits_small)
  next
    case False
    then have "unat a < 2" using v(2) by simp
    then have "\<not> 80 \<le> first" "unat (first div 40) = unat a" "unat (first mod 40) = unat b"
      using v(1,3) by (simp_all add: first_def [symmetric] word_le_nat_alt unat_div unat_mod)
    then show ?thesis by (simp add: hp_def)
  qed
  have "concat (concat (map (\<lambda>v. [[46], dec_digits (unat v)]) vs)) = concat (map (\<lambda>m. 46 # dec_digits m) (map unat vs))"
    by (induction vs) simp_all
  then have "concat (hp @ concat (map (\<lambda>v. [[46], dec_digits (unat v)]) vs) @ [[0]]) = oid_text ns @ [0]"
    by (simp add: hp w(1) oid_text_pieces)
  with row e show ?thesis by metis
qed

section \<open>Properties\<close>

text \<open>C36: which texts are object identifiers. On a working builder \<open>CBB_add_asn1_oid_from_text\<close> succeeds only
  on the text of a valid list of components (at least two, each below $2^{64}$ and without leading zeros,
  the first at most 2, the second at most 39 where the first is below 2 and in any case below
  $2^{64} - 80$, so that the first octets hold both in one 64-bit number), and then appends exactly the
  DER contents of that identifier. On such a text it can only fail when a child that is still open cannot
  be closed, because its length does not fit its prefix, or when the encoding does not fit the buffer as it is.\<close>

theorem oid_from_text_exact:
  assumes "wf_cbb s" and "d < length (cbb_frames s)" and "\<not> cbb_failed s" and "n \<le> length text" and "length text < SIZE_LIMIT"
  shows "case CBB_add_asn1_oid_from_text env d text n s of
      (Some _, t) \<Rightarrow> \<exists>ns. oid_valid ns \<and> take n text = oid_text ns \<and> wf_cbb t \<and> \<not> cbb_failed t \<and>
        append_levels d (oid_der ns) (cbb_abs s) = Some (cbb_abs t)
    | (None, t) \<Rightarrow> \<forall>ns ls. oid_valid ns \<and> take n text = oid_text ns \<and> append_levels d (oid_der ns) (cbb_abs s) = Some ls \<longrightarrow>
        cbb_cap s < level_size ls"
proof (cases "CBB_add_asn1_oid_from_text env d text n s")
  case (Pair r t)
  show ?thesis
  proof (cases r)
    case (Some x)
    then have ok: "CBB_add_asn1_oid_from_text env d text n s = (Some (), t)" using Pair by simp
    then obtain a b vs where eq: "take n text = oid_text (map unat (a # b # vs))" "oid_valid (map unat (a # b # vs))"
      and c: "and_then (CBB_flush env d s) (\<lambda>_. seq_calls (map (add_base128_integer env d) ((40 * a + b) # vs))) = (Some (), t)"
      unfolding oid_from_text_iff [OF assms(4,5)] by blast
    have "\<not> (a > 2 \<or> a < 2 \<and> b > 39 \<or> b > (0xffffffffffffffff - 80 :: u64))"
      using eq(2) by (auto simp: oid_valid_def word_less_nat_alt)
    then have "oid_der (map unat (a # b # vs)) = concat (map (base128 \<circ> unat) ((40 * a + b) # vs))"
      using first_octets(1) [of a b] by (simp add: oid_der_def comp_def)
    then have "wf_cbb t \<and> \<not> cbb_failed t \<and> append_levels d (oid_der (map unat (a # b # vs))) (cbb_abs s) = Some (cbb_abs t)"
      using builder_call.refines [OF oid_row_call assms(1,2) c] unfolding append_option_def option.case by simp
    with eq have "\<exists>ns. oid_valid ns \<and> take n text = oid_text ns \<and> wf_cbb t \<and> \<not> cbb_failed t \<and>
        append_levels d (oid_der ns) (cbb_abs s) = Some (cbb_abs t)" by blast
    then show ?thesis unfolding ok by simp
  next
    case None
    have "cbb_cap s < level_size ls" if v: "oid_valid ns" and eq: "take n text = oid_text ns" and ls: "append_levels d (oid_der ns) (cbb_abs s) = Some ls" for ns ls
    proof (rule ccontr)
      assume "\<not> cbb_cap s < level_size ls"
      then have fit: "level_size ls \<le> cbb_cap s" by simp
      from oid_words [OF v] obtain a b vs where "ns = map unat (a # b # vs) \<and>
        oid_der ns = concat (map (base128 \<circ> unat) ((40 * a + b :: u64) # vs)) \<and>
        unat (40 * a + b) = 40 * unat a + unat b \<and> unat a \<le> 2 \<and> (unat a < 2 \<longrightarrow> unat b \<le> 39)" by (elim exE)
      note w = conjunct1 [OF this] conjunct1 [OF conjunct2 [OF this]]
      have "fst (and_then (CBB_flush env d s) (\<lambda>_. seq_calls (map (add_base128_integer env d) ((40 * a + b) # vs)))) = Some ()"
        by (rule builder_call.fits [OF oid_row_call assms(1-3) _ fit]) (use ls w(2) in \<open>simp add: append_option_def\<close>)
      then obtain t' where "and_then (CBB_flush env d s) (\<lambda>_. seq_calls (map (add_base128_integer env d) ((40 * a + b) # vs))) = (Some (), t')"
        by (metis prod.collapse)
      then have "CBB_add_asn1_oid_from_text env d text n s = (Some (), t')"
        unfolding oid_from_text_iff [OF assms(4,5)] using eq v w(1) by blast
      then show False using Pair None by simp
    qed
    then show ?thesis using Pair None by auto
  qed
qed

theorem oid_from_text_exact_witness:
  "\<exists>t ns. CBB_add_asn1_oid_from_text roomy_env 0 [49, 46, 50, 46, 56, 52, 48] 7 (snd (CBB_init roomy_env 8)) = (Some (), t) \<and>
     oid_valid ns \<and> [49, 46, 50, 46, 56, 52, 48] = oid_text ns"
proof -
  let ?s = "snd (CBB_init roomy_env 8)" and ?text = "[49, 46, 50, 46, 56, 52, 48] :: bytes"
  have "fst (CBB_init roomy_env 8) = Some ()" by code_simp
  then obtain s where s: "CBB_init roomy_env 8 = (Some (), s)" and ss: "?s = s" by (metis prod.collapse)
  have w: "wf_cbb s \<and> \<not> cbb_failed s \<and> cbb_abs s = fresh_levels \<and> cbb_cap s = 8"
    using init_wf [OF s] by (simp add: PTRDIFF_LIMIT_def)
  then have d: "0 < length (cbb_frames s)" by (auto simp: wf_cbb_def split: option.splits list.splits)
  have ok: "fst (CBB_add_asn1_oid_from_text roomy_env 0 ?text 7 ?s) = Some ()" by code_simp
  then obtain t where t: "CBB_add_asn1_oid_from_text roomy_env 0 ?text 7 s = (Some (), t)" unfolding ss by (metis prod.collapse)
  have "7 \<le> length ?text" "length ?text < SIZE_LIMIT" by (simp_all add: SIZE_LIMIT_def)
  then have "\<exists>ns. oid_valid ns \<and> take 7 ?text = oid_text ns"
    using oid_from_text_exact [of s 0 7 ?text roomy_env] w d unfolding t prod.case option.case by blast
  then show ?thesis unfolding ss using t by auto
qed

text \<open>C37: object identifiers and text. When a text was accepted and the builder finished, the
  string it made is the DER contents of the identifier, and \<open>CBS_asn1_oid_to_text\<close> of it returns the very same text with a
  zero byte behind it; with less than 32 characters it always does once its builder is allocated.\<close>

theorem oid_text_roundtrip:
  assumes "CBB_init env m = (Some (), s)" and "m < PTRDIFF_LIMIT" and "length str < SIZE_LIMIT"
    and "CBB_add_asn1_oid_from_text env 0 str (length str) s = (Some (), t)"
    and "CBB_finish env 0 True True t = (Some (Some out, Some k), u)"
  shows "\<exists>ns. oid_valid ns \<and> str = oid_text ns \<and> take k out = oid_der ns \<and>
    (case CBS_asn1_oid_to_text env (CBS_init out k) of
       Some res \<Rightarrow> take (length str + 1) res = str @ [0]
     | None \<Rightarrow> length str < 32 \<longrightarrow> fst (CBB_init env 32) = None)"
proof -
  have w: "wf_cbb s" "\<not> cbb_failed s" "cbb_abs s = fresh_levels" using init_wf [OF assms(1,2)] by simp_all
  have d: "0 < length (cbb_frames s)" using w(1) by (auto simp: wf_cbb_def split: option.splits list.splits)
  obtain a b vs where eq: "str = oid_text (map unat (a # b # vs))" and v: "oid_valid (map unat (a # b # vs))"
    and c: "and_then (CBB_flush env 0 s) (\<lambda>_. seq_calls (map (add_base128_integer env 0) ((40 * a + b) # vs))) = (Some (), t)"
    using assms(4) oid_from_text_iff [of "length str" str env 0 s t] assms(3) by auto
  let ?ns = "map unat (a # b # vs)"
  have "\<not> (a > 2 \<or> a < 2 \<and> b > 39 \<or> b > (0xffffffffffffffff - 80 :: u64))"
    using v by (auto simp: oid_valid_def word_less_nat_alt)
  then have der: "oid_der ?ns = concat (map (base128 \<circ> unat) ((40 * a + b) # vs))"
    using first_octets(1) [of a b] by (simp add: oid_der_def comp_def)
  have one: "take k out = oid_der ?ns \<and> k = length (oid_der ?ns) \<and> k \<le> length out"
    using one_string(1) [OF oid_row_call assms(1,2) c assms(5)] unfolding der by blast
  have t: "wf_cbb t" using builder_call.refines [OF oid_row_call w(1) d c] by simp
  have "length out < SIZE_LIMIT" using finish_limit [OF t assms(5)] by (simp add: PTRDIFF_LIMIT_def SIZE_LIMIT_def)
  then have cbs: "wf_cbs (CBS_init out k)" "cbs_bytes (CBS_init out k) = oid_der ?ns"
    using conjunct1 [OF one] conjunct2 [OF conjunct2 [OF one]] by (simp_all add: wf_cbs_def)
  from oid_to_text_eq [OF v cbs, of env] obtain row where row: "builder_call row (append_option 0 (Some (oid_text ?ns @ [0]))) 0"
    and e: "CBS_asn1_oid_to_text env (CBS_init out k) = (case CBB_init env 32 of (None, _) \<Rightarrow> None
      | (Some _, s) \<Rightarrow> (case and_then (row s) (\<lambda>_ s. CBB_finish env 0 True True s) of (Some (res, _), _) \<Rightarrow> res | (None, _) \<Rightarrow> None))"
    by blast
  have "case CBS_asn1_oid_to_text env (CBS_init out k) of
       Some res \<Rightarrow> take (length str + 1) res = str @ [0]
     | None \<Rightarrow> length str < 32 \<longrightarrow> fst (CBB_init env 32) = None"
  proof (cases "CBB_init env 32")
    case (Pair x s')
    show ?thesis
    proof (cases x)
      case None
      then show ?thesis using Pair by (simp add: e)
    next
      case (Some y)
      then have i: "CBB_init env 32 = (Some (), s')" "(32 :: nat) < PTRDIFF_LIMIT" using Pair by (simp_all add: PTRDIFF_LIMIT_def)
      note one' = one_string [OF row i]
      have "take (length str + 1) res = str @ [0]" if "CBS_asn1_oid_to_text env (CBS_init out k) = Some res" for res
      proof -
        obtain x u' where f: "and_then (row s') (\<lambda>_ s. CBB_finish env 0 True True s) = (x, u')" by fastforce
        with that obtain l where "x = Some (Some res, l)" by (cases x) (auto simp: e i)
        with f obtain t' where r: "row s' = (Some (), t')" "CBB_finish env 0 True True t' = (Some (Some res, l), u')"
          by (auto simp: and_then_Some)
        then obtain k' where "l = Some k'" by (auto simp: CBB_finish_def and_then_Some split: if_splits option.splits)
        then show ?thesis using one'(1) [of t' res k' u'] r eq by auto
      qed
      moreover have "CBS_asn1_oid_to_text env (CBS_init out k) \<noteq> None" if "length str < 32"
        using one'(2) that eq by (auto simp: e i)
      ultimately show ?thesis by (auto split: option.splits)
    qed
  qed
  then show ?thesis using v eq one by blast
qed

theorem oid_text_roundtrip_witness:
  "\<exists>out k ns res. take k out = oid_der ns \<and> [50, 46, 49, 48, 48] = oid_text ns \<and>
     CBS_asn1_oid_to_text roomy_env (CBS_init out k) = Some res \<and> take 6 res = [50, 46, 49, 48, 48, 0]"
proof -
  let ?str = "[50, 46, 49, 48, 48] :: bytes" and ?s = "snd (CBB_init roomy_env 8)"
  let ?t = "snd (CBB_add_asn1_oid_from_text roomy_env 0 ?str (length ?str) ?s)"
  have c: "fst (CBB_init roomy_env 8) = Some ()" "fst (CBB_add_asn1_oid_from_text roomy_env 0 ?str (length ?str) ?s) = Some ()"
    "fst (CBB_finish roomy_env 0 True True ?t) = Some (Some [129, 52, 0, 0, 0, 0, 0, 0], Some 2)" "fst (CBB_init roomy_env 32) \<noteq> None"
    by code_simp+
  have s: "CBB_init roomy_env 8 = (Some (), ?s)" "CBB_add_asn1_oid_from_text roomy_env 0 ?str (length ?str) ?s = (Some (), ?t)"
    "CBB_finish roomy_env 0 True True ?t = (Some (Some [129, 52, 0, 0, 0, 0, 0, 0], Some 2), snd (CBB_finish roomy_env 0 True True ?t))"
    using c by (simp_all only: prod_eq_iff fst_conv snd_conv)
  have "(8 :: nat) < PTRDIFF_LIMIT" "length ?str < SIZE_LIMIT" by (simp_all add: PTRDIFF_LIMIT_def SIZE_LIMIT_def)
  from oid_text_roundtrip [OF s(1) this s(2,3)] obtain ns where ns: "?str = oid_text ns" "take 2 [129, 52, 0, 0, 0, 0, 0, 0] = oid_der ns"
    and r: "case CBS_asn1_oid_to_text roomy_env (CBS_init [129, 52, 0, 0, 0, 0, 0, 0] 2) of
       Some res \<Rightarrow> take (length ?str + 1) res = ?str @ [0]
     | None \<Rightarrow> length ?str < 32 \<longrightarrow> fst (CBB_init roomy_env 32) = None" by blast
  from r c(4) obtain res where "CBS_asn1_oid_to_text roomy_env (CBS_init [129, 52, 0, 0, 0, 0, 0, 0] 2) = Some res"
      "take 6 res = [50, 46, 49, 48, 48, 0]" by (auto simp: eval_nat_numeral split: option.splits)
  with ns show ?thesis by blast
qed

end
