(* ===== verification/Stack.thy ===== *)
theory Stack
  imports Mem "HOL-Library.Multiset"
begin

text \<open>
  \<open>crypto/stack/stack.c\<close>: the growable array of pointers under every \<open>STACK_OF(T)\<close>. A pointer
  is a \<^typ>\<open>'p option\<close>, \<^const>\<open>None\<close> for \<open>NULL\<close>; a comparison function pointer is a \<^typ>\<open>'c\<close>
  and the \<open>call_cmp_func\<close> argument of the code gives it its meaning. \<open>data\<close> is the whole
  allocated array, so its length is the number of pointers that may be stored. A \<open>_STACK *\<close>
  that may be \<open>NULL\<close> is an option.
\<close>

unbundle bit_operations_syntax

record ('c, 'p) stack_st =
  num :: nat
  sk_data :: "'p option list"
  sorted_flag :: bool
  num_alloc :: nat
  comp :: "'c option"

definition kMinSize :: nat where
  "kMinSize = 4"

text \<open>\<open>OPENSSL_realloc\<close> on an array of pointers: \<open>alloc_size\<close> is in bytes, \<open>fill\<close> is what new slots hold.\<close>

definition realloc_pointers ::
  "mem_env \<Rightarrow> (nat \<Rightarrow> 'p option) \<Rightarrow> 'p option list \<Rightarrow> nat \<Rightarrow> 'p option list option" where
  "realloc_pointers env fill data alloc_size =
     (if OPENSSL_malloc env alloc_size = None then None
      else Some (take (alloc_size div 8) data @ map fill [length data..<alloc_size div 8]))"

definition sk_new :: "mem_env \<Rightarrow> 'c option \<Rightarrow> ('c, 'p) stack_st option" where
  "sk_new env c =
     (if OPENSSL_malloc env 40 = None then None
      else if OPENSSL_malloc env (8 * kMinSize) = None then None
      else Some \<lparr>num = 0, sk_data = replicate kMinSize None, sorted_flag = False, num_alloc = kMinSize, comp = c\<rparr>)"

definition sk_new_null :: "mem_env \<Rightarrow> ('c, 'p) stack_st option" where
  "sk_new_null env = sk_new env None"

fun sk_num :: "('c, 'p) stack_st option \<Rightarrow> nat" where
  "sk_num None = 0"
| "sk_num (Some sk) = num sk"

definition sk_zero :: "('c, 'p) stack_st \<Rightarrow> ('c, 'p) stack_st" where
  "sk_zero sk =
     (if num sk = 0 then sk
      else sk\<lparr>sk_data := replicate (num sk) None @ drop (num sk) (sk_data sk), num := 0, sorted_flag := False\<rparr>)"

fun sk_value :: "('c, 'p) stack_st option \<Rightarrow> nat \<Rightarrow> 'p option" where
  "sk_value None i = None"
| "sk_value (Some sk) i = (if i \<ge> num sk then None else sk_data sk ! i)"

definition sk_set :: "('c, 'p) stack_st \<Rightarrow> nat \<Rightarrow> 'p option \<Rightarrow> 'p option \<times> ('c, 'p) stack_st" where
  "sk_set sk i value =
     (if i \<ge> num sk then (None, sk) else (value, sk\<lparr>sk_data := (sk_data sk)[i := value]\<rparr>))"

text \<open>The pointers that \<open>sk_pop_free_ex\<close> passes to the free function, in order.\<close>

fun sk_pop_free_ex :: "('c, 'p) stack_st option \<Rightarrow> 'p list" where
  "sk_pop_free_ex None = []"
| "sk_pop_free_ex (Some sk) = concat (map (\<lambda>i. case sk_data sk ! i of None \<Rightarrow> [] | Some p \<Rightarrow> [p]) [0..<num sk])"

text \<open>
  \<open>memmove(&data[to], &data[from], 8 * n)\<close> within one array.
\<close>

definition move_pointers :: "'p option list \<Rightarrow> nat \<Rightarrow> nat \<Rightarrow> nat \<Rightarrow> 'p option list" where
  "move_pointers data to_i from_i n = take to_i data @ take n (drop from_i data) @ drop (to_i + n) data"

fun sk_insert ::
  "mem_env \<Rightarrow> (nat \<Rightarrow> 'p option) \<Rightarrow> ('c, 'p) stack_st option \<Rightarrow> 'p option \<Rightarrow> nat \<Rightarrow> nat \<times> ('c, 'p) stack_st option" where
  "sk_insert env fill None p pos = (0, None)"
| "sk_insert env fill (Some sk) p pos =
     (case
        (if num_alloc sk \<le> num sk + 1
         then
           let new_alloc = size_mul (num_alloc sk) 2;
               alloc_size = size_mul new_alloc 8;
               (new_alloc, alloc_size) =
                 (if new_alloc < num_alloc sk \<or> alloc_size div 8 \<noteq> new_alloc
                  then let new_alloc = size_add (num_alloc sk) 1 in (new_alloc, size_mul new_alloc 8)
                  else (new_alloc, alloc_size))
           in if new_alloc < num_alloc sk \<or> alloc_size div 8 \<noteq> new_alloc then None
              else (case realloc_pointers env fill (sk_data sk) alloc_size of
                      None \<Rightarrow> None
                    | Some data \<Rightarrow> Some (sk\<lparr>sk_data := data, num_alloc := new_alloc\<rparr>))
         else Some sk)
      of None \<Rightarrow> (0, Some sk)
       | Some sk \<Rightarrow>
           let data =
             (if pos \<ge> num sk then (sk_data sk)[num sk := p]
              else (move_pointers (sk_data sk) (pos + 1) pos (num sk - pos))[pos := p])
           in (num sk + 1, Some (sk\<lparr>sk_data := data, num := num sk + 1, sorted_flag := False\<rparr>)))"

fun sk_delete :: "('c, 'p) stack_st option \<Rightarrow> nat \<Rightarrow> 'p option \<times> ('c, 'p) stack_st option" where
  "sk_delete None pos = (None, None)"
| "sk_delete (Some sk) pos =
     (if pos \<ge> num sk then (None, Some sk)
      else
        let ret = sk_data sk ! pos;
            data = (if pos \<noteq> num sk - 1 then move_pointers (sk_data sk) pos (pos + 1) (num sk - pos - 1) else sk_data sk)
        in (ret, Some (sk\<lparr>sk_data := data, num := num sk - 1\<rparr>)))"

fun sk_delete_ptr :: "('c, 'p) stack_st option \<Rightarrow> 'p option \<Rightarrow> 'p option \<times> ('c, 'p) stack_st option" where
  "sk_delete_ptr None p = (None, None)"
| "sk_delete_ptr (Some sk) p =
     (case find (\<lambda>i. sk_data sk ! i = p) [0..<num sk] of
        None \<Rightarrow> (None, Some sk)
      | Some i \<Rightarrow> sk_delete (Some sk) i)"

fun sk_is_sorted :: "('c, 'p) stack_st option \<Rightarrow> bool" where
  "sk_is_sorted None = True"
| "sk_is_sorted (Some sk) = sorted_flag sk"

text \<open>The binary search on the sorted array; the half-open interval shrinks in every branch.\<close>

function sk_find_loop :: "('p option \<Rightarrow> 'p option \<Rightarrow> int) \<Rightarrow> 'p option list \<Rightarrow> 'p option \<Rightarrow> nat \<Rightarrow> nat \<Rightarrow> nat option" where
  "sk_find_loop cmp data p lo hi =
     (if lo < hi
      then
        let mid = lo + (hi - lo - 1) div 2;
            r = cmp p (data ! mid)
        in if r > 0 then sk_find_loop cmp data p (mid + 1) hi
           else if r < 0 then sk_find_loop cmp data p lo mid
           else if hi - lo = 1 then Some mid
           else sk_find_loop cmp data p lo (mid + 1)
      else None)"
  by pat_completeness auto
termination
  by (relation "measure (\<lambda>(cmp, data, p, lo, hi). hi - lo)") auto

declare sk_find_loop.simps [simp del]

fun sk_find ::
  "('c \<Rightarrow> 'p option \<Rightarrow> 'p option \<Rightarrow> int) \<Rightarrow> ('c, 'p) stack_st option \<Rightarrow> 'p option \<Rightarrow> nat option" where
  "sk_find call_cmp_func None p = None"
| "sk_find call_cmp_func (Some sk) p =
     (case comp sk of
        None \<Rightarrow> find (\<lambda>i. sk_data sk ! i = p) [0..<num sk]
      | Some c \<Rightarrow>
          if p = None then None
          else if \<not> sk_is_sorted (Some sk)
          then find (\<lambda>i. call_cmp_func c p (sk_data sk ! i) = 0) [0..<num sk]
          else sk_find_loop (call_cmp_func c) (sk_data sk) p 0 (num sk))"

fun sk_shift :: "('c, 'p) stack_st option \<Rightarrow> 'p option \<times> ('c, 'p) stack_st option" where
  "sk_shift None = (None, None)"
| "sk_shift (Some sk) = (if num sk = 0 then (None, Some sk) else sk_delete (Some sk) 0)"

definition sk_push ::
  "mem_env \<Rightarrow> (nat \<Rightarrow> 'p option) \<Rightarrow> ('c, 'p) stack_st option \<Rightarrow> 'p option \<Rightarrow> nat \<times> ('c, 'p) stack_st option" where
  "sk_push env fill sk p = sk_insert env fill sk p (sk_num sk)"

fun sk_pop :: "('c, 'p) stack_st option \<Rightarrow> 'p option \<times> ('c, 'p) stack_st option" where
  "sk_pop None = (None, None)"
| "sk_pop (Some sk) = (if num sk = 0 then (None, Some sk) else sk_delete (Some sk) (num sk - 1))"

fun sk_dup :: "mem_env \<Rightarrow> (nat \<Rightarrow> 'p option) \<Rightarrow> ('c, 'p) stack_st option \<Rightarrow> ('c, 'p) stack_st option" where
  "sk_dup env fill None = None"
| "sk_dup env fill (Some sk) =
     (case sk_new env (comp sk) of
        None \<Rightarrow> None
      | Some ret \<Rightarrow>
          (case realloc_pointers env fill (sk_data ret) (size_mul 8 (num_alloc sk)) of
             None \<Rightarrow> None
           | Some s \<Rightarrow>
               Some \<lparr>num = num sk, sk_data = take (num sk) (sk_data sk) @ drop (num sk) s,
                 sorted_flag = sorted_flag sk, num_alloc = num_alloc sk, comp = comp sk\<rparr>))"

text \<open>\<open>qsort\<close> of the C library is an argument; it sorts the first \<open>num\<close> pointers.\<close>

definition sk_sort ::
  "(('p option \<Rightarrow> 'p option \<Rightarrow> int) \<Rightarrow> 'p option list \<Rightarrow> 'p option list) \<Rightarrow>
   ('c \<Rightarrow> 'p option \<Rightarrow> 'p option \<Rightarrow> int) \<Rightarrow> ('c, 'p) stack_st \<Rightarrow> ('c, 'p) stack_st" where
  "sk_sort qsort call_cmp_func sk =
     (case comp sk of
        None \<Rightarrow> sk
      | Some c \<Rightarrow>
          if sorted_flag sk then sk
          else
            let data =
              (if num sk \<ge> 2
               then qsort (call_cmp_func c) (take (num sk) (sk_data sk)) @ drop (num sk) (sk_data sk)
               else sk_data sk)
            in sk\<lparr>sk_data := data, sorted_flag := True\<rparr>)"

definition sk_set_cmp_func :: "('c, 'p) stack_st \<Rightarrow> 'c option \<Rightarrow> 'c option \<times> ('c, 'p) stack_st" where
  "sk_set_cmp_func sk c =
     (let old = comp sk;
          sk = (if comp sk \<noteq> c then sk\<lparr>sorted_flag := False\<rparr> else sk)
      in (old, sk\<lparr>comp := c\<rparr>))"

text \<open>
  The loop of \<open>sk_deep_copy\<close>: \<open>Inl\<close> with the copies it frees when a copy fails, \<open>Inr\<close> with the
  copied array otherwise. A \<open>NULL\<close> element is kept.
\<close>

fun sk_deep_copy_loop :: "('p option \<Rightarrow> 'p option) \<Rightarrow> 'p option list \<Rightarrow> nat \<Rightarrow> nat \<Rightarrow> 'p list + 'p option list" where
  "sk_deep_copy_loop copy data i 0 = Inr data"
| "sk_deep_copy_loop copy data i (Suc k) =
     (if data ! i = None then sk_deep_copy_loop copy data (Suc i) k
      else case copy (data ! i) of
             None \<Rightarrow> Inl (concat (map (\<lambda>j. case data ! j of None \<Rightarrow> [] | Some p \<Rightarrow> [p]) [0..<i]))
           | Some p \<Rightarrow> sk_deep_copy_loop copy (data[i := Some p]) (Suc i) k)"

text \<open>The result is the copy, and the copies that were freed.\<close>

definition sk_deep_copy ::
  "mem_env \<Rightarrow> (nat \<Rightarrow> 'p option) \<Rightarrow> ('p option \<Rightarrow> 'p option) \<Rightarrow> ('c, 'p) stack_st option \<Rightarrow>
   ('c, 'p) stack_st option \<times> 'p list" where
  "sk_deep_copy env fill copy sk =
     (case sk_dup env fill sk of
        None \<Rightarrow> (None, [])
      | Some ret \<Rightarrow>
          (case sk_deep_copy_loop copy (sk_data ret) 0 (num ret) of
             Inl freed \<Rightarrow> (None, freed)
           | Inr data \<Rightarrow> (Some (ret\<lparr>sk_data := data\<rparr>), [])))"

end
