(* ===== verification/Stack_Spec.thy ===== *)
theory Stack_Spec
  imports Stack
begin

text \<open>
  What \<open>stack.c\<close> promises: the array always has a free slot, a stack is a list on which
  insertions and deletions act by position, the \<open>sorted\<close> flag is truthful, and the binary search
  of a sorted stack finds the same element as a search from the front.
\<close>

section \<open>The abstract list\<close>

text \<open>
  A stack stands for the list of its first \<open>num\<close> pointers. There is always room for one more:
  the store behind the last element in \<open>sk_insert\<close> stays inside the array.
\<close>

definition wf_stack :: "('c, 'p) stack_st \<Rightarrow> bool" where
  "wf_stack sk = (num sk < num_alloc sk \<and> length (sk_data sk) = num_alloc sk \<and> num_alloc sk < 2 ^ 60)"

definition sk_list :: "('c, 'p) stack_st \<Rightarrow> 'p option list" where
  "sk_list sk = take (num sk) (sk_data sk)"

lemma length_sk_list [simp]: "wf_stack sk \<Longrightarrow> length (sk_list sk) = num sk"
  by (simp add: wf_stack_def sk_list_def)

lemma nth_sk_list: "i < num sk \<Longrightarrow> sk_data sk ! i = sk_list sk ! i"
  by (simp add: sk_list_def)

lemma malloc_limit:
  assumes "OPENSSL_malloc env n \<noteq> None" and "n < SIZE_LIMIT - OPENSSL_MALLOC_PREFIX"
  shows "n + OPENSSL_MALLOC_PREFIX < PTRDIFF_LIMIT"
  using assms OPENSSL_malloc_length(2) by blast

lemma sk_new_wf:
  assumes "sk_new env c = Some sk"
  shows "wf_stack sk" "sk_list sk = []" "comp sk = c" "\<not> sorted_flag sk"
  using assms by (auto simp: sk_new_def wf_stack_def sk_list_def kMinSize_def split: if_splits)

text \<open>Growing the array: to twice its size, unless there is no memory.\<close>

lemma realloc_pointers_eq:
  assumes "realloc_pointers env fill data (8 * n) = Some data'" and "length data \<le> n" and "n < 2 ^ 61 - 1"
  shows "data' = data @ map fill [length data..<n]" "n < 2 ^ 60"
proof -
  have "8 * n + OPENSSL_MALLOC_PREFIX < PTRDIFF_LIMIT"
    using assms by (intro malloc_limit) (auto simp: realloc_pointers_def SIZE_LIMIT_def OPENSSL_MALLOC_PREFIX_def split: if_splits)
  then show "n < 2 ^ 60" by (simp add: PTRDIFF_LIMIT_def OPENSSL_MALLOC_PREFIX_def)
  show "data' = data @ map fill [length data..<n]"
    using assms(1,2) by (auto simp: realloc_pointers_def split: if_splits)
qed

definition sk_grow :: "mem_env \<Rightarrow> (nat \<Rightarrow> 'p option) \<Rightarrow> ('c, 'p) stack_st \<Rightarrow> ('c, 'p) stack_st option" where
  "sk_grow env fill sk =
     (if num_alloc sk \<le> num sk + 1
      then map_option (\<lambda>data. sk\<lparr>sk_data := data, num_alloc := 2 * num_alloc sk\<rparr>)
             (realloc_pointers env fill (sk_data sk) (8 * (2 * num_alloc sk)))
      else Some sk)"

lemma sk_grow_wf:
  assumes "sk_grow env fill sk = Some sk'" and "wf_stack sk"
  shows "num sk' + 1 < num_alloc sk'" "wf_stack sk'" "sk_list sk' = sk_list sk" "num sk' = num sk" "comp sk' = comp sk"
proof -
  have "num sk' + 1 < num_alloc sk' \<and> wf_stack sk' \<and> sk_list sk' = sk_list sk \<and> num sk' = num sk \<and> comp sk' = comp sk"
  proof (cases "num_alloc sk \<le> num sk + 1")
    case True
    then obtain data where r: "realloc_pointers env fill (sk_data sk) (8 * (2 * num_alloc sk)) = Some data"
      and sk': "sk' = sk\<lparr>sk_data := data, num_alloc := 2 * num_alloc sk\<rparr>"
      using assms(1) by (auto simp: sk_grow_def)
    have "length (sk_data sk) \<le> 2 * num_alloc sk" "2 * num_alloc sk < 2 ^ 61 - 1"
      using assms(2) by (auto simp: wf_stack_def)
    from realloc_pointers_eq [OF r this] assms(2) show ?thesis
      by (simp add: sk' wf_stack_def sk_list_def)
  next
    case False
    with assms show ?thesis by (auto simp: sk_grow_def wf_stack_def)
  qed
  then show "num sk' + 1 < num_alloc sk'" "wf_stack sk'" "sk_list sk' = sk_list sk" "num sk' = num sk" "comp sk' = comp sk"
    by simp_all
qed

lemma sk_insert_grow:
  assumes "wf_stack sk"
  shows "sk_insert env fill (Some sk) p pos =
    (case sk_grow env fill sk of None \<Rightarrow> (0, Some sk)
     | Some sk \<Rightarrow>
         let data =
           (if pos \<ge> num sk then (sk_data sk)[num sk := p]
            else (move_pointers (sk_data sk) (pos + 1) pos (num sk - pos))[pos := p])
         in (num sk + 1, Some (sk\<lparr>sk_data := data, num := num sk + 1, sorted_flag := False\<rparr>)))"
proof -
  have "size_mul (num_alloc sk) 2 = 2 * num_alloc sk"
    "size_mul (2 * num_alloc sk) 8 = 8 * (2 * num_alloc sk)"
    using assms by (simp_all add: wf_stack_def size_mul_small SIZE_LIMIT_def)
  then show ?thesis by (simp add: sk_grow_def Let_def split: option.splits)
qed

declare sk_insert.simps [simp del]

lemma sk_insert_eq:
  assumes "wf_stack sk" and "sk_insert env fill (Some sk) p pos = (r, s)"
  shows "\<exists>sk'. s = Some sk' \<and> wf_stack sk' \<and> comp sk' = comp sk \<and>
    (r = 0 \<and> sk' = sk \<or>
     r = num sk + 1 \<and> \<not> sorted_flag sk' \<and> sk_list sk' = take pos (sk_list sk) @ p # drop pos (sk_list sk))"
proof (cases "sk_grow env fill sk")
  case None
  with assms show ?thesis by (simp add: sk_insert_grow)
next
  case (Some sk1)
  note g = sk_grow_wf [OF Some assms(1)]
  let ?n = "num sk1"
  let ?data = "if pos \<ge> ?n then (sk_data sk1)[?n := p]
      else (move_pointers (sk_data sk1) (pos + 1) pos (?n - pos))[pos := p]"
  let ?sk = "sk1\<lparr>sk_data := ?data, num := ?n + 1, sorted_flag := False\<rparr>"
  have s: "r = ?n + 1" "s = Some ?sk" using assms Some by (auto simp: sk_insert_grow Let_def)
  have len: "length (sk_data sk1) = num_alloc sk1" "?n + 1 < num_alloc sk1" using g by (auto simp: wf_stack_def)
  have wf: "wf_stack ?sk" using g len by (simp add: wf_stack_def move_pointers_def)
  have "sk_list ?sk = take pos (sk_list sk1) @ p # drop pos (sk_list sk1)"
  proof (cases "pos \<ge> ?n")
    case True
    then show ?thesis using len
      by (simp add: sk_list_def take_Suc_conv_app_nth)
  next
    case False
    then have "pos \<le> ?n" by simp
    have "take (?n + 1) ((move_pointers (sk_data sk1) (pos + 1) pos (?n - pos))[pos := p]) =
        take pos (sk_data sk1) @ p # take (?n - pos) (drop pos (sk_data sk1))"
      using \<open>pos \<le> ?n\<close> len by (simp add: move_pointers_def list_update_append upd_conv_take_nth_drop Suc_diff_le)
    then show ?thesis using False by (simp add: sk_list_def drop_take min_def)
  qed
  with s wf g show ?thesis by auto
qed


lemma sk_delete_eq:
  assumes "wf_stack sk" and "sk_delete (Some sk) pos = (r, s)"
  shows "\<exists>sk'. s = Some sk' \<and> wf_stack sk' \<and> comp sk' = comp sk \<and> sorted_flag sk' = sorted_flag sk \<and>
    sk_list sk' = take pos (sk_list sk) @ drop (pos + 1) (sk_list sk) \<and>
    r = (if pos < num sk then sk_list sk ! pos else None)"
proof (cases "pos < num sk")
  case False
  with assms show ?thesis by auto
next
  case True
  have len: "length (sk_data sk) = num_alloc sk" "num sk < num_alloc sk" using assms(1) by (auto simp: wf_stack_def)
  let ?data = "if pos \<noteq> num sk - 1 then move_pointers (sk_data sk) pos (pos + 1) (num sk - pos - 1) else sk_data sk"
  have "take (num sk - 1) ?data = take pos (sk_list sk) @ drop (pos + 1) (sk_list sk)"
  proof (cases "pos = num sk - 1")
    case False
    with True len have "pos + 1 < num sk" by simp
    with len show ?thesis
      by (auto simp: move_pointers_def sk_list_def drop_take min_def)
  qed (use True in \<open>simp add: sk_list_def\<close>)
  moreover have "r = sk_data sk ! pos" "s = Some (sk\<lparr>sk_data := ?data, num := num sk - 1\<rparr>)"
    using True assms(2) by (auto simp: Let_def)
  ultimately show ?thesis
    using True len assms(1) by (auto simp: wf_stack_def sk_list_def move_pointers_def)
qed

declare sk_delete.simps(2) [simp del]

text \<open>
  The contract of an indexed list of pointers, for its clients: a store that keeps an invariant,
  stands for a list and inserts at and deletes from a position. An insertion may fail and then
  changes nothing.
\<close>

locale pointer_list =
  fixes inv :: "'s \<Rightarrow> bool" and abs :: "'s \<Rightarrow> 'a list"
    and ins :: "'s \<Rightarrow> 'a \<Rightarrow> nat \<Rightarrow> nat \<times> 's" and del :: "'s \<Rightarrow> nat \<Rightarrow> 'a \<times> 's"
  assumes ins: "inv s \<Longrightarrow> ins s x i = (r, s') \<Longrightarrow>
      inv s' \<and> (r = 0 \<and> abs s' = abs s \<or> r = length (abs s) + 1 \<and> abs s' = take i (abs s) @ x # drop i (abs s))"
    and del: "inv s \<Longrightarrow> del s i = (y, s') \<Longrightarrow> i < length (abs s) \<Longrightarrow>
      inv s' \<and> y = abs s ! i \<and> abs s' = take i (abs s) @ drop (i + 1) (abs s)"
begin

text \<open>A stack: what was pushed last is popped first; a queue: shifted in the order of the pushes.\<close>

lemma push:
  assumes "inv s" and "ins s x (length (abs s)) = (r, s')" and "r \<noteq> 0"
  shows "inv s' \<and> abs s' = abs s @ [x]"
  using ins [OF assms(1,2)] assms(3) by auto

lemma push_pop:
  assumes "inv s" and "ins s x (length (abs s)) = (r, s')" and "r \<noteq> 0"
    and "del s' (length (abs s') - 1) = (y, s'')"
  shows "inv s'' \<and> y = x \<and> abs s'' = abs s"
  using push [OF assms(1-3)] del [of s' "length (abs s') - 1" y s''] assms(4) by (auto simp: nth_append)

lemma shift:
  assumes "inv s" and "abs s = x # xs" and "del s 0 = (y, s')"
  shows "inv s' \<and> y = x \<and> abs s' = xs"
  using del [OF assms(1,3)] assms(2) by simp

end


definition stack_inv :: "('c, 'p) stack_st option \<Rightarrow> bool" where
  "stack_inv s = (case s of None \<Rightarrow> False | Some sk \<Rightarrow> wf_stack sk)"

definition stack_abs :: "('c, 'p) stack_st option \<Rightarrow> 'p option list" where
  "stack_abs s = (case s of None \<Rightarrow> [] | Some sk \<Rightarrow> sk_list sk)"

lemma stack_inv_abs [simp]: "stack_inv (Some sk) = wf_stack sk" "\<not> stack_inv None" "stack_abs (Some sk) = sk_list sk"
  by (simp_all add: stack_inv_def stack_abs_def)

interpretation sk: pointer_list stack_inv stack_abs "sk_insert env fill" sk_delete
proof
  fix s s' :: "('a, 'b) stack_st option" and x i r
  assume inv: "stack_inv s" and i: "sk_insert env fill s x i = (r, s')"
  obtain sk where s: "s = Some sk" "wf_stack sk" using inv by (cases s) simp_all
  from sk_insert_eq [OF s(2) i [unfolded s(1)]] s(2)
  show "stack_inv s' \<and> (r = 0 \<and> stack_abs s' = stack_abs s \<or>
      r = length (stack_abs s) + 1 \<and> stack_abs s' = take i (stack_abs s) @ x # drop i (stack_abs s))"
    by (auto simp: s(1))
next
  fix s s' :: "('a, 'b) stack_st option" and y i
  assume inv: "stack_inv s" and d: "sk_delete s i = (y, s')" and lt: "i < length (stack_abs s)"
  obtain sk where s: "s = Some sk" "wf_stack sk" using inv by (cases s) simp_all
  from sk_delete_eq [OF s(2) d [unfolded s(1)]] s(2) lt
  show "stack_inv s' \<and> y = stack_abs s ! i \<and> stack_abs s' = take i (stack_abs s) @ drop (i + 1) (stack_abs s)"
    by (auto simp: s(1))
qed

section \<open>Sorting and searching\<close>

text \<open>What \<open>stack_cmp_func\<close> promises: the sign is a total preorder.\<close>

definition cmp_order :: "('a \<Rightarrow> 'a \<Rightarrow> int) \<Rightarrow> bool" where
  "cmp_order cmp =
     ((\<forall>x y. cmp x y > 0 \<longleftrightarrow> cmp y x < 0) \<and> (\<forall>x y z. cmp x y \<le> 0 \<longrightarrow> cmp y z \<le> 0 \<longrightarrow> cmp x z \<le> 0))"

definition cmp_order_on :: "'a set \<Rightarrow> ('a \<Rightarrow> 'a \<Rightarrow> int) \<Rightarrow> bool" where
  "cmp_order_on A cmp =
     ((\<forall>x\<in>A. \<forall>y\<in>A. cmp x y > 0 \<longleftrightarrow> cmp y x < 0) \<and>
      (\<forall>x\<in>A. \<forall>y\<in>A. \<forall>z\<in>A. cmp x y \<le> 0 \<longrightarrow> cmp y z \<le> 0 \<longrightarrow> cmp x z \<le> 0))"

lemma cmp_order_on [simp]: "cmp_order cmp \<Longrightarrow> cmp_order_on A cmp"
  unfolding cmp_order_def cmp_order_on_def by blast

abbreviation sorted_by :: "('a \<Rightarrow> 'a \<Rightarrow> int) \<Rightarrow> 'a list \<Rightarrow> bool" where
  "sorted_by cmp \<equiv> sorted_wrt (\<lambda>x y. cmp x y \<le> 0)"

lemma cmp_order_search:
  assumes "cmp_order cmp" and "cmp a b \<le> 0"
  shows "cmp p b > 0 \<Longrightarrow> cmp p a > 0" "cmp p a < 0 \<Longrightarrow> cmp p b < 0"
  using assms unfolding cmp_order_def by (metis not_le)+

lemma find_append: "find P (xs @ ys) = (case find P xs of None \<Rightarrow> find P ys | Some x \<Rightarrow> Some x)"
  by (induction xs) simp_all

lemma find_upt_split: "lo \<le> m \<Longrightarrow> m \<le> hi \<Longrightarrow> find P [lo..<hi] =
    (case find P [lo..<m] of None \<Rightarrow> find P [m..<hi] | Some x \<Rightarrow> Some x)"
  by (metis find_append le_add_diff_inverse upt_add_eq_append)

lemma find_upt_None: "(\<And>i. lo \<le> i \<Longrightarrow> i < hi \<Longrightarrow> \<not> P i) \<Longrightarrow> find P [lo..<hi] = None"
  by (simp add: find_None_iff)

text \<open>The binary search finds what a search from the front finds: the first match.\<close>

lemma sk_find_loop_eq:
  assumes "cmp_order cmp" and "sorted_by cmp (take n data)" and "hi \<le> n" and "n \<le> length data"
  shows "sk_find_loop cmp data p lo hi = find (\<lambda>i. cmp p (data ! i) = 0) [lo..<hi]"
  using assms(3)
proof (induction "hi - lo" arbitrary: lo hi rule: less_induct)
  case less
  let ?P = "\<lambda>i. cmp p (data ! i) = 0"
  show ?case
  proof (cases "lo < hi")
    case False
    then show ?thesis by (simp add: sk_find_loop.simps [of cmp data p lo])
  next
    case True
    define mid where "mid = lo + (hi - lo - 1) div 2"
    have mid: "lo \<le> mid" "mid < hi" using True by (auto simp: mid_def)
    have le: "cmp (data ! i) (data ! j) \<le> 0" if "i < j" "j < hi" for i j
      using assms(2,4) that less.prems by (auto simp: sorted_wrt_iff_nth_less)
    note search = cmp_order_search [OF assms(1) le]
    note split = find_upt_split [of lo _ hi ?P]
    have unfold: "sk_find_loop cmp data p lo hi =
        (if cmp p (data ! mid) > 0 then sk_find_loop cmp data p (mid + 1) hi
         else if cmp p (data ! mid) < 0 then sk_find_loop cmp data p lo mid
         else if hi - lo = 1 then Some mid
         else sk_find_loop cmp data p lo (mid + 1))"
      by (subst sk_find_loop.simps) (simp only: True if_True Let_def mid_def)
    consider "cmp p (data ! mid) > 0" | "cmp p (data ! mid) < 0" | "cmp p (data ! mid) = 0" by linarith
    then show ?thesis
    proof cases
      case 1
      then have "cmp p (data ! i) > 0" if "lo \<le> i" "i < mid + 1" for i
        using search(1) [of i mid p] that mid by (cases "i = mid") auto
      then have "find ?P [lo..<mid + 1] = None" by (intro find_upt_None) force
      moreover have "sk_find_loop cmp data p (mid + 1) hi = find ?P [mid + 1..<hi]"
        using mid less.prems by (intro less.hyps) auto
      ultimately show ?thesis using 1 True mid split [of "mid + 1"] by (simp add: unfold)
    next
      case 2
      then have "cmp p (data ! i) < 0" if "mid \<le> i" "i < hi" for i
        using search(2) [of mid i p] that mid by (cases "i = mid") auto
      then have "find ?P [mid..<hi] = None" by (intro find_upt_None) force
      moreover have "sk_find_loop cmp data p lo mid = find ?P [lo..<mid]"
        using mid less.prems by (intro less.hyps) auto
      ultimately show ?thesis using 2 True mid split [of mid] by (simp add: unfold split: option.splits)
    next
      case 3
      show ?thesis
      proof (cases "hi - lo = 1")
        case True
        then have "[lo..<hi] = [mid]" using mid by (simp add: upt_rec [of lo])
        then show ?thesis using 3 True by (simp add: unfold)
      next
        case False
        with mid have "mid + 1 < hi" unfolding mid_def by linarith
        then have "sk_find_loop cmp data p lo (mid + 1) = find ?P [lo..<mid + 1]"
          using mid less.prems by (intro less.hyps) auto
        moreover have "find ?P [lo..<mid + 1] \<noteq> None" using 3 mid by (auto simp: find_None_iff)
        ultimately show ?thesis
          using 3 True False mid split [of "mid + 1"] by (auto simp: unfold)
      qed
    qed
  qed
qed

section \<open>Copies\<close>

lemma sk_dup_eq:
  assumes "wf_stack sk" and "sk_dup env fill (Some sk) = Some sk'"
  shows "wf_stack sk' \<and> sk_list sk' = sk_list sk \<and> sorted_flag sk' = sorted_flag sk \<and> comp sk' = comp sk"
proof -
  obtain ret s where ret: "sk_new env (comp sk) = Some ret"
    and s: "realloc_pointers env fill (sk_data ret) (size_mul 8 (num_alloc sk)) = Some s"
    and sk': "sk' = \<lparr>num = num sk, sk_data = take (num sk) (sk_data sk) @ drop (num sk) s,
        sorted_flag = sorted_flag sk, num_alloc = num_alloc sk, comp = comp sk\<rparr>"
    using assms(2) by (auto split: option.splits)
  have "length (take n xs @ map fill [length xs..<n]) = n" for n xs
    by simp
  moreover have "size_mul 8 (num_alloc sk) div 8 = num_alloc sk"
    using assms(1) by (simp add: wf_stack_def size_mul_small SIZE_LIMIT_def)
  ultimately have "length s = num_alloc sk" using s by (auto simp: realloc_pointers_def split: if_splits)
  then show ?thesis using assms(1) by (simp add: sk' wf_stack_def sk_list_def)
qed

text \<open>The non-\<open>NULL\<close> pointers of a list.\<close>

definition pointers :: "'p option list \<Rightarrow> 'p list" where
  "pointers xs = concat (map (\<lambda>x. case x of None \<Rightarrow> [] | Some p \<Rightarrow> [p]) xs)"

definition copy_of :: "('p option \<Rightarrow> 'p option) \<Rightarrow> 'p option \<Rightarrow> 'p option" where
  "copy_of copy x = (case x of None \<Rightarrow> None | Some p \<Rightarrow> copy (Some p))"

definition copy_fails :: "('p option \<Rightarrow> 'p option) \<Rightarrow> 'p option \<Rightarrow> bool" where
  "copy_fails copy x = (x \<noteq> None \<and> copy x = None)"

lemma pointers_nth: "i \<le> length xs \<Longrightarrow>
    concat (map (\<lambda>j. case xs ! j of None \<Rightarrow> [] | Some p \<Rightarrow> [p]) [0..<i]) = pointers (take i xs)"
  unfolding pointers_def by (intro arg_cong [where f = concat]) (simp add: list_eq_iff_nth_eq)

lemma sk_deep_copy_loop_eq:
  "sk_deep_copy_loop copy (pre @ ys @ rest) (length pre) (length ys) =
    (if \<exists>y\<in>set ys. copy_fails copy y
     then Inl (pointers (pre @ map (copy_of copy) (takeWhile (\<lambda>y. \<not> copy_fails copy y) ys)))
     else Inr (pre @ map (copy_of copy) ys @ rest))"
proof (induction ys arbitrary: pre)
  case (Cons y ys)
  show ?case
  proof (cases "copy_fails copy y")
    case True
    then show ?thesis
      using pointers_nth [of "length pre" "pre @ y # ys @ rest"] by (auto simp: copy_fails_def nth_append)
  next
    case False
    then have "sk_deep_copy_loop copy (pre @ (y # ys) @ rest) (length pre) (length (y # ys)) =
        sk_deep_copy_loop copy ((pre @ [copy_of copy y]) @ ys @ rest) (length (pre @ [copy_of copy y])) (length ys)"
      by (auto simp: copy_fails_def copy_of_def split: option.splits)
    also have "\<dots> = (if \<exists>y\<in>set ys. copy_fails copy y
       then Inl (pointers ((pre @ [copy_of copy y]) @ map (copy_of copy) (takeWhile (\<lambda>y. \<not> copy_fails copy y) ys)))
       else Inr ((pre @ [copy_of copy y]) @ map (copy_of copy) ys @ rest))"
      by (rule Cons.IH)
    finally show ?thesis using False by simp
  qed
qed simp

lemma sk_deep_copy_eq:
  assumes "wf_stack sk" and "sk_deep_copy env fill copy (Some sk) = (s, freed)"
  shows "(case s of
      Some sk' \<Rightarrow> freed = [] \<and> wf_stack sk' \<and> sk_list sk' = map (copy_of copy) (sk_list sk) \<and>
        \<not> (\<exists>y \<in> set (sk_list sk). copy_fails copy y)
    | None \<Rightarrow> sk_dup env fill (Some sk) = None \<and> freed = [] \<or>
        (\<exists>y \<in> set (sk_list sk). copy_fails copy y) \<and>
        freed = pointers (map (copy_of copy) (takeWhile (\<lambda>y. \<not> copy_fails copy y) (sk_list sk))))"
proof (cases "sk_dup env fill (Some sk)")
  case None
  with assms(2) show ?thesis by (auto simp: sk_deep_copy_def)
next
  case (Some ret)
  note d = sk_dup_eq [OF assms(1) Some]
  have loop: "sk_deep_copy_loop copy (sk_data ret) 0 (num ret) =
    (if \<exists>y\<in>set (sk_list sk). copy_fails copy y
     then Inl (pointers (map (copy_of copy) (takeWhile (\<lambda>y. \<not> copy_fails copy y) (sk_list sk))))
     else Inr (map (copy_of copy) (sk_list sk) @ drop (num ret) (sk_data ret)))"
  proof -
    have "sk_list ret @ drop (num ret) (sk_data ret) = sk_data ret" by (simp add: sk_list_def)
    moreover have "sk_list ret = sk_list sk" "length (sk_list sk) = num ret" using d length_sk_list [of ret] by simp_all
    ultimately show ?thesis
      using sk_deep_copy_loop_eq [of copy "[]" "sk_list sk" "drop (num ret) (sk_data ret)"] by simp
  qed
  have n: "num ret = num sk" using d assms(1) length_sk_list by metis
  have l: "length (sk_list sk) = num sk" using assms(1) by simp
  have "wf_stack (ret\<lparr>sk_data := map (copy_of copy) (sk_list sk) @ drop (num ret) (sk_data ret)\<rparr>) \<and>
    sk_list (ret\<lparr>sk_data := map (copy_of copy) (sk_list sk) @ drop (num ret) (sk_data ret)\<rparr>) = map (copy_of copy) (sk_list sk)"
    using conjunct1 [OF d] l unfolding wf_stack_def sk_list_def [of "ret\<lparr>sk_data := _\<rparr>"] by (simp add: n)
  note wf = this
  show ?thesis
  proof (cases "\<exists>y\<in>set (sk_list sk). copy_fails copy y")
    case True
    then have "s = None" "freed = pointers (map (copy_of copy) (takeWhile (\<lambda>y. \<not> copy_fails copy y) (sk_list sk)))"
      using assms(2) Some loop by (simp_all add: sk_deep_copy_def del: sk_dup.simps)
    with True show ?thesis by simp
  next
    case False
    then have "s = Some (ret\<lparr>sk_data := map (copy_of copy) (sk_list sk) @ drop (num ret) (sk_data ret)\<rparr>)" "freed = []"
      using assms(2) Some loop by (simp_all add: sk_deep_copy_def del: sk_dup.simps)
    with False wf show ?thesis by simp
  qed
qed

section \<open>The operations in sequence\<close>

text \<open>
  A step is one of the operations that make a stack of a stack, with any arguments. \<open>sk_set\<close> and
  \<open>sk_deep_copy\<close> change elements and leave the \<open>sorted\<close> flag as it is, so that they are steps only
  where they keep the elements of a stack with that flag in order.
\<close>

definition keeps_order ::
  "('c \<Rightarrow> 'p option \<Rightarrow> 'p option \<Rightarrow> int) \<Rightarrow> ('c, 'p) stack_st \<Rightarrow> ('c, 'p) stack_st \<Rightarrow> bool" where
  "keeps_order call_cmp sk sk' \<longleftrightarrow>
     (\<forall>c. sorted_flag sk \<and> comp sk = Some c \<and> sorted_by (call_cmp c) (sk_list sk) \<longrightarrow> sorted_by (call_cmp c) (sk_list sk'))"

inductive sk_step ::
  "mem_env \<Rightarrow> (nat \<Rightarrow> 'p option) \<Rightarrow> (('p option \<Rightarrow> 'p option \<Rightarrow> int) \<Rightarrow> 'p option list \<Rightarrow> 'p option list) \<Rightarrow>
   ('c \<Rightarrow> 'p option \<Rightarrow> 'p option \<Rightarrow> int) \<Rightarrow> ('c, 'p) stack_st \<Rightarrow> ('c, 'p) stack_st \<Rightarrow> bool"
  for env fill qs call_cmp where
  insert: "sk_insert env fill (Some sk) p pos = (r, Some sk') \<Longrightarrow> sk_step env fill qs call_cmp sk sk'"
| push: "sk_push env fill (Some sk) p = (r, Some sk') \<Longrightarrow> sk_step env fill qs call_cmp sk sk'"
| delete: "sk_delete (Some sk) pos = (y, Some sk') \<Longrightarrow> sk_step env fill qs call_cmp sk sk'"
| delete_ptr: "sk_delete_ptr (Some sk) p = (y, Some sk') \<Longrightarrow> sk_step env fill qs call_cmp sk sk'"
| pop: "sk_pop (Some sk) = (y, Some sk') \<Longrightarrow> sk_step env fill qs call_cmp sk sk'"
| shift: "sk_shift (Some sk) = (y, Some sk') \<Longrightarrow> sk_step env fill qs call_cmp sk sk'"
| zero: "sk_zero sk = sk' \<Longrightarrow> sk_step env fill qs call_cmp sk sk'"
| sort: "sk_sort qs call_cmp sk = sk' \<Longrightarrow> sk_step env fill qs call_cmp sk sk'"
| set_cmp: "sk_set_cmp_func sk c = (y, sk') \<Longrightarrow> sk_step env fill qs call_cmp sk sk'"
| dup: "sk_dup env fill (Some sk) = Some sk' \<Longrightarrow> sk_step env fill qs call_cmp sk sk'"
| set: "sk_set sk i p = (y, sk') \<Longrightarrow> keeps_order call_cmp sk sk' \<Longrightarrow> sk_step env fill qs call_cmp sk sk'"
| deep_copy: "sk_deep_copy env fill copy (Some sk) = (Some sk', freed) \<Longrightarrow> keeps_order call_cmp sk sk' \<Longrightarrow>
    sk_step env fill qs call_cmp sk sk'"

text \<open>
  What the C library promises of \<open>qsort\<close>: when the function is a total preorder of the elements of the
  array, the array becomes a sorted permutation of itself.
\<close>

definition qsort_sorts :: "(('a \<Rightarrow> 'a \<Rightarrow> int) \<Rightarrow> 'a list \<Rightarrow> 'a list) \<Rightarrow> bool" where
  "qsort_sorts qs = (\<forall>cmp xs. cmp_order_on (set xs) cmp \<longrightarrow> mset (qs cmp xs) = mset xs \<and> sorted_by cmp (qs cmp xs))"

definition flag_ok :: "('c \<Rightarrow> 'p option \<Rightarrow> 'p option \<Rightarrow> int) \<Rightarrow> ('c, 'p) stack_st \<Rightarrow> bool" where
  "flag_ok call_cmp sk =
     (sorted_flag sk \<longrightarrow> (case comp sk of None \<Rightarrow> False | Some c \<Rightarrow> sorted_by (call_cmp c) (sk_list sk)))"

lemma flag_ok_unsorted [simp]: "\<not> sorted_flag sk \<Longrightarrow> flag_ok call_cmp sk"
  by (simp add: flag_ok_def)

lemma sk_insert_step:
  assumes "wf_stack sk \<and> flag_ok call_cmp sk" and "sk_insert env fill (Some sk) p pos = (r, Some sk')"
  shows "wf_stack sk' \<and> flag_ok call_cmp sk'"
  using sk_insert_eq [OF conjunct1 [OF assms(1)] assms(2)] assms(1) by auto

lemma sk_delete_step:
  assumes "wf_stack sk \<and> flag_ok call_cmp sk" and "sk_delete (Some sk) pos = (y, Some sk')"
  shows "wf_stack sk' \<and> flag_ok call_cmp sk'"
proof -
  have "sorted_by cmp (take pos xs @ drop (pos + 1) xs)" if "sorted_by cmp xs" for cmp :: "'p option \<Rightarrow> 'p option \<Rightarrow> int" and xs
  proof -
    have "sorted_by cmp (take pos xs @ drop pos xs)" using that by simp
    then have "sorted_by cmp (take pos xs)" "sorted_by cmp (drop pos xs)" 
      "\<forall>x\<in>set (take pos xs). \<forall>y\<in>set (drop pos xs). cmp x y \<le> 0" unfolding sorted_wrt_append by blast+
    moreover have "set (drop (pos + 1) xs) \<subseteq> set (drop pos xs)" by (rule set_drop_subset_set_drop) simp
    ultimately show ?thesis
      unfolding sorted_wrt_append using sorted_wrt_drop [of _ "drop pos xs" 1] by auto
  qed
  with sk_delete_eq [OF conjunct1 [OF assms(1)] assms(2)] assms(1) show ?thesis
    by (auto simp: flag_ok_def split: option.splits)
qed

lemma sk_sort_step:
  assumes "wf_stack sk \<and> flag_ok call_cmp sk" and "qsort_sorts qs" and "\<forall>c. cmp_order (call_cmp c)"
  shows "wf_stack (sk_sort qs call_cmp sk) \<and> flag_ok call_cmp (sk_sort qs call_cmp sk) \<and>
    mset (sk_list (sk_sort qs call_cmp sk)) = mset (sk_list sk)"
proof (cases "comp sk = None \<or> sorted_flag sk")
  case True
  then show ?thesis using assms(1) by (auto simp: sk_sort_def split: option.splits)
next
  case False
  then obtain c where c: "comp sk = Some c" "\<not> sorted_flag sk" by auto
  have q: "mset (qs (call_cmp c) (sk_list sk)) = mset (sk_list sk)" "sorted_by (call_cmp c) (qs (call_cmp c) (sk_list sk))"
    using assms(2,3) by (simp_all add: qsort_sorts_def)
  then have l: "length (qs (call_cmp c) (sk_list sk)) = num sk" using assms(1) mset_eq_length by force
  show ?thesis
  proof (cases "num sk \<ge> 2")
    case True
    with c q l assms(1) show ?thesis
      by (auto simp: sk_sort_def wf_stack_def flag_ok_def sk_list_def)
  next
    case False
    then have "num sk = 0 \<or> num sk = 1" by auto
    then have "sorted_by (call_cmp c) (sk_list sk)" 
      using assms(1) by (auto simp: sk_list_def wf_stack_def sorted_wrt01)
    with False c assms(1) show ?thesis by (auto simp: sk_sort_def wf_stack_def flag_ok_def sk_list_def)
  qed
qed

lemma sk_set_eq:
  assumes "wf_stack sk" and "sk_set sk i p = (y, sk')"
  shows "wf_stack sk' \<and> sorted_flag sk' = sorted_flag sk \<and> comp sk' = comp sk \<and> sk_list sk' = (sk_list sk)[i := p]"
  using assms by (auto simp: sk_set_def wf_stack_def sk_list_def take_update_swap list_update_beyond split: if_splits)

lemma sk_deep_copy_kept:
  assumes "wf_stack sk" and "sk_deep_copy env fill copy (Some sk) = (Some sk', freed)"
  shows "wf_stack sk' \<and> sorted_flag sk' = sorted_flag sk \<and> comp sk' = comp sk \<and> sk_list sk' = map (copy_of copy) (sk_list sk)"
proof -
  obtain ret where ret: "sk_dup env fill (Some sk) = Some ret"
    using assms(2) by (auto simp: sk_deep_copy_def simp del: sk_dup.simps split: option.splits)
  have "sorted_flag sk' = sorted_flag ret \<and> comp sk' = comp ret"
    using assms(2) ret by (auto simp: sk_deep_copy_def simp del: sk_dup.simps split: sum.splits)
  then show ?thesis using sk_dup_eq [OF assms(1) ret] sk_deep_copy_eq [OF assms] by auto
qed

text \<open>A stack without the flag may be changed at will, and a copy function that the comparison cannot
  tell from its argument keeps every order.\<close>

lemma keeps_order_unsorted: "\<not> sorted_flag sk \<Longrightarrow> keeps_order call_cmp sk sk'"
  by (simp add: keeps_order_def)

lemma keeps_order_copy:
  assumes "\<And>c x y. call_cmp c (f x) (f y) = call_cmp c x y" and "sk_list sk' = map f (sk_list sk)"
  shows "keeps_order call_cmp sk sk'"
  using assms by (simp add: keeps_order_def sorted_wrt_map)

lemma flag_ok_keeps_order:
  "flag_ok call_cmp sk \<Longrightarrow> keeps_order call_cmp sk sk' \<Longrightarrow> sorted_flag sk' = sorted_flag sk \<Longrightarrow> comp sk' = comp sk \<Longrightarrow>
   flag_ok call_cmp sk'"
  by (auto simp: flag_ok_def keeps_order_def split: option.splits)

lemma sk_step_ok:
  assumes "sk_step env fill qs call_cmp sk sk'" and "qsort_sorts qs" and "\<forall>c. cmp_order (call_cmp c)"
    and "wf_stack sk \<and> flag_ok call_cmp sk"
  shows "wf_stack sk' \<and> flag_ok call_cmp sk'"
  using assms(1)
proof cases
  case (sort)
  then show ?thesis using sk_sort_step [OF assms(4,2,3)] by simp
next
  case (dup)
  then show ?thesis using sk_dup_eq [of sk env fill sk'] assms(4)
    by (auto simp: flag_ok_def simp del: sk_dup.simps split: option.splits)
next
  case (set i p y)
  then show ?thesis using sk_set_eq [of sk i p y sk'] flag_ok_keeps_order [of call_cmp sk sk'] assms(4) by blast
next
  case (deep_copy copy freed)
  then show ?thesis using sk_deep_copy_kept [of sk env fill copy sk' freed] flag_ok_keeps_order [of call_cmp sk sk'] assms(4)
    by blast
next
  case (zero)
  then show ?thesis using assms(4) by (auto simp: sk_zero_def wf_stack_def)
next
  case (set_cmp c y)
  then show ?thesis using assms(4) by (auto simp: sk_set_cmp_func_def Let_def wf_stack_def flag_ok_def sk_list_def split: if_splits option.splits)
next
  case (insert p pos r)
  then show ?thesis by (rule sk_insert_step [OF assms(4)])
next
  case (push p r)
  then show ?thesis unfolding sk_push_def by (rule sk_insert_step [OF assms(4)])
next
  case (delete pos y)
  then show ?thesis by (rule sk_delete_step [OF assms(4)])
next
  case (delete_ptr p y)
  then consider "sk' = sk" | i where "sk_delete (Some sk) i = (y, Some sk')" by (auto split: option.splits)
  then show ?thesis using assms(4) sk_delete_step [OF assms(4)] by cases auto
next
  case (pop y)
  then consider "sk' = sk" | i where "sk_delete (Some sk) i = (y, Some sk')" by (auto split: if_splits)
  then show ?thesis using assms(4) sk_delete_step [OF assms(4)] by cases auto
next
  case (shift y)
  then consider "sk' = sk" | i where "sk_delete (Some sk) i = (y, Some sk')" by (auto split: if_splits)
  then show ?thesis using assms(4) sk_delete_step [OF assms(4)] by cases auto
qed


lemma sk_find_eq:
  assumes "wf_stack sk" and "flag_ok call_cmp sk" and "\<forall>c. cmp_order (call_cmp c)"
  shows "sk_find call_cmp (Some sk) p =
    (case comp sk of
       None \<Rightarrow> find (\<lambda>i. sk_list sk ! i = p) [0..<num sk]
     | Some c \<Rightarrow> if p = None then None else find (\<lambda>i. call_cmp c p (sk_list sk ! i) = 0) [0..<num sk])"
proof -
  have cong: "find (\<lambda>i. P (sk_data sk ! i)) [0..<num sk] = find (\<lambda>i. P (sk_list sk ! i)) [0..<num sk]" for P
    by (rule find_cong) (simp_all add: nth_sk_list)
  show ?thesis
  proof (cases "comp sk")
    case None
    then show ?thesis using cong [of "\<lambda>x. x = p"] by simp
  next
    case (Some c)
    have "sk_find_loop (call_cmp c) (sk_data sk) p 0 (num sk) = find (\<lambda>i. call_cmp c p (sk_list sk ! i) = 0) [0..<num sk]"
      if "sorted_flag sk"
      unfolding cong [of "\<lambda>x. call_cmp c p x = 0", symmetric] using that assms Some
      by (intro sk_find_loop_eq [where n = "num sk"]) (auto simp: flag_ok_def sk_list_def wf_stack_def)
    with Some cong [of "\<lambda>x. call_cmp c p x = 0"] show ?thesis by simp
  qed
qed

section \<open>Properties\<close>

text \<open>C21: In every state that operations on a new stack reach, the pointer array has a free slot behind the
  last element, so that no insertion writes outside it, and the \<open>sorted\<close> flag is set only when the
  elements are in the order of the comparison function. \<open>sk_set\<close> and \<open>sk_deep_copy\<close> are among the
  operations where they do not put the elements of a stack with that flag out of order. \<open>qsort\<close> and the
  comparison functions are assumed to meet their documented contracts.\<close>

theorem sk_reachable_wf:
  assumes "sk_new env c = Some sk" and "(sk_step env fill qs call_cmp)\<^sup>*\<^sup>* sk sk'"
    and "qsort_sorts qs" and "\<forall>c. cmp_order (call_cmp c)"
  shows "num sk' < num_alloc sk' \<and> length (sk_data sk') = num_alloc sk' \<and> num_alloc sk' < 2 ^ 60 \<and>
    (sorted_flag sk' \<longrightarrow> (\<exists>c. comp sk' = Some c \<and> sorted_by (call_cmp c) (sk_list sk')))"
proof -
  have "wf_stack sk' \<and> flag_ok call_cmp sk'"
    using assms(2) sk_new_wf [OF assms(1)]
    by (induction rule: rtranclp_induct) (auto dest: sk_step_ok [OF _ assms(3,4)])
  then show ?thesis by (auto simp: wf_stack_def flag_ok_def split: option.splits)
qed

text \<open>C20: Searching. In every state that operations on a new stack reach, \<open>sk_set\<close> and \<open>sk_deep_copy\<close> among them
  only where they do not put the elements of a stack with the \<open>sorted\<close> flag out of order, \<open>sk_find\<close> answers with the
  first matching position, whether it takes the binary search of a sorted stack or the linear search:
  with a comparison function the first element that compares equal, except that a \<open>NULL\<close> key is never
  found, and without one the first pointer equal to the key. \<open>qsort\<close> and the comparison functions are
  assumed to meet their documented contracts.\<close>

theorem sk_find_first_match:
  assumes "sk_new env c = Some sk" and "(sk_step env fill qs call_cmp)\<^sup>*\<^sup>* sk sk'"
    and "qsort_sorts qs" and "\<forall>c. cmp_order (call_cmp c)"
  shows "sk_find call_cmp (Some sk') p =
    (case comp sk' of
       None \<Rightarrow> find (\<lambda>i. sk_list sk' ! i = p) [0..<num sk']
     | Some c \<Rightarrow> if p = None then None else find (\<lambda>i. call_cmp c p (sk_list sk' ! i) = 0) [0..<num sk'])"
proof -
  have "wf_stack sk' \<and> flag_ok call_cmp sk'"
    using assms(2) sk_new_wf [OF assms(1)]
    by (induction rule: rtranclp_induct) (auto dest: sk_step_ok [OF _ assms(3,4)])
  with sk_find_eq assms(4) show ?thesis by blast
qed

text \<open>C22: A stack and a queue: after a successful \<open>sk_push\<close> the element is at the end of the list and
  \<open>sk_pop\<close> returns it and restores the list; \<open>sk_shift\<close> takes the elements in the order of
  the pushes; a failed push changes nothing.\<close>

theorem sk_push_pop_shift:
  assumes "wf_stack sk" and "sk_push env fill (Some sk) p = (r, s)"
  shows "\<exists>sk'. s = Some sk' \<and> wf_stack sk' \<and>
    (r = 0 \<and> sk' = sk \<or>
     r = num sk + 1 \<and> sk_list sk' = sk_list sk @ [p] \<and>
     (\<exists>sk''. sk_pop s = (p, Some sk'') \<and> wf_stack sk'' \<and> sk_list sk'' = sk_list sk) \<and>
     (\<exists>sk''. sk_shift s = ((sk_list sk @ [p]) ! 0, Some sk'') \<and> sk_list sk'' = drop 1 (sk_list sk @ [p])))"
proof -
  have ins: "sk_insert env fill (Some sk) p (num sk) = (r, s)" using assms(2) by (simp add: sk_push_def)
  from sk_insert_eq [OF assms(1) this] obtain sk' where s: "s = Some sk'" "wf_stack sk'"
    and cases: "r = 0 \<and> sk' = sk \<or> r = num sk + 1 \<and> sk_list sk' = take (num sk) (sk_list sk) @ p # drop (num sk) (sk_list sk)"
    by auto
  show ?thesis
  proof (cases "r = 0")
    case True
    with s cases show ?thesis by auto
  next
    case False
    with cases assms(1) have l: "sk_list sk' = sk_list sk @ [p]" "r = num sk + 1" by auto
    then have n: "num sk' = num sk + 1" using s(2) assms(1) by (metis length_append_singleton length_sk_list Suc_eq_plus1)
    obtain y s1 where p: "sk_delete s (length (stack_abs s) - 1) = (y, s1)" by fastforce
    have inv: "stack_inv (Some sk)" "r \<noteq> 0" "sk_insert env fill (Some sk) p (length (stack_abs (Some sk))) = (r, s)"
      using assms(1) False ins by simp_all
    have "stack_inv s1 \<and> y = p \<and> stack_abs s1 = sk_list sk"
      using sk.push_pop [OF inv(1,3,2) p] by simp
    moreover have "sk_pop s = (y, s1)" using p s n by simp
    moreover obtain x s2 where sh: "sk_delete s 0 = (x, s2)" by fastforce
    have "stack_abs s = (sk_list sk @ [p]) ! 0 # drop 1 (sk_list sk @ [p])"
      using s l by (cases "sk_list sk") auto
    from sk.shift [OF _ this sh] s have "stack_inv s2 \<and> x = (sk_list sk @ [p]) ! 0 \<and> stack_abs s2 = drop 1 (sk_list sk @ [p])"
      by simp
    moreover have "sk_shift s = (x, s2)" using sh s n by simp
    ultimately show ?thesis
      using s l by (cases s1; cases s2) auto
  qed
qed

text \<open>C23: A deep copy succeeds with the copies of all elements (a \<open>NULL\<close> element stays \<open>NULL\<close>), or it
  fails; when copying an element fails, exactly the copies already made are given to the free
  function.\<close>

theorem sk_deep_copy_complete:
  assumes "wf_stack sk" and "sk_deep_copy env fill copy (Some sk) = (s, freed)"
  shows "(case s of
      Some sk' \<Rightarrow> freed = [] \<and> wf_stack sk' \<and> sk_list sk' = map (copy_of copy) (sk_list sk) \<and>
        \<not> (\<exists>y \<in> set (sk_list sk). copy_fails copy y)
    | None \<Rightarrow> sk_dup env fill (Some sk) = None \<and> freed = [] \<or>
        (\<exists>y \<in> set (sk_list sk). copy_fails copy y) \<and>
        freed = pointers (map (copy_of copy) (takeWhile (\<lambda>y. \<not> copy_fails copy y) (sk_list sk))))"
  by (rule sk_deep_copy_eq [OF assms])

text \<open>
  \<open>sk_set\<close> keeps the \<open>sorted\<close> flag: on a sorted stack the binary search can then miss an element
  that is there, which is why a step must keep the order. Here 5 is stored over the 1 of the stack
  1, 2, 3, and \<open>sk_find\<close> does not find it.
\<close>

definition int_cmp :: "unit \<Rightarrow> int option \<Rightarrow> int option \<Rightarrow> int" where
  "int_cmp c x y = (case (x, y) of (None, None) \<Rightarrow> 0 | (None, Some _) \<Rightarrow> - 1 | (Some _, None) \<Rightarrow> 1 | (Some a, Some b) \<Rightarrow> a - b)"

definition sorted_123 :: "(unit, int) stack_st" where
  "sorted_123 = \<lparr>num = 3, sk_data = [Some 1, Some 2, Some 3, None, None], sorted_flag = True, num_alloc = 5, comp = Some ()\<rparr>"

lemma sk_set_breaks_search:
  "wf_stack sorted_123 \<and> flag_ok int_cmp sorted_123 \<and>
   sk_value (Some (snd (sk_set sorted_123 0 (Some 5)))) 0 = Some 5 \<and>
   sk_find int_cmp (Some (snd (sk_set sorted_123 0 (Some 5)))) (Some 5) = None"
proof -
  have s: "snd (sk_set sorted_123 0 (Some 5)) =
      \<lparr>num = 3, sk_data = [Some 5, Some 2, Some 3, None, None], sorted_flag = True, num_alloc = 5, comp = Some ()\<rparr>"
    by (simp add: sk_set_def sorted_123_def)
  have "sk_find int_cmp (Some (snd (sk_set sorted_123 0 (Some 5)))) (Some 5) = None"
    unfolding s by code_simp
  then show ?thesis
    by (simp add: s) (simp add: sorted_123_def wf_stack_def flag_ok_def sk_list_def int_cmp_def)
qed

subsection \<open>Concrete instances\<close>

fun insert_by :: "('a \<Rightarrow> 'a \<Rightarrow> int) \<Rightarrow> 'a \<Rightarrow> 'a list \<Rightarrow> 'a list" where
  "insert_by cmp x [] = [x]"
| "insert_by cmp x (y # ys) = (if cmp x y \<le> 0 then x # y # ys else y # insert_by cmp x ys)"

definition insertion_sort :: "('a \<Rightarrow> 'a \<Rightarrow> int) \<Rightarrow> 'a list \<Rightarrow> 'a list" where
  "insertion_sort cmp xs = foldr (insert_by cmp) xs []"

lemma insert_by_mset [simp]: "mset (insert_by cmp x xs) = add_mset x (mset xs)"
  by (induction xs) auto

lemma insert_by_set [simp]: "set (insert_by cmp x xs) = insert x (set xs)"
  by (induction xs) auto

lemma insert_by_sorted:
  "cmp_order_on A cmp \<Longrightarrow> x \<in> A \<Longrightarrow> set xs \<subseteq> A \<Longrightarrow> sorted_by cmp xs \<Longrightarrow> sorted_by cmp (insert_by cmp x xs)"
proof (induction xs)
  case (Cons y ys)
  have y: "y \<in> A" "set ys \<subseteq> A" using Cons.prems(3) by auto
  have tot: "cmp y x \<le> 0" if "\<not> cmp x y \<le> 0"
  proof -
    have "\<forall>u\<in>A. \<forall>v\<in>A. 0 < cmp u v \<longleftrightarrow> cmp v u < 0" using Cons.prems(1) unfolding cmp_order_on_def by (rule conjunct1)
    then have "0 < cmp x y \<longleftrightarrow> cmp y x < 0" using Cons.prems(2) y(1) by blast
    then show ?thesis using that by linarith
  qed
  show ?case
  proof (cases "cmp x y \<le> 0")
    case True
    have "cmp x z \<le> 0" if "z \<in> set ys" for z
    proof -
      have "cmp y z \<le> 0" "z \<in> A" using Cons.prems(4) y(2) that by auto
      moreover have "\<forall>u\<in>A. \<forall>v\<in>A. \<forall>w\<in>A. cmp u v \<le> 0 \<longrightarrow> cmp v w \<le> 0 \<longrightarrow> cmp u w \<le> 0"
        using Cons.prems(1) unfolding cmp_order_on_def by (rule conjunct2)
      ultimately show ?thesis using True Cons.prems(2) y(1) by blast
    qed
    with True Cons.prems(4) show ?thesis by simp
  next
    case False
    then show ?thesis using Cons.IH [OF Cons.prems(1,2) y(2)] Cons.prems(4) tot by auto
  qed
qed simp

lemma insertion_sort_sorts: "qsort_sorts insertion_sort"
proof -
  have m: "mset (foldr (insert_by cmp) xs []) = mset xs" for cmp :: "'a \<Rightarrow> 'a \<Rightarrow> int" and xs
    by (induction xs) auto
  have s: "set (foldr (insert_by cmp) xs []) = set xs" for cmp :: "'a \<Rightarrow> 'a \<Rightarrow> int" and xs
    by (rule mset_eq_setD [OF m])
  have o: "sorted_by cmp (foldr (insert_by cmp) xs [])"
    if "cmp_order_on A cmp" "set xs \<subseteq> A" for A and cmp :: "'a \<Rightarrow> 'a \<Rightarrow> int" and xs
    using that(2)
  proof (induction xs)
    case (Cons x xs)
    then have "sorted_by cmp (insert_by cmp x (foldr (insert_by cmp) xs []))"
      by (intro insert_by_sorted [OF that(1)]) (simp_all add: s)
    then show ?case by simp
  qed simp
  show ?thesis unfolding qsort_sorts_def insertion_sort_def using m o [OF _ subset_refl] by blast
qed

lemma int_cmp_order: "cmp_order (int_cmp c)"
  by (auto simp: cmp_order_def int_cmp_def split: option.splits)

lemma roomy_malloc_small: "n < 2 ^ 62 \<Longrightarrow> OPENSSL_malloc roomy_env n \<noteq> None"
  by (simp add: roomy_malloc PTRDIFF_LIMIT_def OPENSSL_MALLOC_PREFIX_def)

definition sorted_13 :: "(unit, int) stack_st" where
  "sorted_13 = \<lparr>num = 2, sk_data = [Some 1, Some 3, None, None], sorted_flag = True, num_alloc = 4, comp = Some ()\<rparr>"

lemma sorted_13_reached:
  "\<exists>sk. sk_new roomy_env (Some ()) = Some sk \<and>
    (sk_step roomy_env (\<lambda>_. None) insertion_sort int_cmp)\<^sup>*\<^sup>* sk sorted_13"
proof -
  let ?s = "\<lambda>n d f. \<lparr>num = n, sk_data = d, sorted_flag = f, num_alloc = 4, comp = Some ()\<rparr> :: (unit, int) stack_st"
  have new: "sk_new roomy_env (Some ()) = Some (?s 0 [None, None, None, None] False)"
  proof -
    have "replicate 4 None = [None, None, None, None :: int option]" by (simp add: numeral_eq_Suc)
    then show ?thesis
      using roomy_malloc_small [of 40] roomy_malloc_small [of 32] by (simp add: sk_new_def kMinSize_def)
  qed
  have s1: "sk_step roomy_env (\<lambda>_. None) insertion_sort int_cmp (?s 0 [None, None, None, None] False) (?s 1 [Some 3, None, None, None] False)"
    by (rule sk_step.push [where p = "Some 3" and r = 1]) (simp add: sk_push_def sk_insert.simps)
  have s2: "sk_step roomy_env (\<lambda>_. None) insertion_sort int_cmp (?s 1 [Some 3, None, None, None] False) (?s 2 [Some 3, Some 1, None, None] False)"
    by (rule sk_step.push [where p = "Some 1" and r = 2]) (simp add: sk_push_def sk_insert.simps)
  have s3: "sk_step roomy_env (\<lambda>_. None) insertion_sort int_cmp (?s 2 [Some 3, Some 1, None, None] False) sorted_13"
    by (rule sk_step.sort) (simp add: sk_sort_def sorted_13_def insertion_sort_def int_cmp_def numeral_2_eq_2)
  note r = converse_rtranclp_into_rtranclp [where r = "sk_step roomy_env (\<lambda>_. None) insertion_sort int_cmp"]
  show ?thesis by (intro exI conjI, rule new) (rule r [OF s1 r [OF s2 r [OF s3 rtranclp.rtrancl_refl]]])
qed

theorem sk_reachable_wf_witness:
  "num sorted_13 < num_alloc sorted_13 \<and>
    (\<exists>c. comp sorted_13 = Some c \<and> sorted_by (int_cmp c) (sk_list sorted_13))"
proof -
  obtain sk where "sk_new roomy_env (Some ()) = Some sk"
    "(sk_step roomy_env (\<lambda>_. None) insertion_sort int_cmp)\<^sup>*\<^sup>* sk sorted_13"
    using sorted_13_reached by blast
  from sk_reachable_wf [OF this insertion_sort_sorts] int_cmp_order show ?thesis
    by (auto simp: sorted_13_def)
qed

theorem sk_find_first_match_witness: "sk_find int_cmp (Some sorted_13) (Some 3) = Some 1"
proof -
  obtain sk where "sk_new roomy_env (Some ()) = Some sk"
    "(sk_step roomy_env (\<lambda>_. None) insertion_sort int_cmp)\<^sup>*\<^sup>* sk sorted_13"
    using sorted_13_reached by blast
  from sk_find_first_match [OF this insertion_sort_sorts, of "Some 3"] int_cmp_order
  show ?thesis by (simp add: sorted_13_def int_cmp_def sk_list_def numeral_2_eq_2)
qed

theorem sk_push_pop_shift_witness:
  "\<exists>sk' sk''. sk_push roomy_env (\<lambda>_. None) (Some sorted_13) (Some 9) = (3, Some sk') \<and>
    sk_shift (Some sk') = (Some 1, Some sk'') \<and> sk_list sk'' = [Some 3, Some 9]"
proof -
  have "wf_stack sorted_13" by (simp add: sorted_13_def wf_stack_def)
  moreover have "fst (sk_push roomy_env (\<lambda>_. None) (Some sorted_13) (Some 9)) = 3"
    by (simp add: sk_push_def sk_insert.simps sorted_13_def)
  ultimately show ?thesis
    using sk_push_pop_shift [of sorted_13 roomy_env "\<lambda>_. None" "Some 9"]
    by (cases "sk_push roomy_env (\<lambda>_. None) (Some sorted_13) (Some 9)")
      (auto simp: sorted_13_def sk_list_def simp del: sk_shift.simps sk_pop.simps)
qed

theorem sk_deep_copy_complete_witness:
  "sk_deep_copy roomy_env (\<lambda>_. None) (\<lambda>x. if x = Some 3 then None else map_option ((+) 10) x) (Some sorted_13) =
    (None, [11])"
proof -
  let ?f = "\<lambda>x :: int option. if x = Some 3 then None else map_option ((+) 10) x"
  obtain s freed where d: "sk_deep_copy roomy_env (\<lambda>_. None) ?f (Some sorted_13) = (s, freed)" by fastforce
  have wf: "wf_stack sorted_13" by (simp add: sorted_13_def wf_stack_def)
  have l: "sk_list sorted_13 = [Some 1, Some 3]" by (simp add: sorted_13_def sk_list_def numeral_2_eq_2)
  have f: "copy_fails ?f (Some 3)" "\<not> copy_fails ?f (Some 1)" "copy_of ?f (Some 1) = Some 11"
    by (simp_all add: copy_fails_def copy_of_def)
  have "sk_dup roomy_env (\<lambda>_. None) (Some sorted_13) \<noteq> None"
    using roomy_malloc_small [of 40] roomy_malloc_small [of 32]
    by (simp add: sk_new_def kMinSize_def realloc_pointers_def sorted_13_def size_mul_def SIZE_LIMIT_def)
  then show ?thesis
    using sk_deep_copy_complete [OF wf d] f unfolding d by (cases s) (auto simp: l pointers_def)
qed

end
