(* ===== verification/Set_Of.thy ===== *)
theory Set_Of
  imports OID Stack_Spec "HOL-Library.List_Lexorder"
begin

text \<open>
  \<open>CBB_flush_asn1_set_of\<close> of \<open>cbb.c\<close>: the contents of a \<open>SET OF\<close> are sorted in place, by the order of
  the encodings (X.690, 11.6). \<open>qsort\<close> is a parameter that keeps its promise \<open>qsort_sorts\<close>.
\<close>

section \<open>Reading an element consumes input\<close>

text \<open>
  The loops over the elements of a \<open>CBS\<close> end because a header has at most twelve bytes and no
  length wraps around; this holds of every \<open>CBS\<close>, well formed or not.
\<close>

lemma base128_loop_short:
  "parse_base128_loop c v = (Some w, c') \<Longrightarrow> 128 ^ j \<le> unat v \<Longrightarrow> cbs_len c \<le> cbs_len c' + (10 - j)"
proof (induction c v arbitrary: w c' j rule: parse_base128_loop.induct)
  case (1 c v)
  let ?b = "cbs_data c ! 0" and ?v = "push_bit 7 v OR ucast (cbs_data c ! 0 AND 0x7f) :: u64"
  have u: "0 < cbs_len c" "CBS_get_u8 c = (Some ?b, advance c 1)" "drop_bit 57 v = 0" "\<not> (v = 0 \<and> ?b = 0x80)"
    and r: "if ?b AND 0x80 \<noteq> 0 then parse_base128_loop (advance c 1) ?v = (Some w, c') else c' = advance c 1"
    using "1.prems"(1) by (auto simp: base128_loop_unfold [of c v] CBS_get_u8_advance Let_def split: if_splits)
  have v57: "unat v < 2 ^ 57"
    using u(3) by (simp add: word_unat_eq_iff unat_drop div_eq_0_iff)
  have j: "j \<le> 8"
  proof (rule ccontr)
    assume "\<not> j \<le> 8"
    then have "(128 :: nat) ^ 9 \<le> 128 ^ j" by (intro power_increasing) simp_all
    then show False using "1.prems"(2) v57 by simp
  qed
  show ?case
  proof (cases "?b AND 0x80 = 0")
    case True
    then show ?thesis using r j by simp
  next
    case False
    have "unat ?v = unat v * 128 + unat ?b mod 128"
    proof -
      have m: "unat (ucast (?b AND 0x7f) :: u64) = unat ?b mod 128"
        by (simp add: unat_ucast_up unat_and_7f)
      have "unat ?v = unat v * 2 ^ 7 + unat (ucast (?b AND 0x7f) :: u64)"
      proof (rule unat_push_or)
        show "unat (ucast (?b AND 0x7f) :: u64) < 2 ^ 7" by (simp add: m)
        have "unat ?b mod 128 < 128" by simp
        then have "unat v * 2 ^ 7 + unat (ucast (?b AND 0x7f) :: u64) < 2 ^ 64" using v57 unfolding m by simp
        then show "unat v * 2 ^ 7 + unat (ucast (?b AND 0x7f) :: u64) < 2 ^ LENGTH(64)" by simp
      qed
      then show ?thesis by (simp add: m)
    qed
    then have "128 ^ Suc j \<le> unat ?v" using "1.prems"(2) by simp
    moreover have "parse_base128_loop (advance c 1) ?v = (Some w, c')" using r False by simp
    ultimately have "cbs_len (advance c 1) \<le> cbs_len c' + (10 - Suc j)"
      using u False by (intro "1.IH" [of ?b]) simp_all
    then show ?thesis using j by simp
  qed
qed

lemma parse_base128_short: "parse_base128_integer c = (Some w, c') \<Longrightarrow> cbs_len c \<le> cbs_len c' + 11"
proof -
  assume "parse_base128_integer c = (Some w, c')"
  then have p: "parse_base128_loop c 0 = (Some w, c')" by (simp add: parse_base128_integer_def)
  show ?thesis
  proof (cases "c' = advance c 1")
    case False
    then have "cbs_data c ! 0 \<noteq> 0x80" "cbs_data c ! 0 AND 0x80 \<noteq> 0"
      and r: "parse_base128_loop (advance c 1) (ucast (cbs_data c ! 0 AND 0x7f)) = (Some w, c')"
      using p by (auto simp: base128_loop_unfold [of c 0] Let_def split: if_splits)
    then have "128 \<le> unat (cbs_data c ! 0)" "unat (cbs_data c ! 0) \<noteq> 128" unfolding and_80_zero by (auto simp: word_unat_eq_iff)
    then have "unat (cbs_data c ! 0) mod 128 \<noteq> 0" using high_byte [of "cbs_data c ! 0"] by linarith
    then have "128 ^ 0 \<le> unat (ucast (cbs_data c ! 0 AND 0x7f) :: u64)"
      by (simp add: unat_ucast_up unat_and_7f)
    from base128_loop_short [OF r this] show ?thesis by simp
  qed simp
qed

lemma asn1_tag_short:
  assumes "parse_asn1_tag c = (Some t, h)"
  shows "cbs_len h < cbs_len c" and "cbs_len c \<le> cbs_len h + 12"
proof -
  have u: "0 < cbs_len c" using assms by (auto simp: parse_asn1_tag_eq split: if_splits)
  have "h = advance c 1 \<or> (\<exists>v. parse_base128_integer (advance c 1) = (Some v, h))"
    using assms u by (auto simp: parse_asn1_tag_eq Let_def and_then_Some split: if_splits)
  then show "cbs_len h < cbs_len c" "cbs_len c \<le> cbs_len h + 12"
    using u parse_base128_short [of "advance c 1" _ h] base128_loop_less [of "advance c 1" 0 _ h]
    by (auto simp: parse_base128_integer_def)
qed

lemma any_element_consumes:
  assumes "cbs_get_any_asn1_element c ber_ok = (Some (out, tag, header_len), c')"
  shows "cbs_len c' < cbs_len c \<and> cbs_len out \<le> cbs_len c \<and> 0 < header_len"
proof -
  obtain t h where t: "parse_asn1_tag c = (Some t, h)" and u: "0 < cbs_len h"
    using assms by (auto simp: cbs_get_any_asn1_element_def CBS_get_u8_advance split: prod.splits option.splits if_splits)
  let ?b = "cbs_data h ! 0"
  define hl where "hl = cbs_len c - (cbs_len h - 1)"
  have hl: "2 \<le> hl" "hl \<le> 13" "0 < cbs_len c" using asn1_tag_short [OF t] u by (simp_all add: hl_def)
  have hls: "Suc (cbs_len c) - cbs_len h = hl" "cbs_len c - (cbs_len h - Suc 0) = hl" using u by (simp_all add: hl_def)
  note code = cbs_get_any_asn1_element_def CBS_get_u8_advance CBS_len_def Let_def CBS_get_bytes_eq cbs_get_u_eq
  have short: "size_add (unat (b :: u8)) hl = unat b + hl" for b
  proof -
    have "unat b + hl < 269" using hl(2) unat_u8_less [of b] by linarith
    also have "269 < SIZE_LIMIT" by (simp add: SIZE_LIMIT_def)
    finally show ?thesis by (rule size_add_small)
  qed
  show ?thesis
  proof (cases "?b AND 0x80 = 0")
    case True
    then show ?thesis using assms t u hl short [of ?b]
      by (auto simp: code hls split: if_splits)
  next
    case False
    let ?nb = "unat (?b AND 0x7f)"
    show ?thesis
    proof (cases "ber_ok \<and> t AND CBS_ASN1_CONSTRUCTED \<noteq> 0 \<and> ?nb = 0")
      case True
      then show ?thesis using assms t u hl False
        by (auto simp: code hls split: if_splits)
    next
      case nb: False
      have "0 < ?nb \<and> ?nb \<le> 4" "?nb \<le> cbs_len h - 1"
        using assms t u False nb
        by (auto simp: code split: if_splits)
      define n where "n = unat (be_word (take ?nb (drop (Suc 0) (cbs_data h))) :: u64)"
      have n: "n < 2 ^ 32"
      proof -
        have "n = be_val (take ?nb (drop (Suc 0) (cbs_data h)))"
          unfolding n_def using \<open>0 < ?nb \<and> ?nb \<le> 4\<close> by (intro unat_be_word) (simp_all add: min_le_iff_disj)
        moreover have "\<dots> < 256 ^ length (take ?nb (drop (Suc 0) (cbs_data h)))" by (rule be_val_less)
        moreover have "(256 :: nat) ^ length (take ?nb (drop (Suc 0) (cbs_data h))) \<le> 256 ^ 4"
          using \<open>0 < ?nb \<and> ?nb \<le> 4\<close> by (intro power_increasing) (simp_all add: min_le_iff_disj)
        ultimately show ?thesis by simp
      qed
      have s: "size_add hl ?nb = hl + ?nb" "size_add n (hl + ?nb) = n + (hl + ?nb)"
        using n hl \<open>0 < ?nb \<and> ?nb \<le> 4\<close> by (auto intro!: size_add_small simp: SIZE_LIMIT_def)
      show ?thesis using assms t u hl False nb \<open>0 < ?nb \<and> ?nb \<le> 4\<close> \<open>?nb \<le> cbs_len h - 1\<close> s
        by (auto simp: code hls n_def [symmetric] split: if_splits)
    qed
  qed
qed

lemma any_element_less: "cbs_get_any_asn1_element c ber_ok = (Some x, c') \<Longrightarrow> cbs_len c' < cbs_len c"
  using any_element_consumes [of c ber_ok] by (cases x) auto

lemma CBS_get_any_asn1_element_less: "CBS_get_any_asn1_element c = (Some x, c') \<Longrightarrow> cbs_len c' < cbs_len c"
  unfolding CBS_get_any_asn1_element_def by (rule any_element_less)

section \<open>The code\<close>

definition compare_set_of_element :: "cbs_st \<Rightarrow> cbs_st \<Rightarrow> int" where
  "compare_set_of_element a b =
     (let a_len = CBS_len a; b_len = CBS_len b;
          min_len = (if a_len < b_len then a_len else b_len);
          ret = OPENSSL_memcmp (CBS_data a) (CBS_data b) min_len
      in if ret \<noteq> 0 then ret else if a_len = b_len then 0 else if a_len < b_len then -1 else 1)"

text \<open>The two passes over the elements: the number of them, and the array \<open>children\<close>.\<close>

function set_of_count :: "cbs_st \<Rightarrow> nat \<Rightarrow> nat option" where
  "set_of_count c num_children =
     (if CBS_len c \<noteq> 0
      then (case CBS_get_any_asn1_element c of (None, _) \<Rightarrow> None | (Some _, c) \<Rightarrow> set_of_count c (num_children + 1))
      else Some num_children)"
  by pat_completeness auto
termination
  by (relation "measure (\<lambda>(c, n). cbs_len c)") (auto dest!: CBS_get_any_asn1_element_less [OF sym])

declare set_of_count.simps [simp del]

fun set_of_children :: "nat \<Rightarrow> cbs_st \<Rightarrow> cbs_st list option" where
  "set_of_children 0 c = Some []"
| "set_of_children (Suc n) c =
     (case CBS_get_any_asn1_element c of
        (None, _) \<Rightarrow> None
      | (Some (child, _, _), c) \<Rightarrow> map_option ((#) child) (set_of_children n c))"

fun add_children :: "mem_env \<Rightarrow> nat \<Rightarrow> cbs_st list \<Rightarrow> cbb_state \<Rightarrow> (unit, cbb_state) outcome" where
  "add_children env d [] s = (Some (), s)"
| "add_children env d (child # children) s =
     and_then (CBB_add_bytes env d (CBS_data child) (CBS_len child) s) (\<lambda>_ s. add_children env d children s)"

text \<open>\<open>cbb->base->len = cbb->offset + cbb->pending_len_len\<close>.\<close>

definition cbb_rewind :: "nat \<Rightarrow> cbb_state \<Rightarrow> cbb_state" where
  "cbb_rewind d s =
     s\<lparr>cbb_base := map_option
        (\<lambda>base. base\<lparr>blen := offset (cbb_frames s ! d) + pending_len_len (cbb_frames s ! d)\<rparr>) (cbb_base s)\<rparr>"

text \<open>
  \<open>sizeof(CBS)\<close> is 16. \<open>CBB_data\<close> and \<open>CBB_len\<close> do not fail here: a successful flush leaves no child.
\<close>

definition CBB_flush_asn1_set_of ::
  "mem_env \<Rightarrow> ((cbs_st \<Rightarrow> cbs_st \<Rightarrow> int) \<Rightarrow> cbs_st list \<Rightarrow> cbs_st list) \<Rightarrow> nat \<Rightarrow> cbb_state \<Rightarrow> (unit, cbb_state) outcome" where
  "CBB_flush_asn1_set_of env qsort d s =
     and_then (CBB_flush env d s) (\<lambda>_ s.
     case (CBB_data d s, CBB_len d s) of
       (Some data, Some buf_len) \<Rightarrow>
         (case set_of_count (CBS_init data buf_len) 0 of
            None \<Rightarrow> (None, s)
          | Some num_children \<Rightarrow>
              if num_children < 2 then (Some (), s)
              else if num_children > (SIZE_LIMIT - 1) div 16 then (None, s)
              else
                let copy = OPENSSL_memdup env data buf_len; children = OPENSSL_malloc env (size_mul num_children 16)
                in case copy of
                     None \<Rightarrow> (None, s)
                   | Some copy \<Rightarrow>
                       if children = None then (None, s)
                       else (case set_of_children num_children (CBS_init copy buf_len) of
                               None \<Rightarrow> (None, s)
                             | Some children \<Rightarrow>
                                 add_children env d (qsort compare_set_of_element children) (cbb_rewind d s)))
     | _ \<Rightarrow> (None, s))"

section \<open>The order of the encodings\<close>

lemma libc_memcmp_code [code]:
  "libc_memcmp xs ys n =
     (case (xs, ys) of
        (a # as, b # bs) \<Rightarrow> if n = 0 then 0 else if a = b then libc_memcmp as bs (n - 1) else if a < b then -1 else 1
      | _ \<Rightarrow> 0)"
  by (cases n) (auto split: list.split)

lemma libc_memcmp_lex:
  "(let ret = libc_memcmp xs ys (min (length xs) (length ys))
    in if ret \<noteq> 0 then ret else if length xs = length ys then 0 else if length xs < length ys then -1 else 1) =
   (if xs = ys then 0 else if xs < ys then -1 else (1 :: int))"
proof (induction xs arbitrary: ys)
  case Nil
  then show ?case by (cases ys) simp_all
next
  case (Cons x xs)
  show ?case
  proof (cases ys)
    case (Cons y zs)
    then show ?thesis using Cons.IH [of zs] by (auto simp: Let_def split: if_splits)
  qed simp
qed

lemma libc_memcmp_take: "libc_memcmp (take n a) (take n b) n = libc_memcmp a b n"
  by (induction a b n rule: libc_memcmp.induct) auto

lemma compare_set_of:
  assumes "wf_cbs a" and "wf_cbs b"
  shows "compare_set_of_element a b =
    (if cbs_bytes a = cbs_bytes b then 0 else if cbs_bytes a < cbs_bytes b then -1 else 1)"
proof -
  let ?n = "min (cbs_len a) (cbs_len b)"
  have "OPENSSL_memcmp (CBS_data a) (CBS_data b) ?n = libc_memcmp (take ?n (cbs_data a)) (take ?n (cbs_data b)) ?n"
    unfolding libc_memcmp_take by (simp add: OPENSSL_memcmp_def CBS_data_def)
  also have "\<dots> = libc_memcmp (take ?n (cbs_bytes a)) (take ?n (cbs_bytes b)) ?n"
    by (simp add: take_data)
  finally have "OPENSSL_memcmp (CBS_data a) (CBS_data b) ?n = libc_memcmp (cbs_bytes a) (cbs_bytes b) ?n"
    unfolding libc_memcmp_take .
  moreover have "(if cbs_len a < cbs_len b then cbs_len a else cbs_len b) = ?n" by (simp add: min_def)
  ultimately show ?thesis
    using libc_memcmp_lex [of "cbs_bytes a" "cbs_bytes b"] assms
    by (simp only: compare_set_of_element_def CBS_len_def Let_def length_cbs_bytes)
qed

lemma compare_set_of_order: "(\<forall>c \<in> A. wf_cbs c) \<Longrightarrow> cmp_order_on A compare_set_of_element"
  by (auto simp: cmp_order_on_def compare_set_of split: if_splits)

lemma sorted_children:
  assumes q: "qsort_sorts qs" and wf: "\<forall>c \<in> set cs. wf_cbs c"
  shows "map cbs_bytes (qs compare_set_of_element cs) = sort (map cbs_bytes cs)" and "set (qs compare_set_of_element cs) = set cs"
proof -
  let ?q = "qs compare_set_of_element cs"
  have m: "mset ?q = mset cs" and s: "sorted_by compare_set_of_element ?q"
    using q compare_set_of_order [OF wf] unfolding qsort_sorts_def by blast+
  show set: "set ?q = set cs" using m by (rule mset_eq_setD)
  have "sorted_wrt (\<lambda>x y. cbs_bytes x \<le> cbs_bytes y) ?q"
    by (rule sorted_wrt_mono_rel [OF _ s]) (use wf set in \<open>auto simp: compare_set_of split: if_splits\<close>)
  then have "sorted (map cbs_bytes ?q)" by (simp add: sorted_wrt_map)
  moreover have "mset (map cbs_bytes ?q) = mset (map cbs_bytes cs)" using m by simp
  ultimately show "map cbs_bytes ?q = sort (map cbs_bytes cs)" by (intro properties_for_sort [symmetric])
qed

lemma length_concat_sort: "length (concat (sort xs)) = length (concat (xs :: bytes list))"
proof -
  have "mset (map length (sort xs)) = mset (map length xs)" by simp
  then have "sum_list (map length (sort xs)) = sum_list (map length xs)" by (metis sum_mset_sum_list)
  then show ?thesis by (simp add: length_concat)
qed

section \<open>The elements\<close>

lemma set_of_count_unfold:
  "set_of_count c n =
     (if CBS_len c \<noteq> 0
      then (case CBS_get_any_asn1_element c of (None, _) \<Rightarrow> None | (Some _, c) \<Rightarrow> set_of_count c (n + 1))
      else Some n)"
  by (rule set_of_count.simps)

lemma set_of_count_sound:
  "set_of_count c n = Some k \<Longrightarrow> wf_cbs c \<Longrightarrow>
    \<exists>es. cbs_bytes c = concat (map der_element es) \<and> (\<forall>e \<in> set es. length (snd e) < 2 ^ 32) \<and> k = n + length es"
proof (induction c n arbitrary: k rule: set_of_count.induct)
  case (1 c n)
  show ?case
  proof (cases "CBS_len c = 0")
    case True
    then show ?thesis using 1(2,3) by (intro exI [of _ "[]"]) (simp_all add: set_of_count_unfold [of c] cbs_bytes_def CBS_len_def)
  next
    case False
    then obtain x c' where e: "CBS_get_any_asn1_element c = (Some x, c')" and k: "set_of_count c' (n + 1) = Some k"
      using 1(2) by (auto simp: set_of_count_unfold [of c] split: prod.splits option.splits)
    obtain out t hl where x: "x = (out, t, hl)" by (metis prod_cases3)
    from element_sound [OF 1(3) e [unfolded x]] obtain body where b: "length body < 2 ^ 32"
      "cbs_bytes c = der_element (t, body) @ cbs_bytes c'" "c' = advance c (length (der_element (t, body)))" by blast
    have "wf_cbs c'" using b(3) 1(3) by simp
    from 1(1) [OF False e [symmetric] refl k this] obtain es where
      es: "cbs_bytes c' = concat (map der_element es)" "\<forall>e \<in> set es. length (snd e) < 2 ^ 32" "k = n + 1 + length es" by blast
    then show ?thesis using b(1,2) by (intro exI [of _ "(t, body) # es"]) simp
  qed
qed

lemma set_of_children_complete:
  "wf_cbs c \<Longrightarrow> cbs_bytes c = concat (map der_element es) \<Longrightarrow> \<forall>e \<in> set es. length (snd e) < 2 ^ 32 \<Longrightarrow>
    (\<forall>n. set_of_count c n = Some (n + length es)) \<and>
    (\<exists>cs. set_of_children (length es) c = Some cs \<and> map cbs_bytes cs = map der_element es \<and> (\<forall>ch \<in> set cs. wf_cbs ch))"
proof (induction es arbitrary: c)
  case Nil
  then have "cbs_len c = 0" using length_cbs_bytes [of c] by simp
  then show ?case by (simp add: set_of_count_unfold [of c] CBS_len_def)
next
  case (Cons e es)
  obtain t body where e: "e = (t, body)" by fastforce
  have eq: "cbs_bytes c = der_element (t, body) @ concat (map der_element es)" and b: "length body < 2 ^ 32"
    using Cons.prems by (simp_all add: e)
  let ?l = "length (der_element (t, body))"
  note r = element_complete [OF Cons.prems(1) b eq]
  have rest: "wf_cbs (advance c ?l)" "cbs_bytes (advance c ?l) = concat (map der_element es)"
    using Cons.prems(1) eq by simp_all
  from Cons.IH [OF rest] Cons.prems(3) obtain cs where
    n: "\<forall>n. set_of_count (advance c ?l) n = Some (n + length es)"
    and cs: "set_of_children (length es) (advance c ?l) = Some cs" "map cbs_bytes cs = map der_element es" "\<forall>ch \<in> set cs. wf_cbs ch"
    by auto
  have le: "?l \<le> cbs_len c" using length_cbs_bytes [OF Cons.prems(1)] eq by simp
  have "der_element (t, body) \<noteq> []" by (simp add: der_element_def der_len_def)
  then have ne: "CBS_len c \<noteq> 0" using le unfolding CBS_len_def by (metis le_zero_eq length_0_conv)
  have w: "wf_cbs (CBS_init (cbs_data c) ?l)" using le Cons.prems(1) by (simp add: wf_cbs_def)
  moreover have "cbs_bytes (CBS_init (cbs_data c) ?l) = der_element (t, body)"
    using le eq by (simp add: take_data)
  ultimately show ?case using n cs ne by (simp add: e r set_of_count_unfold [of c])
qed

section \<open>The builder\<close>

text \<open>A \<open>CBB\<close> without a child: what \<open>CBB_data\<close> and \<open>CBB_len\<close> show of it, and its state with the contents cleared.\<close>

lemma start_of_last: "start_of (offset f + pending_len_len f) us = offset ((f # us) ! length us) + pending_len_len ((f # us) ! length us)"
  by (induction us arbitrary: f) simp_all

lemma flushed_view:
  assumes s: "wf_cbb s" "length (cbb_frames s) = Suc d" "\<not> cbb_failed s"
  shows "\<exists>data n. CBB_data d s = Some data \<and> CBB_len d s = Some n \<and> wf_cbs (CBS_init data n) \<and> n < PTRDIFF_LIMIT \<and>
    take n data = snd (last (cbb_abs s)) \<and> wf_cbb (cbb_rewind d s) \<and> \<not> cbb_failed (cbb_rewind d s) \<and>
    cbb_cap (cbb_rewind d s) = cbb_cap s \<and> cbb_frames (cbb_rewind d s) = cbb_frames s \<and> base_len s \<le> cbb_cap s \<and>
    cbb_abs (cbb_rewind d s) = butlast (cbb_abs s) @ [(fst (last (cbb_abs s)), [])]"
proof -
  have d: "d < length (cbb_frames s)" using s(2) by simp
  from wf_cbb_at [OF s(1) d] obtain b f us ls where
    st: "cbb_base s = Some b" "cbb_frames s = f # us @ ls" "length us = d"
    and "take (Suc d) (cbb_frames s) = f # us" "drop (Suc d) (cbb_frames s) = ls"
    and f: "offset f = 0" "pending_len_len f = 0" "\<not> is_child f"
    and w: "wf_buffer b" "chain_up 0 us" "chain_ok b (start_of 0 us) ls"
    and abs: "cbb_abs s = upper b 0 Root us @ levels_from b (start_of 0 us) (kind_at Root us) ls" by blast
  let ?p = "start_of 0 us" and ?k = "kind_at Root us"
  have ls: "ls = []" using st s(2) by simp
  have fr: "cbb_frames s = f # us" using st ls by simp
  have pb: "?p \<le> blen b" using w(3) ls by simp
  have at: "offset (cbb_frames s ! d) + pending_len_len (cbb_frames s ! d) = ?p"
    using start_of_last [of f us] f st(3) by (simp add: fr)
  have abs': "cbb_abs s = upper b 0 Root us @ [(?k, seg b ?p (blen b))]" by (simp add: abs ls)
  have dat: "CBB_data d s = Some (drop ?p (buf b))" using at st s(2) by (simp add: CBB_data_def)
  have len: "CBB_len d s = Some (blen b - ?p)" using at st s(2) pb by (simp add: CBB_len_def Let_def)
  have bound: "blen b \<le> length (buf b)" "length (buf b) < PTRDIFF_LIMIT" using w(1) by (simp_all add: wf_buffer_def)
  let ?b = "b\<lparr>blen := ?p\<rparr>"
  have rw: "cbb_rewind d s = \<lparr>cbb_base = Some ?b, cbb_frames = f # us @ []\<rparr>"
    using at st(1) fr by (simp add: cbb_rewind_def)
  have wb: "wf_buffer ?b" "chain_ok ?b ?p []" using w(1) pb by (simp_all add: wf_buffer_def)
  have "wf_cbb (cbb_rewind d s)" unfolding rw by (rule wf_cbbI [OF wb(1) w(2) wb(2) f])
  moreover have "cbb_abs (cbb_rewind d s) = upper b 0 Root us @ [(?k, [])]"
  proof -
    have "upper ?b 0 Root us = upper b 0 Root us" by (rule upper_same [OF w(2)]) simp
    then show ?thesis using levels_append [of ?b 0 Root us "[]"] by (simp add: rw cbb_abs_def seg_def)
  qed
  moreover have "wf_cbs (CBS_init (drop ?p (buf b)) (blen b - ?p))" "blen b - ?p < PTRDIFF_LIMIT"
    using bound by (auto simp: wf_cbs_def PTRDIFF_LIMIT_def SIZE_LIMIT_def)
  moreover have "base_len s \<le> cbb_cap s" using w(1) st(1) by (simp add: base_len_def cbb_cap_def wf_buffer_def)
  moreover have "take (blen b - ?p) (drop ?p (buf b)) = snd (last (cbb_abs s))" by (simp add: abs' seg_def)
  ultimately show ?thesis using dat len s(3) st(1) fr abs' by (simp add: rw cbb_failed_def cbb_cap_def)
qed

lemma child_call:
  assumes "wf_cbs ch" and "cbs_len ch < PTRDIFF_LIMIT"
  shows "builder_call (CBB_add_bytes env d (CBS_data ch) (CBS_len ch)) (append_option d (Some (cbs_bytes ch))) d"
proof -
  have "CBB_add_bytes env d (CBS_data ch) (CBS_len ch) = CBB_add_bytes env d (cbs_bytes ch) (cbs_len ch)"
    unfolding CBB_add_bytes_def [abs_def] CBS_data_def CBS_len_def cbs_bytes_def take_take by simp
  then show ?thesis using bytes_call [of "cbs_bytes ch" env d] assms by simp
qed

lemma add_children_seq:
  "add_children env d cs s = seq_calls (map (\<lambda>ch. CBB_add_bytes env d (CBS_data ch) (CBS_len ch)) cs) s"
proof (induction cs arbitrary: s)
  case (Cons c cs)
  have "add_children env d cs = seq_calls (map (\<lambda>ch. CBB_add_bytes env d (CBS_data ch) (CBS_len ch)) cs)"
    by (rule ext) (rule Cons.IH)
  then show ?case by simp
qed simp

lemma level_size_last: "length x = length y \<Longrightarrow> level_size (us @ [(k, x)]) = level_size (us @ [(k, y)])"
  using level_size_append [of "[(k, x)]" us] level_size_append [of "[(k, y)]" us] by simp

text \<open>Writing the sorted contents back over the old ones.\<close>

lemma rewrite_children:
  assumes s: "wf_cbb s" "length (cbb_frames s) = Suc d" "\<not> cbb_failed s"
    and cs: "\<forall>ch \<in> set cs. wf_cbs ch \<and> cbs_len ch < PTRDIFF_LIMIT" "cs \<noteq> []"
    and len: "length (concat (map cbs_bytes cs)) = length (snd (last (cbb_abs s)))"
  shows "\<exists>t. add_children env d cs (cbb_rewind d s) = (Some (), t) \<and> wf_cbb t \<and> \<not> cbb_failed t \<and>
    cbb_abs t = butlast (cbb_abs s) @ [(fst (last (cbb_abs s)), concat (map cbs_bytes cs))]"
proof -
  let ?X = "concat (map cbs_bytes cs)" and ?r = "cbb_rewind d s" and ?up = "butlast (cbb_abs s)" and ?k = "fst (last (cbb_abs s))"
  from flushed_view [OF s] have r: "wf_cbb ?r" "\<not> cbb_failed ?r" "cbb_cap ?r = cbb_cap s" "cbb_frames ?r = cbb_frames s"
    "base_len s \<le> cbb_cap s" "cbb_abs ?r = ?up @ [(?k, [])]" by blast+
  have d: "d < length (cbb_frames ?r)" using r(4) s(2) by simp
  have row: "builder_call (add_children env d cs) (append_option d (Some ?X)) d"
  proof -
    have "list_all2 (\<lambda>c bs. builder_call c (append_option d (Some bs)) d)
        (map (\<lambda>ch. CBB_add_bytes env d (CBS_data ch) (CBS_len ch)) cs) (map cbs_bytes cs)"
      using cs(1) by (auto simp: list_all2_map1 list_all2_map2 list_all2_same child_call)
    from seq_calls_call [OF this] cs(2) show ?thesis by (simp add: add_children_seq [abs_def])
  qed
  have la: "length (cbb_abs s) = Suc d" using frames_wf [OF s(1)] s(2) by simp
  then have ne: "cbb_abs s \<noteq> []" "length ?up = d" by auto
  have sp: "append_option d (Some ?X) (cbb_abs ?r) = Some (?up @ [(?k, ?X)])"
    using ne by (simp add: append_option_def append_levels_def flush_levels_def r(6) nth_append)
  have "level_size (?up @ [(?k, ?X)]) = level_size (?up @ [(?k, snd (last (cbb_abs s)))])"
    by (rule level_size_last [OF len])
  also have "\<dots> = level_size (cbb_abs s)" using ne by simp
  also have "\<dots> = base_len s" by (rule size_wf [OF s(1)])
  finally have "level_size (?up @ [(?k, ?X)]) \<le> cbb_cap ?r" using r(3,5) by simp
  from builder_call.fits [OF row r(1) d r(2) sp this] obtain t where t: "add_children env d cs ?r = (Some (), t)"
    by (metis prod.collapse)
  from builder_call.refines [OF row r(1) d t] sp t show ?thesis by simp
qed

text \<open>Two elements or more, and memory for the copies.\<close>

lemma many_children:
  assumes q: "qsort_sorts qs" and fl: "CBB_flush env d s = (Some x, s1)"
    and s1: "wf_cbb s1" "\<not> cbb_failed s1" "length (cbb_frames s1) = Suc d"
    and dn: "CBB_data d s1 = Some data" "CBB_len d s1 = Some n" "wf_cbs (CBS_init data n)" "n < PTRDIFF_LIMIT"
      "take n data = snd (last (cbb_abs s1))"
    and Some: "set_of_count (CBS_init data n) 0 = Some k"
    and es: "snd (last (cbb_abs s1)) = concat (map der_element es) \<and> (\<forall>e \<in> set es. length (snd e) < 2 ^ 32)" "k = length es"
    and k2: "\<not> k < 2" and mem: "k < 2 ^ 60" "OPENSSL_malloc env n = Some p" "OPENSSL_malloc env (k * 16) \<noteq> None"
  shows "\<exists>t. CBB_flush_asn1_set_of env qs d s = (Some (), t) \<and> wf_cbb t \<and> \<not> cbb_failed t \<and>
    cbb_abs t = butlast (cbb_abs s1) @ [(fst (last (cbb_abs s1)), concat (sort (map der_element es)))]"
proof -
  have n: "n \<le> length data" "length data < SIZE_LIMIT" "n = length (snd (last (cbb_abs s1)))"
    using dn(3) arg_cong [OF dn(5), of length] by (simp_all add: wf_cbs_def)
  have mul: "size_mul k 16 = k * 16" using mem(1) by (intro size_mul_small) (simp add: SIZE_LIMIT_def)
  have big: "(SIZE_LIMIT - Suc 0) div 16 < k \<longleftrightarrow> 2 ^ 60 \<le> k" by (auto simp: SIZE_LIMIT_def)
  have "n \<noteq> 0" using es k2 n(3) by (cases es) (auto simp: der_element_def der_len_def)
  then obtain copy where copy: "OPENSSL_memdup env data n = Some copy" using mem(2) by (simp add: OPENSSL_memdup_def)
  have "n < SIZE_LIMIT - OPENSSL_MALLOC_PREFIX"
    using dn(4) by (simp add: PTRDIFF_LIMIT_def SIZE_LIMIT_def OPENSSL_MALLOC_PREFIX_def)
  from OPENSSL_memdup_eq [OF copy n(1) this] have ceq: "copy = take n data" .
  have wc: "wf_cbs (CBS_init copy n)" "cbs_bytes (CBS_init copy n) = snd (last (cbb_abs s1))"
    using n dn(5) by (simp_all add: ceq wf_cbs_def)
  from set_of_children_complete [OF wc(1), of es] es wc(2) obtain cs where
    cs: "set_of_children k (CBS_init copy n) = Some cs" "map cbs_bytes cs = map der_element es" "\<forall>ch \<in> set cs. wf_cbs ch" by auto
  let ?q = "qs compare_set_of_element cs"
  note sorted = sorted_children [OF q cs(3)]
  have eq: "map cbs_bytes ?q = sort (map der_element es)" using sorted(1) cs(2) by simp
  have l: "length (concat (sort (map der_element es))) = length (concat (map der_element es))" by (rule length_concat_sort)
  have small: "\<forall>ch \<in> set ?q. wf_cbs ch \<and> cbs_len ch < PTRDIFF_LIMIT"
  proof
    fix ch assume "ch \<in> set ?q"
    then have ch: "ch \<in> set cs" by (simp add: sorted(2))
    then have "cbs_bytes ch \<in> set (map der_element es)" unfolding cs(2) [symmetric] by simp
    then have "length (cbs_bytes ch) \<le> length (concat (map der_element es))"
      unfolding length_concat by (intro member_le_sum_list) auto
    then show "wf_cbs ch \<and> cbs_len ch < PTRDIFF_LIMIT" using cs(3) ch es(1) n(3) dn(4) by auto
  qed
  have "length ?q = k" using arg_cong [OF eq, of length] es(2) by simp
  then have ne: "?q \<noteq> []" using k2 by auto
  have "length (concat (map cbs_bytes ?q)) = length (snd (last (cbb_abs s1)))" using l es(1) by (simp only: eq)
  from rewrite_children [OF s1(1,3,2) small ne this, of env] obtain t where
    t: "add_children env d ?q (cbb_rewind d s1) = (Some (), t)" "wf_cbb t" "\<not> cbb_failed t"
      "cbb_abs t = butlast (cbb_abs s1) @ [(fst (last (cbb_abs s1)), concat (sort (map der_element es)))]" unfolding eq by blast
  have "CBB_flush_asn1_set_of env qs d s = (Some (), t)"
    using Some k2 mem dn(1,2) big mul copy cs(1) t(1) by (simp add: CBB_flush_asn1_set_of_def fl Let_def)
  then show ?thesis using t(2-4) by blast
qed

lemma set_of_effect:
  assumes q: "qsort_sorts qs" and s: "wf_cbb s" "d < length (cbb_frames s)" and fl: "CBB_flush env d s = (Some x, s1)"
  shows "case CBB_flush_asn1_set_of env qs d s of
      (Some _, t) \<Rightarrow> \<exists>es. snd (last (cbb_abs s1)) = concat (map der_element es) \<and> (\<forall>e \<in> set es. length (snd e) < 2 ^ 32) \<and>
        wf_cbb t \<and> \<not> cbb_failed t \<and>
        cbb_abs t = butlast (cbb_abs s1) @ [(fst (last (cbb_abs s1)), concat (sort (map der_element es)))]
    | (None, t) \<Rightarrow> t = s1 \<and>
        (\<forall>es. snd (last (cbb_abs s1)) = concat (map der_element es) \<and> (\<forall>e \<in> set es. length (snd e) < 2 ^ 32) \<longrightarrow>
          2 \<le> length es \<and> (2 ^ 60 \<le> length es \<or> OPENSSL_malloc env (length (concat (map der_element es))) = None \<or>
            OPENSSL_malloc env (length es * 16) = None))"
proof -
  note r = flush.refines [OF s, of env s1]
  have s1: "wf_cbb s1" "\<not> cbb_failed s1" "length (cbb_frames s1) = Suc d"
    using r fl flushed_frames [OF s, of env s1] by simp_all
  from flushed_view [OF s1(1,3,2)] obtain data n where dn: "CBB_data d s1 = Some data" "CBB_len d s1 = Some n"
    "wf_cbs (CBS_init data n)" "n < PTRDIFF_LIMIT" "take n data = snd (last (cbb_abs s1))" by blast
  let ?c = "CBS_init data n" and ?ok = "\<lambda>es. snd (last (cbb_abs s1)) = concat (map der_element es) \<and> (\<forall>e \<in> set es. length (snd e) < 2 ^ 32)"
  have bytes: "cbs_bytes ?c = snd (last (cbb_abs s1))" using dn(5) by simp
  have n: "n \<le> length data" "length data < SIZE_LIMIT" "n = length (snd (last (cbb_abs s1)))"
    using dn(3) arg_cong [OF dn(5), of length] by (simp_all add: wf_cbs_def)
  have len: "cbb_abs s1 = butlast (cbb_abs s1) @ [last (cbb_abs s1)]"
    using frames_wf [OF s1(1)] s1(3) by (metis append_butlast_last_id length_0_conv nat.simps(3))
  show ?thesis
  proof (cases "set_of_count ?c 0")
    case None
    have "\<not> ?ok es" for es
    proof
      assume ok: "?ok es"
      then have "cbs_bytes ?c = concat (map der_element es)" using bytes by simp
      from set_of_children_complete [OF dn(3) this] ok None show False by simp
    qed
    moreover have "CBB_flush_asn1_set_of env qs d s = (None, s1)" using None dn(1,2) by (simp add: CBB_flush_asn1_set_of_def fl)
    ultimately show ?thesis by auto
  next
    case (Some k)
    from set_of_count_sound [OF Some dn(3)] bytes obtain es where es: "?ok es" "k = length es" by auto
    have count: "length es' = k" if "?ok es'" for es'
      using set_of_children_complete [OF dn(3), of es'] that bytes Some by auto
    show ?thesis
    proof (cases "k < 2")
      case True
      then have "sort (map der_element es) = map der_element es" using es(2) by (cases es) auto
      then have "cbb_abs s1 = butlast (cbb_abs s1) @ [(fst (last (cbb_abs s1)), concat (sort (map der_element es)))]"
        using es(1) len by (metis prod.collapse)
      moreover have "CBB_flush_asn1_set_of env qs d s = (Some (), s1)"
        using True Some dn(1,2) by (simp add: CBB_flush_asn1_set_of_def fl)
      ultimately show ?thesis using es(1) s1 by auto
    next
      case k2: False
      have mul: "size_mul k 16 = k * 16" if "k < 2 ^ 60" using that by (intro size_mul_small) (simp add: SIZE_LIMIT_def)
      have big: "(SIZE_LIMIT - Suc 0) div 16 < k \<longleftrightarrow> 2 ^ 60 \<le> k" by (auto simp: SIZE_LIMIT_def)
      show ?thesis
      proof (cases "2 ^ 60 \<le> k \<or> OPENSSL_malloc env n = None \<or> OPENSSL_malloc env (k * 16) = None")
        case True
        have "2 \<le> length es' \<and> (2 ^ 60 \<le> length es' \<or> OPENSSL_malloc env (length (concat (map der_element es'))) = None \<or>
            OPENSSL_malloc env (length es' * 16) = None)" if "?ok es'" for es'
          using True k2 count [OF that] that n(3) by auto
        moreover have "CBB_flush_asn1_set_of env qs d s = (None, s1)"
        proof (cases "2 ^ 60 \<le> k")
          case True
          then show ?thesis using k2 Some dn(1,2) by (simp add: CBB_flush_asn1_set_of_def fl big)
        next
          case k60: False
          then show ?thesis using True k2 Some dn(1,2) mul
            by (auto simp: CBB_flush_asn1_set_of_def fl big OPENSSL_memdup_def not_le split: option.splits)
        qed
        ultimately show ?thesis by auto
      next
        case False
        then obtain copy p where mem: "k < 2 ^ 60" "OPENSSL_malloc env n = Some p" "OPENSSL_malloc env (k * 16) \<noteq> None" by auto
        obtain t where "CBB_flush_asn1_set_of env qs d s = (Some (), t)" "wf_cbb t" "\<not> cbb_failed t"
            "cbb_abs t = butlast (cbb_abs s1) @ [(fst (last (cbb_abs s1)), concat (sort (map der_element es)))]"
          using many_children [OF q fl s1 dn Some es k2 mem] by blast
        then show ?thesis using es(1) by auto
      qed
    qed
  qed
qed

section \<open>Property\<close>

text \<open>C38: sorting a \<open>SET OF\<close>. With a \<open>qsort\<close> that sorts, \<open>CBB_flush_asn1_set_of\<close> after its flush replaces the contents of the
  \<open>CBB\<close>, a sequence of DER elements, by the same elements in ascending order of their encodings and keeps the builder
  well formed; it fails, leaving the flushed builder unchanged, only when the contents are not a sequence of
  elements, when there are $2^{60}$ of them or more, or when an allocation fails.\<close>

theorem set_of_sorted:
  assumes q: "qsort_sorts qs" and s: "wf_cbb s" "d < length (cbb_frames s)" and fl: "CBB_flush env d s = (Some x, s1)"
  shows "case CBB_flush_asn1_set_of env qs d s of
      (Some _, t) \<Rightarrow> \<exists>es. snd (last (cbb_abs s1)) = concat (map der_element es) \<and> (\<forall>e \<in> set es. length (snd e) < 2 ^ 32) \<and>
        wf_cbb t \<and> \<not> cbb_failed t \<and>
        cbb_abs t = butlast (cbb_abs s1) @ [(fst (last (cbb_abs s1)), concat (sort (map der_element es)))]
    | (None, t) \<Rightarrow> t = s1 \<and>
        (\<forall>es. snd (last (cbb_abs s1)) = concat (map der_element es) \<and> (\<forall>e \<in> set es. length (snd e) < 2 ^ 32) \<longrightarrow>
          2 \<le> length es \<and> (2 ^ 60 \<le> length es \<or> OPENSSL_malloc env (length (concat (map der_element es))) = None \<or>
            OPENSSL_malloc env (length es * 16) = None))"
  by (rule set_of_effect [OF assms])

theorem set_of_sorted_witness:
  "\<exists>t es. CBB_flush_asn1_set_of roomy_env insertion_sort 0
       (snd (CBB_add_bytes roomy_env 0 [2, 1, 5, 2, 1, 3] 6 (snd (CBB_init roomy_env 8)))) = (Some (), t) \<and>
     [2, 1, 5, 2, 1, 3] = concat (map der_element es) \<and> snd (last (cbb_abs t)) = concat (sort (map der_element es))"
proof -
  let ?ini = "snd (CBB_init roomy_env 8)" and ?bs = "[2, 1, 5, 2, 1, 3] :: bytes"
  let ?s = "snd (CBB_add_bytes roomy_env 0 ?bs 6 ?ini)"
  have c: "fst (CBB_init roomy_env 8) = Some ()" "fst (CBB_add_bytes roomy_env 0 ?bs 6 ?ini) = Some ()"
    "fst (CBB_flush roomy_env 0 ?s) = Some ()" "snd (last (cbb_abs (snd (CBB_flush roomy_env 0 ?s)))) = ?bs"
    "fst (CBB_flush_asn1_set_of roomy_env insertion_sort 0 ?s) = Some ()"
    by code_simp+
  have s0: "CBB_init roomy_env 8 = (Some (), ?ini)" using c(1) by (simp only: prod_eq_iff fst_conv snd_conv)
  have w0: "wf_cbb ?ini" using init_wf [OF s0] by (simp add: PTRDIFF_LIMIT_def)
  then have d0: "0 < length (cbb_frames ?ini)" by (auto simp: wf_cbb_def split: option.splits list.splits)
  have l: "length ?bs = 6" by simp
  have s: "CBB_add_bytes roomy_env 0 ?bs (length ?bs) ?ini = (Some (), ?s)"
    unfolding l using c(2) by (simp only: prod_eq_iff fst_conv snd_conv)
  have "length ?bs < PTRDIFF_LIMIT" by (simp add: PTRDIFF_LIMIT_def)
  from builder_call.refines [OF bytes_call [OF this] w0 d0 s] have w: "wf_cbb ?s" by simp
  then have d: "0 < length (cbb_frames ?s)" by (auto simp: wf_cbb_def split: option.splits list.splits)
  obtain t where t: "CBB_flush_asn1_set_of roomy_env insertion_sort 0 ?s = (Some (), t)" using c(5) by (metis prod.collapse)
  have "CBB_flush roomy_env 0 ?s = (Some (), snd (CBB_flush roomy_env 0 ?s))" using c(3) by (simp only: prod_eq_iff fst_conv snd_conv)
  from set_of_sorted [OF insertion_sort_sorts w d this] obtain es where
    "?bs = concat (map der_element es)" "snd (last (cbb_abs t)) = concat (sort (map der_element es))"
    unfolding t c(4) prod.case option.case by auto
  with t show ?thesis by blast
qed

end
