(* ===== verification/Unicode.thy ===== *)
theory Unicode
  imports CBB_Programs
begin

text \<open>
  \<open>crypto/bytestring/unicode.c\<close>: reading and writing one code point as UTF-8, Latin-1, UCS-2 and
  UTF-32. \<open>utf8\<close> is the encoding of RFC 3629 on numbers; the reader accepts exactly the encodings
  of the valid code points and the writer appends them.
\<close>

unbundle bit_operations_syntax

definition is_valid_code_point :: "u32 \<Rightarrow> bool" where
  "is_valid_code_point v =
     (\<not> (v > 0x10ffff \<or> (v AND 0xfffe) = 0xfffe \<or> (v \<ge> 0xfdd0 \<and> v \<le> 0xfdef) \<or> (v \<ge> 0xd800 \<and> v \<le> 0xdfff)))"

definition BOTTOM_BITS :: "nat \<Rightarrow> u8" where
  "BOTTOM_BITS n = push_bit n 1 - 1"

definition TOP_BITS :: "nat \<Rightarrow> u8" where
  "TOP_BITS n = NOT (BOTTOM_BITS (8 - n))"

fun utf8_tail :: "cbs_st \<Rightarrow> u32 \<Rightarrow> nat \<Rightarrow> (u32, cbs_st) outcome" where
  "utf8_tail c v 0 = (Some v, c)"
| "utf8_tail c v (Suc n) =
     and_then (CBS_get_u8 c) (\<lambda>b c.
       if b AND TOP_BITS 2 \<noteq> TOP_BITS 1 then (None, c)
       else utf8_tail c (push_bit 6 v OR ucast (b AND BOTTOM_BITS 6)) n)"

definition cbs_get_utf8 :: "cbs_st \<Rightarrow> (u32, cbs_st) outcome" where
  "cbs_get_utf8 c =
     and_then (CBS_get_u8 c) (\<lambda>b c.
       if b \<le> 0x7f then (Some (ucast b), c)
       else
         (case
            (if b AND TOP_BITS 3 = TOP_BITS 2 then Some (ucast (b AND BOTTOM_BITS 5), 1, 0x80)
             else if b AND TOP_BITS 4 = TOP_BITS 3 then Some (ucast (b AND BOTTOM_BITS 4), 2, 0x800)
             else if b AND TOP_BITS 5 = TOP_BITS 4 then Some (ucast (b AND BOTTOM_BITS 3), 3, 0x10000)
             else None)
          of None \<Rightarrow> (None, c)
           | Some (v, len, lower_bound) \<Rightarrow>
               and_then (utf8_tail c v len) (\<lambda>v c.
                 if \<not> is_valid_code_point v \<or> v < lower_bound then (None, c) else (Some v, c))))"

definition cbs_get_latin1 :: "cbs_st \<Rightarrow> (u32, cbs_st) outcome" where
  "cbs_get_latin1 c = and_then (CBS_get_u8 c) (\<lambda>b c. (Some (ucast b), c))"

definition cbs_get_ucs2_be :: "cbs_st \<Rightarrow> (u32, cbs_st) outcome" where
  "cbs_get_ucs2_be c =
     and_then (CBS_get_u16 c) (\<lambda>v c. if \<not> is_valid_code_point (ucast v) then (None, c) else (Some (ucast v), c))"

definition cbs_get_utf32_be :: "cbs_st \<Rightarrow> (u32, cbs_st) outcome" where
  "cbs_get_utf32_be c =
     and_then (CBS_get_u32 c) (\<lambda>v c. if is_valid_code_point v then (Some v, c) else (None, c))"

definition cbb_get_utf8_len :: "u32 \<Rightarrow> nat" where
  "cbb_get_utf8_len u = (if u \<le> 0x7f then 1 else if u \<le> 0x7ff then 2 else if u \<le> 0xffff then 3 else 4)"

definition cbb_add_utf8 :: "mem_env \<Rightarrow> nat \<Rightarrow> u32 \<Rightarrow> cbb_state \<Rightarrow> (unit, cbb_state) outcome" where
  "cbb_add_utf8 env d u s =
     (if \<not> is_valid_code_point u then (None, s)
      else if u \<le> 0x7f then CBB_add_u8 env d (ucast u) s
      else if u \<le> 0x7ff
      then and_then (CBB_add_u8 env d (TOP_BITS 2 OR ucast (drop_bit 6 u)) s) (\<lambda>_ s.
           CBB_add_u8 env d (TOP_BITS 1 OR ucast u AND BOTTOM_BITS 6) s)
      else if u \<le> 0xffff
      then and_then (CBB_add_u8 env d (TOP_BITS 3 OR ucast (drop_bit 12 u)) s) (\<lambda>_ s.
           and_then (CBB_add_u8 env d (TOP_BITS 1 OR ucast (drop_bit 6 u) AND BOTTOM_BITS 6) s) (\<lambda>_ s.
           CBB_add_u8 env d (TOP_BITS 1 OR ucast u AND BOTTOM_BITS 6) s))
      else if u \<le> 0x10ffff
      then and_then (CBB_add_u8 env d (TOP_BITS 4 OR ucast (drop_bit 18 u)) s) (\<lambda>_ s.
           and_then (CBB_add_u8 env d (TOP_BITS 1 OR ucast (drop_bit 12 u) AND BOTTOM_BITS 6) s) (\<lambda>_ s.
           and_then (CBB_add_u8 env d (TOP_BITS 1 OR ucast (drop_bit 6 u) AND BOTTOM_BITS 6) s) (\<lambda>_ s.
           CBB_add_u8 env d (TOP_BITS 1 OR ucast u AND BOTTOM_BITS 6) s)))
      else (None, s))"

definition cbb_add_latin1 :: "mem_env \<Rightarrow> nat \<Rightarrow> u32 \<Rightarrow> cbb_state \<Rightarrow> (unit, cbb_state) outcome" where
  "cbb_add_latin1 env d u s = (if u \<le> 0xff then CBB_add_u8 env d (ucast u) s else (None, s))"

definition cbb_add_ucs2_be :: "mem_env \<Rightarrow> nat \<Rightarrow> u32 \<Rightarrow> cbb_state \<Rightarrow> (unit, cbb_state) outcome" where
  "cbb_add_ucs2_be env d u s =
     (if u \<le> 0xffff \<and> is_valid_code_point u then CBB_add_u16 env d (ucast u) s else (None, s))"

definition cbb_add_utf32_be :: "mem_env \<Rightarrow> nat \<Rightarrow> u32 \<Rightarrow> cbb_state \<Rightarrow> (unit, cbb_state) outcome" where
  "cbb_add_utf32_be env d u s = (if is_valid_code_point u then CBB_add_u32 env d u s else (None, s))"

section \<open>Bit patterns as numbers\<close>

lemma bits_values:
  "TOP_BITS 1 = 128" "TOP_BITS 2 = 192" "TOP_BITS 3 = 224" "TOP_BITS 4 = 240" "TOP_BITS 5 = 248"
  "BOTTOM_BITS 3 = 7" "BOTTOM_BITS 4 = 15" "BOTTOM_BITS 5 = 31" "BOTTOM_BITS 6 = 63"
  by (simp_all add: TOP_BITS_def BOTTOM_BITS_def)

lemma and_top:
  assumes "k < 8" and "m AND mask k = 0"
  shows "(b :: u8) AND NOT (mask k) = m \<longleftrightarrow> unat b div 2 ^ k = unat m div 2 ^ k"
proof -
  have "b AND NOT (mask k) = m \<longleftrightarrow> drop_bit k b = drop_bit k m"
  proof
    assume "b AND NOT (mask k) = m"
    then have "drop_bit k m = drop_bit k (b AND NOT (mask k))" by simp
    then show "drop_bit k b = drop_bit k m" by (auto simp: bit_eq_iff bit_simps dest: bit_imp_le_length)
  next
    assume eq: "drop_bit k b = drop_bit k m"
    show "b AND NOT (mask k) = m"
    proof (rule bit_word_eqI)
      fix n assume "n < LENGTH(8)"
      have "bit (drop_bit k b) (n - k) = bit (drop_bit k m) (n - k)" by (simp add: eq)
      moreover have "\<not> (bit m n \<and> n < k)" using arg_cong [OF assms(2), of "\<lambda>x. bit x n"] \<open>n < LENGTH(8)\<close>
        by (auto simp: bit_simps)
      ultimately show "bit (b AND NOT (mask k)) n = bit m n"
        using \<open>n < LENGTH(8)\<close> by (auto simp: bit_simps)
    qed
  qed
  also have "\<dots> \<longleftrightarrow> unat b div 2 ^ k = unat m div 2 ^ k" by (simp add: word_unat_eq_iff unat_drop)
  finally show ?thesis .
qed

lemma top_bits_iff:
  "(b AND TOP_BITS 2 = TOP_BITS 1) = (unat b div 64 = 2)"
  "(b AND TOP_BITS 3 = TOP_BITS 2) = (unat b div 32 = 6)"
  "(b AND TOP_BITS 4 = TOP_BITS 3) = (unat b div 16 = 14)"
  "(b AND TOP_BITS 5 = TOP_BITS 4) = (unat b div 8 = 30)"
proof -
  have m: "NOT (mask 6) = (192 :: u8)" "NOT (mask 5) = (224 :: u8)" "NOT (mask 4) = (240 :: u8)" "NOT (mask 3) = (248 :: u8)"
    by (simp_all add: mask_eq_exp_minus_1)
  have z: "(128 :: u8) AND mask 6 = 0" "(192 :: u8) AND mask 5 = 0" "(224 :: u8) AND mask 4 = 0" "(240 :: u8) AND mask 3 = 0"
    by (simp_all add: mask_eq_exp_minus_1)
  show "(b AND TOP_BITS 2 = TOP_BITS 1) = (unat b div 64 = 2)"
    using and_top [OF _ z(1), of b] unfolding m bits_values by simp
  show "(b AND TOP_BITS 3 = TOP_BITS 2) = (unat b div 32 = 6)"
    using and_top [OF _ z(2), of b] unfolding m bits_values by simp
  show "(b AND TOP_BITS 4 = TOP_BITS 3) = (unat b div 16 = 14)"
    using and_top [OF _ z(3), of b] unfolding m bits_values by simp
  show "(b AND TOP_BITS 5 = TOP_BITS 4) = (unat b div 8 = 30)"
    using and_top [OF _ z(4), of b] unfolding m bits_values by simp
qed

lemmas top_bits = top_bits_iff top_bits_iff(1) [unfolded One_nat_def]

lemma bottom_bits:
  "unat (b AND BOTTOM_BITS 3) = unat b mod 8" "unat (b AND BOTTOM_BITS 4) = unat b mod 16"
  "unat (b AND BOTTOM_BITS 5) = unat b mod 32" "unat (b AND BOTTOM_BITS 6) = unat b mod 64"
  using unat_take [of 3 b] unat_take [of 4 b] unat_take [of 5 b] unat_take [of 6 b]
  by (simp_all add: bits_values mask_eq_exp_minus_1 flip: take_mask)

section \<open>The encoding\<close>

definition utf8 :: "nat \<Rightarrow> bytes" where
  "utf8 n =
     (if n < 128 then [of_nat n]
      else if n < 2048 then map of_nat [192 + n div 64, 128 + n mod 64]
      else if n < 65536 then map of_nat [224 + n div 4096, 128 + n div 64 mod 64, 128 + n mod 64]
      else map of_nat [240 + n div 262144, 128 + n div 4096 mod 64, 128 + n div 64 mod 64, 128 + n mod 64])"

text \<open>The continuation bytes: a string of bytes \<open>10xxxxxx\<close> and the number it adds up to.\<close>

definition is_tail :: "u8 \<Rightarrow> bool" where
  "is_tail b = (unat b div 64 = 2)"

fun tail_val :: "nat \<Rightarrow> bytes \<Rightarrow> nat" where
  "tail_val n [] = n"
| "tail_val n (b # bs) = tail_val (n * 64 + unat b mod 64) bs"

lemma tail_step:
  assumes "unat v * 64 + unat b mod 64 < 2 ^ 32"
  shows "unat (push_bit 6 v OR ucast (b AND BOTTOM_BITS 6) :: u32) = unat v * 64 + unat (b :: u8) mod 64"
proof -
  have u: "unat (ucast (b AND BOTTOM_BITS 6) :: u32) = unat b mod 64" by (simp add: unat_ucast_up bottom_bits)
  then show ?thesis using assms by (subst unat_push_or) (simp_all add: u)
qed

lemma tail_val_grows: "n * 64 ^ length bs \<le> tail_val n bs"
proof (induction bs arbitrary: n)
  case (Cons b bs)
  have "n * 64 ^ length (b # bs) \<le> (n * 64 + unat b mod 64) * 64 ^ length bs" by (simp add: algebra_simps)
  also have "\<dots> \<le> tail_val n (b # bs)" using Cons.IH [of "n * 64 + unat b mod 64"] by simp
  finally show ?case .
qed simp

lemma utf8_tail_sound:
  assumes "utf8_tail c v n = (Some w, c')" and "wf_cbs c" and "unat v < 64" and "n \<le> 3"
  shows "\<exists>bs. length bs = n \<and> (\<forall>b \<in> set bs. is_tail b) \<and> c' = advance c n \<and> cbs_bytes c = bs @ cbs_bytes c' \<and>
    unat w = tail_val (unat v) bs"
proof -
  have "\<exists>bs. length bs = n \<and> (\<forall>b \<in> set bs. is_tail b) \<and> c' = advance c n \<and> cbs_bytes c = bs @ cbs_bytes c' \<and>
    unat w = tail_val (unat v) bs" if "unat v < 64 ^ (4 - n)" using assms(1,2,4) that
  proof (induction n arbitrary: c v)
    case (Suc n)
    let ?b = "cbs_bytes c ! 0" and ?v = "push_bit 6 v OR ucast (cbs_bytes c ! 0 AND BOTTOM_BITS 6) :: u32"
    have len: "0 < cbs_len c" and t: "is_tail ?b" and r: "utf8_tail (advance c 1) ?v n = (Some w, c')"
      using Suc.prems(1) by (auto simp: CBS_get_u8_advance and_then_Some top_bits is_tail_def nth_data split: if_splits)
    have "(64 :: nat) ^ (4 - n) = 64 * 64 ^ (4 - Suc n)" using Suc.prems(3) by (simp add: Suc_diff_le flip: power_Suc)
    moreover have "unat v * 64 + unat ?b mod 64 < (unat v + 1) * 64" by simp
    moreover have "(unat v + 1) * 64 \<le> 64 ^ (4 - Suc n) * 64" using Suc.prems(4) by (intro mult_right_mono) simp_all
    ultimately have lim: "unat v * 64 + unat ?b mod 64 < 64 ^ (4 - n)" by linarith
    have "(64 :: nat) ^ (4 - n) \<le> 64 ^ 4" by (intro power_increasing) simp_all
    with lim have u: "unat ?v = unat v * 64 + unat ?b mod 64" by (intro tail_step) simp
    obtain bs where "length bs = n" "\<forall>b \<in> set bs. is_tail b" "c' = advance c (1 + n)"
      "cbs_bytes (advance c 1) = bs @ cbs_bytes c'" "unat w = tail_val (unat ?v) bs"
      using Suc.IH [OF r] Suc.prems(2,3) lim u by auto
    then show ?case using t u first_byte [OF Suc.prems(2) len]
      by (intro exI [of _ "?b # bs"]) simp
  qed simp
  moreover have "unat v < 64 ^ (4 - n)"
  proof -
    have "(64 :: nat) ^ 1 \<le> 64 ^ (4 - n)" using assms(4) by (intro power_increasing) simp_all
    then show ?thesis using assms(3) by simp
  qed
  ultimately show ?thesis by blast
qed

lemma utf8_tail_complete:
  assumes "wf_cbs c" and "cbs_bytes c = bs @ rest" and "\<forall>b \<in> set bs. is_tail b" and "tail_val (unat v) bs < 2 ^ 32"
  shows "\<exists>w. utf8_tail c v (length bs) = (Some w, advance c (length bs)) \<and> unat w = tail_val (unat v) bs"
  using assms
proof (induction bs arbitrary: c v)
  case (Cons b bs)
  let ?v = "push_bit 6 v OR ucast (b AND BOTTOM_BITS 6) :: u32"
  have len: "0 < cbs_len c" using Cons.prems(1,2) length_cbs_bytes [of c] by simp
  then have b: "cbs_data c ! 0 = b" using Cons.prems(2) by (simp add: nth_data)
  have "unat v * 64 + unat b mod 64 \<le> (unat v * 64 + unat b mod 64) * 64 ^ length bs" by simp
  also have "\<dots> \<le> tail_val (unat v) (b # bs)" using tail_val_grows [of "unat v * 64 + unat b mod 64" bs] by simp
  finally have u: "unat ?v = unat v * 64 + unat b mod 64" using Cons.prems(4) by (intro tail_step) simp
  have "utf8_tail c v (length (b # bs)) = utf8_tail (advance c 1) ?v (length bs)"
    using len b Cons.prems(3) by (simp add: CBS_get_u8_advance top_bits is_tail_def)
  with Cons.IH [of "advance c 1" ?v] Cons.prems u show ?case by auto
qed simp

section \<open>Unicode characters\<close>

text \<open>
  The code points that may stand for a character, on numbers, as the Unicode standard states it: up
  to 10FFFF, no surrogate, and none of the noncharacters, which are the last two code points of each
  plane and the 32 from FDD0 on.
\<close>

definition surrogate :: "nat \<Rightarrow> bool" where
  "surrogate n \<longleftrightarrow> 0xd800 \<le> n \<and> n < 0xe000"

definition noncharacter :: "nat \<Rightarrow> bool" where
  "noncharacter n \<longleftrightarrow> n mod 0x10000 = 0xfffe \<or> n mod 0x10000 = 0xffff \<or> 0xfdd0 \<le> n \<and> n < 0xfdf0"

definition unicode_character :: "nat \<Rightarrow> bool" where
  "unicode_character n \<longleftrightarrow> n < 0x110000 \<and> \<not> surrogate n \<and> \<not> noncharacter n"

lemma and_middle_bits: "(v :: u32) AND push_bit k (mask n) = push_bit k (drop_bit k (take_bit (k + n) v))"
  by (rule bit_word_eqI) (auto simp: bit_simps)

lemma low_bits_fffe: "((v :: u32) AND 0xfffe) = 0xfffe \<longleftrightarrow> unat v mod 0x10000 = 0xfffe \<or> unat v mod 0x10000 = 0xffff"
proof -
  have "push_bit 1 (mask 15) = (0xfffe :: u32)" by (simp add: mask_eq_exp_minus_1)
  then have "v AND 0xfffe = push_bit 1 (drop_bit 1 (take_bit 16 v))" using and_middle_bits [of v 1 15] by simp
  moreover have "unat (push_bit 1 w) = unat w * 2" if "unat w < 2 ^ 31" for w :: u32
    using that by (subst unsigned_push_bit_eq) (simp add: take_bit_eq_mod)
  moreover have "unat (drop_bit 1 (take_bit 16 v)) = unat v mod 65536 div 2" by (simp add: unat_drop unat_take)
  moreover have "unat v mod 65536 div 2 < 2 ^ 31"
    by (rule le_less_trans [OF div_le_dividend]) (rule less_trans [OF mod_less_divisor], simp_all)
  ultimately have "unat (v AND 0xfffe) = unat v mod 65536 div 2 * 2" by metis
  then have "v AND 0xfffe = 0xfffe \<longleftrightarrow> unat v mod 65536 div 2 * 2 = 0xfffe" by (simp add: word_unat_eq_iff)
  moreover have "x div 2 * 2 = 65534 \<longleftrightarrow> x = 65534 \<or> x = 65535" for x :: nat by presburger
  ultimately show ?thesis by simp
qed

lemma is_valid_code_point_iff: "is_valid_code_point v \<longleftrightarrow> unicode_character (unat v)"
  unfolding is_valid_code_point_def low_bits_fffe unicode_character_def surrogate_def noncharacter_def
  by (auto simp: word_less_nat_alt word_le_nat_alt)

section \<open>Reading\<close>

text \<open>The first byte of a longer sequence: its payload, the number of bytes to come, the smallest value.\<close>

definition utf8_lead :: "u8 \<Rightarrow> (u32 \<times> nat \<times> nat) option" where
  "utf8_lead b =
     (if unat b div 32 = 6 then Some (of_nat (unat b mod 32), 1, 0x80)
      else if unat b div 16 = 14 then Some (of_nat (unat b mod 16), 2, 0x800)
      else if unat b div 8 = 30 then Some (of_nat (unat b mod 8), 3, 0x10000)
      else None)"

lemma cbs_get_utf8_eq:
  "cbs_get_utf8 c =
     (if cbs_len c = 0 then (None, c)
      else let b = cbs_data c ! 0 in
        if unat b < 128 then (Some (ucast b), advance c 1)
        else case utf8_lead b of
          None \<Rightarrow> (None, advance c 1)
        | Some (v, n, lower) \<Rightarrow>
            and_then (utf8_tail (advance c 1) v n) (\<lambda>v c.
              if \<not> is_valid_code_point v \<or> unat v < lower then (None, c) else (Some v, c)))"
proof -
  have e: "ucast (b AND BOTTOM_BITS 5) = (of_nat (unat b mod 32) :: u32)"
    "ucast (b AND BOTTOM_BITS 4) = (of_nat (unat b mod 16) :: u32)"
    "ucast (b AND BOTTOM_BITS 3) = (of_nat (unat b mod 8) :: u32)" for b
    by (simp_all only: bottom_bits [symmetric] of_nat_unat)
  have l: "b \<le> 0x7f \<longleftrightarrow> unat b < 128" for b :: u8 by (auto simp: word_le_nat_alt)
  have lt: "v < 0x80 \<longleftrightarrow> unat v < 0x80" "v < 0x800 \<longleftrightarrow> unat v < 0x800" "v < 0x10000 \<longleftrightarrow> unat v < 0x10000" for v :: u32
    by (simp_all add: word_less_nat_alt)
  show ?thesis
    unfolding cbs_get_utf8_def CBS_get_u8_advance utf8_lead_def Let_def l e top_bits_iff
    by (simp add: lt)
qed

lemma valid_le: "is_valid_code_point v \<Longrightarrow> unat v \<le> 0x10ffff"
  by (simp add: is_valid_code_point_def word_less_nat_alt)

lemma ascii_valid: "unat v < 128 \<Longrightarrow> is_valid_code_point v"
  by (simp add: is_valid_code_point_iff unicode_character_def surrogate_def noncharacter_def)

lemma byte_parts: "unat b div k = q \<Longrightarrow> of_nat (q * k + unat b mod k) = (b :: u8)"
  by (metis div_mult_mod_eq of_nat_unat ucast_id)

lemma digit64: "a < m \<Longrightarrow> b < 64 \<Longrightarrow> a * 64 + b < m * (64 :: nat)"
  by (simp add: mult.commute)

lemma digit64_parts: "b < 64 \<Longrightarrow> (a * 64 + b) div 64 = (a :: nat)" "b < 64 \<Longrightarrow> (a * 64 + b) mod 64 = b"
  by simp_all

text \<open>The encoding of a number given by its payload digits.\<close>

lemma utf8_two: "a < 32 \<Longrightarrow> b < 64 \<Longrightarrow> 128 \<le> a * 64 + b \<Longrightarrow> utf8 (a * 64 + b) = map of_nat [192 + a, 128 + b]"
  using digit64 [of a 32 b] by (simp add: utf8_def digit64_parts)

lemma utf8_three:
  assumes "a < 16" and "b < 64" and "c < 64" and "2048 \<le> (a * 64 + b) * 64 + c"
  shows "utf8 ((a * 64 + b) * 64 + c) = map of_nat [224 + a, 128 + b, 128 + c]"
proof -
  let ?w = "(a * 64 + b) * 64 + c"
  have "?w < 65536" using digit64 [OF digit64 [OF assms(1,2)] assms(3)] by simp
  moreover have "?w div 64 = a * 64 + b" "?w mod 64 = c" using assms(3) by (rule digit64_parts)+
  moreover have "?w div (64 * 64) = a" using assms by (simp only: div_mult2_eq digit64_parts)
  ultimately show ?thesis using assms(2,4) by (simp add: utf8_def digit64_parts del: div_mult_self3 mod_mult_self3)
qed

lemma utf8_four:
  assumes "b < 64" and "c < 64" and "d < 64" and "65536 \<le> ((a * 64 + b) * 64 + c) * 64 + d"
  shows "utf8 (((a * 64 + b) * 64 + c) * 64 + d) = map of_nat [240 + a, 128 + b, 128 + c, 128 + d]"
proof -
  let ?w = "((a * 64 + b) * 64 + c) * 64 + d"
  have "?w div 64 = (a * 64 + b) * 64 + c" "?w mod 64 = d" using assms(3) by (rule digit64_parts)+
  moreover have "?w div (64 * 64) = a * 64 + b" using assms by (simp only: div_mult2_eq digit64_parts)
  moreover have "?w div (64 * 64 * 64) = a" using assms by (simp only: div_mult2_eq digit64_parts)
  ultimately show ?thesis using assms(1,2,4) digit64_parts(2) [OF assms(2), of "a * 64 + b"]
    by (simp add: utf8_def digit64_parts)
qed

text \<open>The bytes read are the encoding of the value, when it is not too small for their number.\<close>

lemma utf8_of_parts:
  assumes "utf8_lead b = Some (v, n, lower)" and "length bs = n" and "\<forall>b \<in> set bs. is_tail b"
    and "lower \<le> tail_val (unat v) bs"
  shows "utf8 (tail_val (unat v) bs) = b # bs"
proof -
  have t: "of_nat (128 + unat x mod 64) = x" if "is_tail x" for x
    using byte_parts [of x 64 2] that by (simp add: is_tail_def)
  have u: "unat (of_nat (unat b mod k) :: u32) = unat b mod k" for k
    by (rule unat_of_nat_less, rule le_less_trans [OF mod_less_eq_dividend], rule less_trans [OF unat_u8_less]) simp
  consider (2) "unat b div 32 = 6" "v = of_nat (unat b mod 32)" "n = 1" "lower = 0x80"
    | (3) "unat b div 16 = 14" "v = of_nat (unat b mod 16)" "n = 2" "lower = 0x800"
    | (4) "unat b div 8 = 30" "v = of_nat (unat b mod 8)" "n = 3" "lower = 0x10000"
    using assms(1) by (auto simp: utf8_lead_def split: if_splits)
  then show ?thesis
  proof cases
    case 2
    obtain x where bs: "bs = [x]" using assms(2) 2(3) by (auto simp: length_Suc_conv)
    have "utf8 (tail_val (unat v) bs) = map of_nat [192 + unat b mod 32, 128 + unat x mod 64]"
      using assms(4) unfolding bs tail_val.simps 2(2,4) u by (intro utf8_two) simp_all
    then show ?thesis using t [of x] assms(3) byte_parts [OF 2(1)] by (simp add: bs)
  next
    case 3
    obtain x y where bs: "bs = [x, y]" using assms(2) 3(3) by (auto simp: length_Suc_conv numeral_2_eq_2)
    have "utf8 (tail_val (unat v) bs) = map of_nat [224 + unat b mod 16, 128 + unat x mod 64, 128 + unat y mod 64]"
      using assms(4) unfolding bs tail_val.simps 3(2,4) u by (intro utf8_three) simp_all
    then show ?thesis using t [of x] t [of y] assms(3) byte_parts [OF 3(1)] by (simp add: bs)
  next
    case 4
    obtain x y z where bs: "bs = [x, y, z]" using assms(2) 4(3) by (auto simp: length_Suc_conv numeral_3_eq_3)
    have "utf8 (tail_val (unat v) bs) =
      map of_nat [240 + unat b mod 8, 128 + unat x mod 64, 128 + unat y mod 64, 128 + unat z mod 64]"
      using assms(4) unfolding bs tail_val.simps 4(2,4) u by (intro utf8_four) simp_all
    then show ?thesis using t [of x] t [of y] t [of z] assms(3) byte_parts [OF 4(1)] by (simp add: bs)
  qed
qed

lemma of_nat_byte: "n < 256 \<Longrightarrow> unat (of_nat n :: u8) = n"
  by (rule unat_of_nat_less) simp

lemma lead_bytes:
  "a < 32 \<Longrightarrow> utf8_lead (of_nat (192 + a)) = Some (of_nat a, 1, 0x80)"
  "a < 16 \<Longrightarrow> utf8_lead (of_nat (224 + a)) = Some (of_nat a, 2, 0x800)"
  "a < 8 \<Longrightarrow> utf8_lead (of_nat (240 + a)) = Some (of_nat a, 3, 0x10000)"
proof -
  have d: "(n * k + a) div k = n" "(n * k + a) mod k = a" if "a < k" for n k a :: nat using that by simp_all
  show "a < 32 \<Longrightarrow> utf8_lead (of_nat (192 + a)) = Some (of_nat a, 1, 0x80)"
    using d [of a 32 6] by (simp add: utf8_lead_def of_nat_byte del: of_nat_add)
  show "a < 16 \<Longrightarrow> utf8_lead (of_nat (224 + a)) = Some (of_nat a, 2, 0x800)"
    using d [of a 16 14] d(1) [of "a" 32 7] by (simp add: utf8_lead_def of_nat_byte del: of_nat_add)
  show "a < 8 \<Longrightarrow> utf8_lead (of_nat (240 + a)) = Some (of_nat a, 3, 0x10000)"
    using d [of a 8 30] d(1) [of a 16 15] d(1) [of "16 + a" 32 7] d(1) [of a 32 7]
    by (simp add: utf8_lead_def of_nat_byte del: of_nat_add)
qed

lemma tail_byte: "b < 64 \<Longrightarrow> is_tail (of_nat (128 + b)) \<and> unat (of_nat (128 + b) :: u8) mod 64 = b"
proof -
  assume b: "b < 64"
  with digit64_parts [of b 2] have "(128 + b) div 64 = 2" "(128 + b) mod 64 = b" by simp_all
  then show ?thesis using b by (simp add: is_tail_def of_nat_byte del: of_nat_add)
qed

lemma utf8_shape:
  assumes "128 \<le> n" and "n \<le> 0x10ffff"
  shows "\<exists>b v k lower bs. utf8 n = b # bs \<and> 128 \<le> unat b \<and> utf8_lead b = Some (v, k, lower) \<and> length bs = k \<and>
    (\<forall>b \<in> set bs. is_tail b) \<and> tail_val (unat v) bs = n \<and> lower \<le> n" (is "?P n")
proof -
  have u: "unat (of_nat a :: u32) = a" if "a < 64" for a using that by (intro unat_of_nat_less) simp
  have two: "?P (a * 64 + b)" if "a < 32" "b < 64" "128 \<le> a * 64 + b" for a b
    using that utf8_two [OF that] lead_bytes(1) [OF that(1)] tail_byte [OF that(2)] u [of a] of_nat_byte [of "192 + a"]
    by (intro exI [of _ "of_nat (192 + a)"] exI [of _ "of_nat a"] exI [of _ 1] exI [of _ "0x80"] exI [of _ "[of_nat (128 + b)]"])
      (simp del: of_nat_add)
  have three: "?P ((a * 64 + b) * 64 + c)" if "a < 16" "b < 64" "c < 64" "2048 \<le> (a * 64 + b) * 64 + c" for a b c
    using that utf8_three [OF that] lead_bytes(2) [OF that(1)] tail_byte [OF that(2)] tail_byte [OF that(3)] u [of a]
      of_nat_byte [of "224 + a"]
    by (intro exI [of _ "of_nat (224 + a)"] exI [of _ "of_nat a"] exI [of _ 2] exI [of _ "0x800"]
        exI [of _ "[of_nat (128 + b), of_nat (128 + c)]"]) (simp del: of_nat_add)
  have four: "?P (((a * 64 + b) * 64 + c) * 64 + d)"
    if "a < 8" "b < 64" "c < 64" "d < 64" "65536 \<le> ((a * 64 + b) * 64 + c) * 64 + d" for a b c d
    using that utf8_four [OF that(2-5)] lead_bytes(3) [OF that(1)] tail_byte [OF that(2)] tail_byte [OF that(3)]
      tail_byte [OF that(4)] u [of a] of_nat_byte [of "240 + a"]
    by (intro exI [of _ "of_nat (240 + a)"] exI [of _ "of_nat a"] exI [of _ 3] exI [of _ "0x10000"]
        exI [of _ "[of_nat (128 + b), of_nat (128 + c), of_nat (128 + d)]"]) (simp del: of_nat_add)
  define q where "q = n div 64"
  define r where "r = q div 64"
  define t where "t = r div 64"
  have n: "n = q * 64 + n mod 64" "q = r * 64 + q mod 64" "r = t * 64 + r mod 64" by (simp_all add: q_def r_def t_def)
  have lim: "x div 64 < m" if "x < m * 64" for x m :: nat using that by (simp add: div_less_iff_less_mult)
  have m: "x mod 64 < 64" for x :: nat by simp
  consider (2) "n < 32 * 64" | (3) "2048 \<le> n" "n < 16 * 64 * 64" | (4) "65536 \<le> n" "n < 8 * 64 * 64 * 64"
    using assms(2) by linarith
  then show ?thesis
  proof cases
    case 2
    then have "q < 32" unfolding q_def by (rule lim)
    from two [OF this m [of n]] show ?thesis unfolding n(1) [symmetric] using assms(1) by blast
  next
    case 3
    from 3(2) have "r < 16" unfolding r_def q_def by (intro lim)
    from three [OF this m [of q] m [of n]] show ?thesis unfolding n(2) [symmetric] n(1) [symmetric] using 3(1) by blast
  next
    case 4
    from 4(2) have "t < 8" unfolding t_def r_def q_def by (intro lim)
    from four [OF this m [of r] m [of q] m [of n]] show ?thesis
      unfolding n(3) [symmetric] n(2) [symmetric] n(1) [symmetric] using 4(1) by blast
  qed
qed

lemma cbs_get_utf8_complete:
  assumes "wf_cbs c" and "is_valid_code_point v" and "cbs_bytes c = utf8 (unat v) @ rest"
  shows "cbs_get_utf8 c = (Some v, advance c (length (utf8 (unat v))))"
proof (cases "unat v < 128")
  case True
  have b: "cbs_data c ! 0 = of_nat (unat v)" "0 < cbs_len c"
    using assms(1,3) True nth_data [of 0 c] length_cbs_bytes [of c] by (simp_all add: utf8_def)
  have "unat (of_nat (unat v) :: u8) = unat v" using True by (intro of_nat_byte) simp
  moreover have "ucast (of_nat (unat v) :: u8) = v"
    using calculation by (simp add: word_unat_eq_iff unat_ucast_up)
  ultimately show ?thesis using True b by (simp add: cbs_get_utf8_eq utf8_def Let_def)
next
  case False
  then obtain b v0 k lower bs where e: "utf8 (unat v) = b # bs" "128 \<le> unat b" "utf8_lead b = Some (v0, k, lower)"
    "length bs = k" "\<forall>b \<in> set bs. is_tail b" "tail_val (unat v0) bs = unat v" "lower \<le> unat v"
    using utf8_shape [of "unat v"] valid_le [OF assms(2)] by auto
  have b: "0 < cbs_len c" using assms(1,3) length_cbs_bytes [of c] by (simp add: e)
  then have "cbs_data c ! 0 = b" using assms(3) nth_data [of 0 c] by (simp add: e)
  note b0 = this
  have "wf_cbs (advance c 1)" "cbs_bytes (advance c 1) = bs @ rest" using assms(1,3) b by (simp_all add: e)
  moreover have "unat v < 2 ^ 32" by (rule order.strict_trans1 [OF valid_le [OF assms(2)]]) simp
  ultimately have "unat v < 2 ^ 32 \<and> wf_cbs (advance c 1) \<and> cbs_bytes (advance c 1) = bs @ rest" by simp
  with utf8_tail_complete [of "advance c 1" bs rest v0] e(5) have "utf8_tail (advance c 1) v0 k = (Some v, advance (advance c 1) k)"
    unfolding e(6) using e(4) by (auto simp: word_unat_eq_iff [symmetric])
  then show ?thesis using b b0 e assms(2) by (simp add: cbs_get_utf8_eq)
qed

lemma utf8_lead_small: "utf8_lead b = Some (v, k, lower) \<Longrightarrow> unat v < 64 \<and> k \<le> 3"
proof -
  have u: "unat (of_nat (unat b mod m) :: u32) < 64" if "m \<le> 32" "0 < m" for m
  proof -
    have "unat b mod m < 64" using that mod_less_divisor [of m "unat b"] by linarith
    then show ?thesis by (subst unat_of_nat_less) simp_all
  qed
  show "utf8_lead b = Some (v, k, lower) \<Longrightarrow> unat v < 64 \<and> k \<le> 3"
    using u [of 32] u [of 16] u [of 8] by (auto simp: utf8_lead_def split: if_splits)
qed

lemma cbs_get_utf8_sound:
  assumes "wf_cbs c" and "cbs_get_utf8 c = (Some v, c')"
  shows "is_valid_code_point v \<and> c' = advance c (length (utf8 (unat v))) \<and> (\<exists>rest. cbs_bytes c = utf8 (unat v) @ rest)"
proof -
  let ?b = "cbs_data c ! 0"
  have len: "0 < cbs_len c" using assms(2) by (simp add: cbs_get_utf8_eq split: if_splits)
  note bytes = first_byte [OF assms(1) len]
  have nd: "cbs_bytes c ! 0 = ?b" using len by (simp add: nth_data)
  show ?thesis
  proof (cases "unat ?b < 128")
    case True
    then have v: "v = ucast ?b" "c' = advance c 1" using assms(2) len by (simp_all add: cbs_get_utf8_eq Let_def)
    then have "unat v = unat ?b" by (simp add: unat_ucast_up)
    moreover from this have "utf8 (unat v) = [?b]" using True by (simp add: utf8_def)
    ultimately show ?thesis using v(2) bytes nd True ascii_valid [of v] by auto
  next
    case False
    then obtain v0 k lower where l: "utf8_lead ?b = Some (v0, k, lower)"
      and t: "utf8_tail (advance c 1) v0 k = (Some v, c')" and v: "is_valid_code_point v" "lower \<le> unat v"
      using assms(2) len by (auto simp: cbs_get_utf8_eq Let_def and_then_Some split: option.splits if_splits)
    have "wf_cbs (advance c 1)" using assms(1) len by simp
    from utf8_tail_sound [OF t this] utf8_lead_small [OF l] obtain bs where bs: "length bs = k" "\<forall>b \<in> set bs. is_tail b"
      "c' = advance (advance c 1) k" "cbs_bytes (advance c 1) = bs @ cbs_bytes c'" "unat v = tail_val (unat v0) bs" by auto
    have "utf8 (unat v) = ?b # bs" using utf8_of_parts [OF l bs(1,2)] v(2) bs(5) by simp
    then show ?thesis using v(1) bs bytes nd by auto
  qed
qed

interpretation utf8: codec cbs_get_utf8 "\<lambda>v. utf8 (unat v)" is_valid_code_point
  by unfold_locales (rule cbs_get_utf8_complete cbs_get_utf8_sound; assumption)+


section \<open>Writing\<close>

lemma or_byte:
  assumes "unat (x :: u8) = m" and "m < 2 ^ k" and "unat p * 2 ^ k + m < 256"
  shows "push_bit k p OR x = of_nat (unat p * 2 ^ k + m)"
proof -
  have "unat (push_bit k p OR x) = unat p * 2 ^ k + m"
    using assms by (subst unat_push_or) simp_all
  then show ?thesis by (metis of_nat_unat ucast_id)
qed

lemma lead_writes:
  "m < 32 \<Longrightarrow> unat (x :: u8) = m \<Longrightarrow> TOP_BITS 2 OR x = of_nat (192 + m)"
  "m < 16 \<Longrightarrow> unat (x :: u8) = m \<Longrightarrow> TOP_BITS 3 OR x = of_nat (224 + m)"
  "m < 8 \<Longrightarrow> unat (x :: u8) = m \<Longrightarrow> TOP_BITS 4 OR x = of_nat (240 + m)"
  using or_byte [of x m 5 6] or_byte [of x m 4 14] or_byte [of x m 3 30] by (simp_all add: bits_values)

lemma tail_write:
  "TOP_BITS 1 OR ucast (w :: u32) AND BOTTOM_BITS 6 = of_nat (128 + unat w mod 64)"
proof -
  have "unat (ucast w :: u8) mod 64 = unat w mod 64"
    by (simp add: unsigned_ucast_eq take_bit_nat_def mod_mod_cancel)
  then have x: "unat (ucast w AND BOTTOM_BITS 6 :: u8) = unat w mod 64" by (simp only: bottom_bits)
  have m: "unat w mod 64 < 64" by simp
  have "push_bit 6 2 OR (ucast w AND BOTTOM_BITS 6) = (of_nat (unat (2 :: u8) * 2 ^ 6 + unat w mod 64) :: u8)"
    by (rule or_byte [OF x]) (use m in simp_all)
  then show ?thesis by (simp add: bits_values bits_values(1) [unfolded One_nat_def])
qed

lemma add_u8s_step:
  "add_u8s env d [b] = CBB_add_u8 env d b"
  "add_u8s env d (b # c # bs) = (\<lambda>s. and_then (CBB_add_u8 env d b s) (\<lambda>_. add_u8s env d (c # bs)))"
proof -
  have "add_u8s env d [] = (\<lambda>s. (Some (), s))" by (rule ext) simp
  then show "add_u8s env d [b] = CBB_add_u8 env d b" by (intro ext) (simp add: and_then_return)
qed (rule ext, simp)

lemma cbb_add_utf8_eq:
  assumes "is_valid_code_point u"
  shows "cbb_add_utf8 env d u s = add_u8s env d (utf8 (unat u)) s"
proof -
  have c: "unat (ucast w :: u8) = unat w" if "unat w < 256" for w :: u32
    using that by (simp add: unsigned_ucast_eq take_bit_nat_def)
  have dr: "unat (drop_bit 6 u) = unat u div 64" "unat (drop_bit 12 u) = unat u div 4096"
    "unat (drop_bit 18 u) = unat u div 262144" by (simp_all add: unat_drop)
  have le: "u \<le> 0x7f \<longleftrightarrow> unat u < 128" "u \<le> 0x7ff \<longleftrightarrow> unat u < 2048" "u \<le> 0xffff \<longleftrightarrow> unat u < 65536"
    "u \<le> 0x10ffff \<longleftrightarrow> unat u < 0x110000" by (auto simp: word_le_nat_alt)
  have lim: "unat u < 0x110000" using valid_le [OF assms] by simp
  have q: "x div k < m" if "x < m * k" for x k m :: nat using that by (simp add: less_mult_imp_div_less)
  consider (1) "unat u < 128" | (2) "128 \<le> unat u" "unat u < 2048" | (3) "2048 \<le> unat u" "unat u < 65536" | (4) "65536 \<le> unat u"
    by linarith
  then show ?thesis
  proof cases
    case 1
    then show ?thesis using assms by (simp add: cbb_add_utf8_def le utf8_def add_u8s_step del: add_u8s.simps)
  next
    case 2
    then have b: "unat u div 64 < 32" by (intro q) simp
    show ?thesis using 2 assms lead_writes(1) [OF b, of "ucast (drop_bit 6 u)"] b c [of "drop_bit 6 u"]
      by (simp add: cbb_add_utf8_def le utf8_def add_u8s_step dr tail_write tail_write [unfolded One_nat_def] del: add_u8s.simps)
  next
    case 3
    then have b: "unat u div 4096 < 16" by (intro q) simp
    show ?thesis using 3 assms lead_writes(2) [OF b, of "ucast (drop_bit 12 u)"] b c [of "drop_bit 12 u"]
      by (simp add: cbb_add_utf8_def le utf8_def add_u8s_step dr tail_write tail_write [unfolded One_nat_def] del: add_u8s.simps)
  next
    case 4
    then have b: "unat u div 262144 < 8" using lim by (intro q) simp
    show ?thesis using 4 lim assms lead_writes(3) [OF b, of "ucast (drop_bit 18 u)"] b c [of "drop_bit 18 u"]
      by (simp add: cbb_add_utf8_def le utf8_def add_u8s_step dr tail_write tail_write [unfolded One_nat_def] del: add_u8s.simps)
  qed
qed

lemma utf8_call:
  "is_valid_code_point u \<Longrightarrow> builder_call (cbb_add_utf8 env d u) (append_option d (Some (utf8 (unat u)))) d"
proof -
  assume v: "is_valid_code_point u"
  then have "cbb_add_utf8 env d u = add_u8s env d (utf8 (unat u))" by (intro ext cbb_add_utf8_eq)
  moreover have "utf8 (unat u) \<noteq> []" by (simp add: utf8_def)
  ultimately show ?thesis using add_u8s_call by simp
qed

lemma utf8_length: "is_valid_code_point u \<Longrightarrow> cbb_get_utf8_len u = length (utf8 (unat u))"
  by (simp add: cbb_get_utf8_len_def utf8_def word_le_nat_alt)

lemma get_u_sound:
  assumes "wf_cbs c" and "cbs_get_u c n = (Some w, c')" and "n \<le> 8"
  shows "c' = advance c n \<and> cbs_bytes c = be_bytes n (unat w) @ cbs_bytes c' \<and> unat w < 256 ^ n"
proof -
  have n: "n \<le> cbs_len c" and w: "w = be_word (take n (cbs_bytes c))" and c': "c' = advance c n"
    using assms(2) by (auto simp: cbs_get_u_eq take_data split: if_splits)
  have l: "length (take n (cbs_bytes c)) = n" using n assms(1) by simp
  have "be_val (take n (cbs_bytes c)) < 256 ^ n" using be_val_less [of "take n (cbs_bytes c)"] l by simp
  moreover have "(256 :: nat) ^ n \<le> 256 ^ 8" using assms(3) by (intro power_increasing) simp_all
  ultimately have u: "unat w = be_val (take n (cbs_bytes c))"
    unfolding w by (subst be_word_of_nat, simp, intro unat_of_nat_less) simp
  then have "be_bytes n (unat w) = take n (cbs_bytes c)" using be_bytes_be_val [of "take n (cbs_bytes c)"] l by simp
  then show ?thesis using c' n u \<open>be_val (take n (cbs_bytes c)) < 256 ^ n\<close> assms(1) by simp
qed

lemma word_codec:
  fixes rd :: "cbs_st \<Rightarrow> ('a::len word, cbs_st) outcome"
  assumes rd: "\<And>c. rd c = and_then (cbs_get_u c n) (\<lambda>w c. (Some (ucast w), c))"
    and len: "LENGTH('a) = 8 * n" and "n \<le> 8"
  shows "codec rd (\<lambda>v. be_bytes n (unat v)) (\<lambda>_. True)"
proof
  have p: "(256 :: nat) ^ n = 2 ^ LENGTH('a)" by (simp add: len power_mult)
  have l: "LENGTH('a) \<le> 64" using len assms(3) by simp
  fix c rest and v :: "'a word" assume a: "wf_cbs c" "cbs_bytes c = be_bytes n (unat v) @ rest"
  have "unat v < 256 ^ n" unfolding p using unsigned_less [of v, where ?'a = nat] by simp
  from get_u_be [OF a assms(3) this] show "rd c = (Some v, advance c (length (be_bytes n (unat v))))"
    by (simp add: rd of_nat_unat ucast_u64_back [OF l])
next
  have p: "(256 :: nat) ^ n = 2 ^ LENGTH('a)" by (simp add: len power_mult)
  fix c v c' assume a: "wf_cbs c" "rd c = (Some v, c')"
  then obtain w where w: "cbs_get_u c n = (Some w, c')" "v = ucast w" by (auto simp: rd and_then_Some)
  note s = get_u_sound [OF a(1) w(1) assms(3)]
  then have "unat v = unat w" by (simp add: w(2) unsigned_ucast_eq take_bit_nat_def p)
  with s have "c' = advance c n" "cbs_bytes c = be_bytes n (unat v) @ cbs_bytes c'" by (simp_all only:)
  then show "True \<and> c' = advance c (length (be_bytes n (unat v))) \<and> (\<exists>rest. cbs_bytes c = be_bytes n (unat v) @ rest)"
    by (simp only: length_be_bytes) blast
qed

interpretation u16: codec CBS_get_u16 "\<lambda>v. be_bytes 2 (unat v)" "\<lambda>_. True"
  by (rule word_codec [OF CBS_get_u16_def]) simp_all

interpretation u32: codec CBS_get_u32 "\<lambda>v. be_bytes 4 (unat v)" "\<lambda>_. True"
  by (rule word_codec [OF CBS_get_u32_def]) simp_all

section \<open>The four forms of a text\<close>

text \<open>
  A reader and a writer of code points for the same encoding. A text in the form is a list of
  valid code points; reading a whole string of the form and writing one are the client's loops.
\<close>

locale text_form = codec rd enc valid
  for rd :: "cbs_st \<Rightarrow> (u32, cbs_st) outcome" and enc :: "u32 \<Rightarrow> bytes" and valid :: "u32 \<Rightarrow> bool" +
  fixes wr :: "mem_env \<Rightarrow> nat \<Rightarrow> u32 \<Rightarrow> cbb_state \<Rightarrow> (unit, cbb_state) outcome"
  assumes writes: "valid u \<Longrightarrow> builder_call (wr env d u) (append_option d (Some (enc u))) d"
    and refuses: "\<not> valid u \<Longrightarrow> wr env d u s = (None, s)"
    and enc_some: "enc u \<noteq> []"
begin

lemma enc_length: "0 < length (enc u)"
  using enc_some by simp

lemma read_shrinks:
  assumes "wf_cbs c" and "rd c = (Some u, c')"
  shows "cbs_len c' < cbs_len c"
proof -
  from assms(2) [unfolded reads_iff [OF assms(1)]] have "cbs_bytes c = enc u @ cbs_bytes c'" "c' = advance c (length (enc u))"
    by blast+
  then have "0 < length (cbs_bytes c)" "cbs_len c' = cbs_len c - length (enc u)" using enc_length [of u] by (metis append_is_Nil_conv length_greater_0_conv, simp)
  then show ?thesis using assms(1) enc_length [of u] by simp
qed

end

lemma uint_call_fits:
  assumes "1 \<le> n" and "n \<le> 8" and "unat v < 256 ^ n"
  shows "builder_call (CBB_add_uint env d v n) (append_option d (Some (be_bytes n (unat v)))) d"
  using uint_call [OF assms(1,2), of env d v] assms(3) by simp

lemma unat_wide: "LENGTH('a::len) \<le> LENGTH('b::len) \<Longrightarrow> unat (ucast (w :: 'a word) :: 'b word) = unat w"
  by (simp add: unat_ucast_up)

lemma unat_narrow: "unat (w :: 'a::len word) < 2 ^ LENGTH('b::len) \<Longrightarrow> unat (ucast w :: 'b word) = unat w"
  by (simp add: unsigned_ucast_eq take_bit_nat_def)

lemma ucast_ucast_small: "unat (w :: u32) < 2 ^ LENGTH('b::len) \<Longrightarrow> LENGTH('b) \<le> 32 \<Longrightarrow> ucast (ucast w :: 'b word) = w"
  by (simp add: word_unat_eq_iff unat_wide unat_narrow)

interpretation latin1: codec cbs_get_latin1 "\<lambda>u. [of_nat (unat u)]" "\<lambda>u. unat u < 256"
proof
  fix c rest and v :: u32 assume a: "wf_cbs c" "unat v < 256" "cbs_bytes c = [of_nat (unat v)] @ rest"
  then have "cbs_data c ! 0 = of_nat (unat v)" "0 < cbs_len c" using nth_data [of 0 c] length_cbs_bytes [of c] by simp_all
  then show "cbs_get_latin1 c = (Some v, advance c (length [of_nat (unat v) :: u8]))"
    using a(2) by (simp add: cbs_get_latin1_def CBS_get_u8_advance ucast_ucast_small)
next
  fix c v c' assume a: "wf_cbs c" "cbs_get_latin1 c = (Some v, c')"
  then have v: "0 < cbs_len c" "v = ucast (cbs_data c ! 0)" "c' = advance c 1"
    by (auto simp: cbs_get_latin1_def CBS_get_u8_advance split: if_splits)
  have u: "unat v = unat (cbs_data c ! 0)" unfolding v(2) by (rule unat_wide) simp
  have "of_nat (unat v) = cbs_data c ! 0" "unat v < 256" using unat_u8_less [of "cbs_data c ! 0"]
    unfolding u by simp_all
  moreover obtain r where "cbs_bytes c = cbs_data c ! 0 # r" using first_byte [OF a(1) v(1)] nth_data [of 0 c] v(1) by metis
  ultimately show "unat v < 256 \<and> c' = advance c (length [of_nat (unat v) :: u8]) \<and> (\<exists>rest. cbs_bytes c = [of_nat (unat v)] @ rest)"
    using v(3) by simp
qed

interpretation ucs2: codec cbs_get_ucs2_be "\<lambda>u. be_bytes 2 (unat u)" "\<lambda>u. unat u < 65536 \<and> is_valid_code_point u"
proof
  fix c rest and v :: u32 assume a: "wf_cbs c" "unat v < 65536 \<and> is_valid_code_point v" "cbs_bytes c = be_bytes 2 (unat v) @ rest"
  then have u: "unat (ucast v :: u16) = unat v" "ucast (ucast v :: u16) = v"
    by (simp_all add: unat_narrow ucast_ucast_small)
  have "CBS_get_u16 c = (Some (ucast v), advance c (length (be_bytes 2 (unat (ucast v :: u16)))))"
    by (rule u16.complete [OF a(1) TrueI]) (simp add: a(3) u del: be_bytes.simps)
  then show "cbs_get_ucs2_be c = (Some v, advance c (length (be_bytes 2 (unat v))))"
    using a(2) by (simp add: cbs_get_ucs2_be_def u)
next
  fix c v c' assume a: "wf_cbs c" "cbs_get_ucs2_be c = (Some v, c')"
  then obtain w where w: "CBS_get_u16 c = (Some w, c')" "v = ucast w" "is_valid_code_point v"
    by (auto simp: cbs_get_ucs2_be_def and_then_Some split: if_splits)
  have "unat v = unat w" by (simp add: w(2) unat_wide)
  moreover have "unat w < 65536" using unsigned_less [of w, where ?'a = nat] by simp
  ultimately show "(unat v < 65536 \<and> is_valid_code_point v) \<and> c' = advance c (length (be_bytes 2 (unat v))) \<and>
      (\<exists>rest. cbs_bytes c = be_bytes 2 (unat v) @ rest)"
    using u16.sound [OF a(1) w(1)] w(3) by simp
qed

interpretation utf32: codec cbs_get_utf32_be "\<lambda>u. be_bytes 4 (unat u)" is_valid_code_point
proof
  fix c rest and v :: u32 assume a: "wf_cbs c" "is_valid_code_point v" "cbs_bytes c = be_bytes 4 (unat v) @ rest"
  from u32.complete [OF a(1) TrueI a(3)] show "cbs_get_utf32_be c = (Some v, advance c (length (be_bytes 4 (unat v))))"
    using a(2) by (simp add: cbs_get_utf32_be_def)
next
  fix c v c' assume a: "wf_cbs c" "cbs_get_utf32_be c = (Some v, c')"
  then have w: "CBS_get_u32 c = (Some v, c')" "is_valid_code_point v"
    by (auto simp: cbs_get_utf32_be_def and_then_Some split: if_splits)
  then show "is_valid_code_point v \<and> c' = advance c (length (be_bytes 4 (unat v))) \<and>
      (\<exists>rest. cbs_bytes c = be_bytes 4 (unat v) @ rest)"
    using u32.sound [OF a(1) w(1)] by simp
qed

interpretation utf8: text_form cbs_get_utf8 "\<lambda>u. utf8 (unat u)" is_valid_code_point cbb_add_utf8
proof (intro text_form.intro text_form_axioms.intro utf8.codec_axioms)
  fix u :: u32 and env d s
  show "is_valid_code_point u \<Longrightarrow> builder_call (cbb_add_utf8 env d u) (append_option d (Some (utf8 (unat u)))) d"
    by (rule utf8_call)
  show "\<not> is_valid_code_point u \<Longrightarrow> cbb_add_utf8 env d u s = (None, s)"
    by (simp add: cbb_add_utf8_def)
  show "utf8 (unat u) \<noteq> []" by (simp add: utf8_def)
qed

interpretation latin1: text_form cbs_get_latin1 "\<lambda>u. [of_nat (unat u)]" "\<lambda>u. unat u < 256" cbb_add_latin1
proof (intro text_form.intro text_form_axioms.intro latin1.codec_axioms)
  fix u :: u32 and env d s
  show "[of_nat (unat u)] \<noteq> ([] :: bytes)" by simp
  have le: "u \<le> 0xff \<longleftrightarrow> unat u < 256" by (auto simp: word_le_nat_alt)
  show "unat u < 256 \<Longrightarrow> builder_call (cbb_add_latin1 env d u) (append_option d (Some [of_nat (unat u)])) d"
    using u8_call [of env d "ucast u"] by (simp add: cbb_add_latin1_def [abs_def] le of_nat_unat)
  show "\<not> unat u < 256 \<Longrightarrow> cbb_add_latin1 env d u s = (None, s)"
    by (simp add: cbb_add_latin1_def le)
qed

interpretation ucs2: text_form cbs_get_ucs2_be "\<lambda>u. be_bytes 2 (unat u)" "\<lambda>u. unat u < 65536 \<and> is_valid_code_point u"
  cbb_add_ucs2_be
proof (intro text_form.intro text_form_axioms.intro ucs2.codec_axioms)
  fix u :: u32 and env d s
  show "be_bytes 2 (unat u) \<noteq> []" by (simp add: numeral_2_eq_2)
  have le: "u \<le> 0xffff \<longleftrightarrow> unat u < 65536" by (auto simp: word_le_nat_alt)
  show "unat u < 65536 \<and> is_valid_code_point u \<Longrightarrow>
      builder_call (cbb_add_ucs2_be env d u) (append_option d (Some (be_bytes 2 (unat u)))) d"
    using uint_call_fits [of 2 "ucast (ucast u :: u16)" env d]
    by (simp add: cbb_add_ucs2_be_def [abs_def] CBB_add_u16_def le unat_wide unat_narrow del: be_bytes.simps)
  show "\<not> (unat u < 65536 \<and> is_valid_code_point u) \<Longrightarrow> cbb_add_ucs2_be env d u s = (None, s)"
    by (auto simp: cbb_add_ucs2_be_def le)
qed

interpretation utf32: text_form cbs_get_utf32_be "\<lambda>u. be_bytes 4 (unat u)" is_valid_code_point cbb_add_utf32_be
proof (intro text_form.intro text_form_axioms.intro utf32.codec_axioms)
  fix u :: u32 and env d s
  show "be_bytes 4 (unat u) \<noteq> []" by (metis length_be_bytes list.size(3) zero_neq_numeral)
  have "unat u < 256 ^ 4" for u :: u32 using unsigned_less [of u, where ?'a = nat] by simp
  then show "is_valid_code_point u \<Longrightarrow>
      builder_call (cbb_add_utf32_be env d u) (append_option d (Some (be_bytes 4 (unat u)))) d"
    using uint_call_fits [of 4 "ucast u" env d]
    by (simp add: cbb_add_utf32_be_def [abs_def] CBB_add_u32_def unat_wide del: be_bytes.simps)
  show "\<not> is_valid_code_point u \<Longrightarrow> cbb_add_utf32_be env d u s = (None, s)"
    by (simp add: cbb_add_utf32_be_def)
qed

section \<open>Properties\<close>

text \<open>C26: the UTF-8 reader is strict. It succeeds exactly on a string that begins with the encoding
  of RFC 3629 of a Unicode character (a number up to 10FFFF that is neither a surrogate, D800 to DFFF,
  nor a noncharacter, FDD0 to FDEF or ending in FFFE or FFFF), so it rejects overlong forms, surrogates,
  noncharacters, stray continuation bytes and truncated sequences, and it consumes as many bytes as
  \<open>cbb_get_utf8_len\<close> computes.\<close>

theorem utf8_reader_strict:
  assumes "wf_cbs c"
  shows "cbs_get_utf8 c = (Some v, c') \<longleftrightarrow>
    unicode_character (unat v) \<and> cbs_bytes c = utf8 (unat v) @ cbs_bytes c' \<and> c' = advance c (cbb_get_utf8_len v)"
  unfolding utf8.reads_iff [OF assms] is_valid_code_point_iff [symmetric] using utf8_length [of v] by (metis (no_types))

theorem utf8_reader_strict_witness:
  "cbs_get_utf8 (CBS_init [0xe2, 0x82, 0xac, 0x21] 4) = (Some 0x20ac, CBS_init [0x21] 1) \<and>
   cbs_get_utf8 (CBS_init [0xc0, 0x80] 2) \<noteq> (Some 0, CBS_init [] 0)"
proof -
  have w: "wf_cbs (CBS_init [0xe2, 0x82, 0xac, 0x21] 4)" "wf_cbs (CBS_init [0xc0, 0x80] 2)" by code_simp+
  have a: "unicode_character (unat (0x20ac :: u32)) \<and>
      cbs_bytes (CBS_init [0xe2, 0x82, 0xac, 0x21] 4) = utf8 (unat (0x20ac :: u32)) @ cbs_bytes (CBS_init [0x21] 1) \<and>
      CBS_init [0x21] 1 = advance (CBS_init [0xe2, 0x82, 0xac, 0x21] 4) (cbb_get_utf8_len 0x20ac)" by code_simp
  have b: "cbs_bytes (CBS_init [0xc0, 0x80] 2) \<noteq> utf8 (unat (0 :: u32)) @ cbs_bytes (CBS_init [] 0)" by code_simp
  show ?thesis using utf8_reader_strict [OF w(1), of "0x20ac" "CBS_init [0x21] 1"] a
    utf8_reader_strict [OF w(2), of 0 "CBS_init [] 0"] b by blast
qed

end
