(* ===== verification/CBB_Safety.thy ===== *)
theory CBB_Safety
  imports Set_Of Unicode
begin

text \<open>
  The builder under any sequence of calls: every function of \<open>cbb.c\<close> and of the writers of \<open>unicode.c\<close>
  that changes a builder is a call here, with its arguments. The states such sequences reach keep the
  buffer and the pending prefixes in bounds, and a failure that a call records is never forgotten.
\<close>

section \<open>The calls\<close>

datatype cbb_call =
    Op cbb_op
  | U16le nat u16 | U32le nat u32 | U64le nat u64
  | Space nat nat | Reserve nat nat
  | Oid_text nat bytes nat
  | Set_of nat
  | Utf8 nat u32 | Latin1 nat u32 | Ucs2 nat u32 | Utf32 nat u32
  | Did_write nat nat
  | Discard nat

text \<open>The pointer that \<open>CBB_add_space\<close> and \<open>CBB_reserve\<close> return does not matter here.\<close>

definition no_pointer :: "('a, cbb_state) outcome \<Rightarrow> (unit, cbb_state) outcome" where
  "no_pointer x = (case x of (r, s) \<Rightarrow> (map_option (\<lambda>_. ()) r, s))"

fun perform ::
  "mem_env \<Rightarrow> ((cbs_st \<Rightarrow> cbs_st \<Rightarrow> int) \<Rightarrow> cbs_st list \<Rightarrow> cbs_st list) \<Rightarrow> cbb_call \<Rightarrow> cbb_state \<Rightarrow> (unit, cbb_state) outcome"
where
  "perform env qs (Op p) s = exec env p s"
| "perform env qs (U16le d v) s = CBB_add_u16le env d v s"
| "perform env qs (U32le d v) s = CBB_add_u32le env d v s"
| "perform env qs (U64le d v) s = CBB_add_u64le env d v s"
| "perform env qs (Space d n) s = no_pointer (CBB_add_space env d n s)"
| "perform env qs (Reserve d n) s = no_pointer (CBB_reserve env d n s)"
| "perform env qs (Oid_text d text n) s = CBB_add_asn1_oid_from_text env d text n s"
| "perform env qs (Set_of d) s = CBB_flush_asn1_set_of env qs d s"
| "perform env qs (Utf8 d u) s = cbb_add_utf8 env d u s"
| "perform env qs (Latin1 d u) s = cbb_add_latin1 env d u s"
| "perform env qs (Ucs2 d u) s = cbb_add_ucs2_be env d u s"
| "perform env qs (Utf32 d u) s = cbb_add_utf32_be env d u s"
| "perform env qs (Did_write d n) s = CBB_did_write d n s"
| "perform env qs (Discard d) s = (Some (), CBB_discard_child d s)"

text \<open>
  \<open>OPENSSL_malloc\<close> adds 8 to the size without a check, and a buffer that may grow asks for the new
  length when twice its capacity is less. For the last eight lengths of a \<open>size_t\<close> the sum wraps
  around, and the buffer is smaller than its capacity says (lemma \<open>reserve_wraps\<close>).
\<close>

definition prefix_wraps :: "cbb_state \<Rightarrow> nat \<Rightarrow> bool" where
  "prefix_wraps s n \<longleftrightarrow>
     (case cbb_base s of None \<Rightarrow> False
      | Some b \<Rightarrow> can_resize b \<and> blen b + n < SIZE_LIMIT \<and> SIZE_LIMIT \<le> blen b + n + OPENSSL_MALLOC_PREFIX)"

text \<open>Arguments: data are objects in memory, lengths are of type \<open>size_t\<close> and do not wrap in \<open>OPENSSL_malloc\<close>.\<close>

fun call_ok :: "mem_env \<Rightarrow> cbb_state \<Rightarrow> cbb_call \<Rightarrow> bool" where
  "call_ok env s (Op p) = op_ok p"
| "call_ok env s (Space d n) = (n < SIZE_LIMIT \<and> \<not> prefix_wraps (snd (CBB_flush env d s)) n)"
| "call_ok env s (Reserve d n) = (n < SIZE_LIMIT \<and> \<not> prefix_wraps (snd (CBB_flush env d s)) n)"
| "call_ok env s (Oid_text d text n) = (n \<le> length text \<and> length text < SIZE_LIMIT)"
| "call_ok env s (Did_write d n) = (n < SIZE_LIMIT)"
| "call_ok env s _ = True"

inductive cbb_step ::
  "mem_env \<Rightarrow> ((cbs_st \<Rightarrow> cbs_st \<Rightarrow> int) \<Rightarrow> cbs_st list \<Rightarrow> cbs_st list) \<Rightarrow> cbb_state \<Rightarrow> cbb_state \<Rightarrow> bool" for env qs where
  call: "call_ok env s c \<Longrightarrow> cbb_step env qs s (snd (perform env qs c s))"

section \<open>Sizes of any value\<close>

text \<open>A reservation that does not wrap: beyond the sizes of objects it fails and sets the error.\<close>

lemma reserve_ok_any:
  assumes b: "wf_buffer b" and n: "n < SIZE_LIMIT"
    and wrap: "\<not> (can_resize b \<and> blen b + n < SIZE_LIMIT \<and> SIZE_LIMIT \<le> blen b + n + OPENSSL_MALLOC_PREFIX)"
    and r: "cbb_buffer_reserve env b n = (r, b')"
  shows "wf_buffer b' \<and> blen b' = blen b \<and>
    (case r of None \<Rightarrow> error b' | Some p \<Rightarrow> p = blen b \<and> blen b + n \<le> cap b')"
proof (cases "n < PTRDIFF_LIMIT")
  case True
  then show ?thesis using reserve_ok [OF b True r] by (auto split: option.splits)
next
  case False
  have cap: "blen b \<le> cap b" "cap b < PTRDIFF_LIMIT" using b by (simp_all add: wf_buffer_def)
  have "cbb_buffer_reserve env b n = (None, b\<lparr>error := True\<rparr>)"
  proof (cases "blen b + n < SIZE_LIMIT")
    case lt: True
    then have add: "size_add (blen b) n = blen b + n" by (rule size_add_small)
    have mul: "size_mul (cap b) 2 = cap b * 2"
      using cap by (intro size_mul_small) (simp add: PTRDIFF_LIMIT_def SIZE_LIMIT_def)
    define m where "m = (if cap b * 2 < cap b \<or> cap b * 2 < blen b + n then blen b + n else cap b * 2)"
    have "OPENSSL_realloc env (buf b) m = None" if "can_resize b"
    proof (rule ccontr)
      assume "OPENSSL_realloc env (buf b) m \<noteq> None"
      then obtain p where p: "OPENSSL_malloc env m = Some p" by (auto simp: OPENSSL_realloc_def split: option.splits)
      have "cap b + OPENSSL_MALLOC_PREFIX < PTRDIFF_LIMIT" using b that by (simp add: wf_buffer_def)
      then have "m < SIZE_LIMIT - OPENSSL_MALLOC_PREFIX"
        using wrap that lt by (auto simp: m_def SIZE_LIMIT_def PTRDIFF_LIMIT_def OPENSSL_MALLOC_PREFIX_def)
      from OPENSSL_malloc_length(2) [OF this p] False show False
        by (auto simp: m_def PTRDIFF_LIMIT_def split: if_splits)
    qed
    then show ?thesis using False cap unfolding cbb_buffer_reserve_def Let_def add mul m_def [symmetric]
      by (simp add: PTRDIFF_LIMIT_def)
  next
    case ge: False
    then have "size_add (blen b) n = blen b + n - SIZE_LIMIT"
      using n cap by (simp add: size_add_def PTRDIFF_LIMIT_def SIZE_LIMIT_def mod_if)
    then have "size_add (blen b) n < blen b" using n ge by simp
    then show ?thesis by (simp add: cbb_buffer_reserve_def Let_def)
  qed
  then show ?thesis using r b by (auto simp: wf_buffer_def)
qed

lemma add_ok_any:
  assumes b: "wf_buffer b" and n: "n < SIZE_LIMIT"
    and wrap: "\<not> (can_resize b \<and> blen b + n < SIZE_LIMIT \<and> SIZE_LIMIT \<le> blen b + n + OPENSSL_MALLOC_PREFIX)"
    and r: "cbb_buffer_add env b n = (r, b')"
  shows "wf_buffer b' \<and> blen b \<le> blen b' \<and> (r = None \<longrightarrow> error b')"
proof -
  obtain q b1 where res: "cbb_buffer_reserve env b n = (q, b1)" by fastforce
  from reserve_ok_any [OF b n wrap res] r show ?thesis
    by (cases q) (auto simp: cbb_buffer_add_def res wf_buffer_def)
qed

text \<open>A step on the buffer that only grows it, behind a flush.\<close>

lemma flush_step:
  assumes s: "wf_cbb s"
    and g: "\<And>b r b'. cbb_base (snd (CBB_flush env d s)) = Some b \<Longrightarrow> wf_buffer b \<Longrightarrow> g b = (r, b') \<Longrightarrow>
      wf_buffer b' \<and> blen b \<le> blen b' \<and> (r = None \<longrightarrow> error b')"
  defines "t \<equiv> and_then (CBB_flush env d s) (\<lambda>_. on_base g)"
  shows "wf_cbb (snd t) \<and> (d < length (cbb_frames s) \<and> fst t = None \<longrightarrow> cbb_failed (snd t))"
proof (cases "d < length (cbb_frames s)")
  case True
  obtain r s1 where s1: "CBB_flush env d s = (r, s1)" by fastforce
  have w1: "wf_cbb s1" "r = None \<longrightarrow> cbb_failed s1"
    using flush.refines [OF s True, of env s1] flush.fails [OF s True, of env s1] s1 by (cases r; simp)+
  show ?thesis
  proof (cases r)
    case None
    then show ?thesis using w1 s1 by (simp add: t_def)
  next
    case (Some u)
    obtain b where b: "cbb_base s1 = Some b" "wf_buffer b" using wf_cbb_base [OF w1(1)] by auto
    obtain q b' where q: "g b = (q, b')" by fastforce
    have gb: "wf_buffer b'" "blen b \<le> blen b'" "q = None \<longrightarrow> error b'" using g [OF _ b(2) q] b(1) s1 by simp_all
    have "t = (q, s1\<lparr>cbb_base := Some b'\<rparr>)" using s1 Some b(1) q by (simp add: t_def on_base_def)
    then show ?thesis using wf_cbb_grow [OF w1(1) b(1) gb(1,2)] gb(3) by (simp add: cbb_failed_def)
  qed
next
  case False
  then show ?thesis using s by (simp add: t_def flush_dead)
qed

lemma no_pointer_simps [simp]: "snd (no_pointer x) = snd x" "fst (no_pointer x) = None \<longleftrightarrow> fst x = None"
  by (cases x, simp add: no_pointer_def)+

lemma space_call:
  assumes "wf_cbb s" and "n < SIZE_LIMIT" and "\<not> prefix_wraps (snd (CBB_flush env d s)) n"
  shows "wf_cbb (snd (CBB_add_space env d n s)) \<and>
    (d < length (cbb_frames s) \<and> fst (CBB_add_space env d n s) = None \<longrightarrow> cbb_failed (snd (CBB_add_space env d n s)))"
  unfolding CBB_add_space_def
  by (rule flush_step [OF assms(1)]) (use assms(2,3) add_ok_any in \<open>auto simp: prefix_wraps_def\<close>)

lemma reserve_call:
  assumes "wf_cbb s" and "n < SIZE_LIMIT" and "\<not> prefix_wraps (snd (CBB_flush env d s)) n"
  shows "wf_cbb (snd (CBB_reserve env d n s)) \<and>
    (d < length (cbb_frames s) \<and> fst (CBB_reserve env d n s) = None \<longrightarrow> cbb_failed (snd (CBB_reserve env d n s)))"
  unfolding CBB_reserve_def
proof (rule flush_step [OF assms(1)])
  fix b r b' assume a: "cbb_base (snd (CBB_flush env d s)) = Some b" "wf_buffer b" "cbb_buffer_reserve env b n = (r, b')"
  from reserve_ok_any [OF a(2) assms(2) _ a(3)] a(1) assms(3)
  show "wf_buffer b' \<and> blen b \<le> blen b' \<and> (r = None \<longrightarrow> error b')" by (auto simp: prefix_wraps_def split: option.splits)
qed

section \<open>The other calls\<close>

lemma did_write_wf:
  assumes "wf_cbb s"
  shows "wf_cbb (snd (CBB_did_write d n s)) \<and> cbb_failed (snd (CBB_did_write d n s)) = cbb_failed s"
proof -
  obtain b where b: "cbb_base s = Some b" "wf_buffer b" using wf_cbb_base [OF assms] by auto
  have "s\<lparr>cbb_base := Some b\<rparr> = s" using b(1) by (cases s) simp
  then have "snd (CBB_did_write d n s) = s \<or> blen b \<le> size_add (blen b) n \<and> size_add (blen b) n \<le> cap b \<and>
      snd (CBB_did_write d n s) = s\<lparr>cbb_base := Some (b\<lparr>blen := size_add (blen b) n\<rparr>)\<rparr>"
    by (auto simp: CBB_did_write_def on_base_def b(1) Let_def)
  then show ?thesis
    using wf_cbb_grow [OF assms b(1), of "b\<lparr>blen := size_add (blen b) n\<rparr>"] assms b
    by (auto simp: wf_buffer_def cbb_failed_def)
qed

lemma discard_wf:
  assumes s: "wf_cbb s"
  shows "wf_cbb (CBB_discard_child d s) \<and> cbb_failed (CBB_discard_child d s) = cbb_failed s"
proof (cases "drop (Suc d) (cbb_frames s)")
  case Nil
  then show ?thesis using s by (simp add: CBB_discard_child_def)
next
  case (Cons c cs)
  obtain b f fs where st: "s = \<lparr>cbb_base = Some b, cbb_frames = f # fs\<rparr>" and w: "wf_buffer b" "chain_ok b 0 fs"
    "offset f = 0" "pending_len_len f = 0" "\<not> is_child f"
    using wf_cbb_base [OF s] by blast
  have fs: "fs = take d fs @ c # cs" using Cons st by (metis append_take_drop_id cbb_state.select_convs(2) drop_Suc_Cons)
  then have ch: "chain_up 0 (take d fs)" "start_of 0 (take d fs) \<le> offset c" "offset c \<le> blen b"
    using w(2) chain_ok_append [of b 0 "take d fs" "c # cs"] chain_ok_le [of b _ cs] by fastforce+
  have t: "CBB_discard_child d s = \<lparr>cbb_base = Some (b\<lparr>blen := offset c\<rparr>), cbb_frames = f # take d fs @ []\<rparr>"
    using Cons st by (simp add: CBB_discard_child_def)
  have "wf_cbb (CBB_discard_child d s)"
    unfolding t using w ch by (intro wf_cbbI) (auto simp: wf_buffer_def)
  moreover have "cbb_failed (CBB_discard_child d s) = error b" unfolding t by (simp add: cbb_failed_def)
  moreover have "cbb_failed s = error b" by (simp add: st cbb_failed_def)
  ultimately show ?thesis by simp
qed

text \<open>The calls that are made of others keep the builder well formed.\<close>

lemma and_then_wf: "wf_cbb (snd x) \<Longrightarrow> (\<And>a t. wf_cbb t \<Longrightarrow> wf_cbb (snd (k a t))) \<Longrightarrow> wf_cbb (snd (and_then x k))"
  by (cases "(x, k)" rule: and_then.cases) auto

lemma exec_wf: "op_ok p \<Longrightarrow> wf_cbb s \<Longrightarrow> wf_cbb (snd (exec env p s))"
  using exec_keeps by blast

lemmas call_wf = exec_wf [of "Flush d" for d, simplified] exec_wf [of "U8 d v" for d v, simplified]
  exec_wf [of "U16 d v" for d v, simplified] exec_wf [of "U32 d v" for d v, simplified]
  exec_wf [of "U64 d v" for d v, simplified]

lemma add_u8s_wf: "wf_cbb s \<Longrightarrow> wf_cbb (snd (add_u8s env d bs s))"
  by (induction bs arbitrary: s) (auto intro!: and_then_wf call_wf)

lemma base128_wf: "wf_cbb s \<Longrightarrow> wf_cbb (snd (add_base128_integer env d v s))"
  by (simp add: add_base128_integer_def Let_def add_u8s_wf)

lemma oid_rest_wf: "wf_cbb s \<Longrightarrow> wf_cbb (snd (oid_rest env d c s))"
proof (induction env d c s rule: oid_rest.induct)
  case (1 env d c s)
  show ?case
  proof (cases "CBS_len c > 0")
    case len: True
    obtain r c' where p: "parse_dotted_decimal c = (r, c')" by fastforce
    show ?thesis
    proof (cases r)
      case (Some a)
      obtain q t where t: "add_base128_integer env d a s = (q, t)" by fastforce
      have "wf_cbb t" using base128_wf [OF 1(2), of env d a] t by simp
      moreover have "wf_cbb (snd (oid_rest env d c' t))" if "q = Some ()"
        using 1(1) [OF len p [symmetric] Some _ \<open>wf_cbb t\<close>] t that by simp
      ultimately show ?thesis using len p Some t by (subst oid_rest.simps) (cases q, simp_all)
    qed (use 1(2) len p in \<open>simp add: oid_rest.simps [of env d c]\<close>)
  qed (use 1(2) in \<open>simp add: oid_rest.simps [of env d c]\<close>)
qed

lemma oid_wf: "wf_cbb s \<Longrightarrow> wf_cbb (snd (CBB_add_asn1_oid_from_text env d text n s))"
  unfolding CBB_add_asn1_oid_from_text_def
  by (auto intro!: and_then_wf call_wf base128_wf oid_rest_wf split: prod.splits option.splits)

lemma set_of_wf:
  assumes "qsort_sorts qs" and "wf_cbb s"
  shows "wf_cbb (snd (CBB_flush_asn1_set_of env qs d s))"
proof (cases "d < length (cbb_frames s)")
  case True
  obtain r s1 where f: "CBB_flush env d s = (r, s1)" by fastforce
  have w: "wf_cbb s1" using call_wf(1) [OF assms(2), of env d] f by simp
  show ?thesis
  proof (cases r)
    case None
    then show ?thesis using w f by (simp add: CBB_flush_asn1_set_of_def)
  next
    case (Some x)
    show ?thesis using set_of_effect [OF assms True, of env x s1] w f Some by (auto split: prod.splits option.splits)
  qed
next
  case False
  then show ?thesis using assms(2) by (simp add: CBB_flush_asn1_set_of_def flush_dead)
qed

lemma writers_wf:
  assumes "wf_cbb s"
  shows "wf_cbb (snd (cbb_add_utf8 env d u s))" "wf_cbb (snd (cbb_add_latin1 env d u s))"
    "wf_cbb (snd (cbb_add_ucs2_be env d u s))" "wf_cbb (snd (cbb_add_utf32_be env d u s))"
  using assms
  by (auto simp: cbb_add_utf8_def cbb_add_latin1_def cbb_add_ucs2_be_def cbb_add_utf32_be_def intro!: and_then_wf call_wf)

lemma perform_wf:
  assumes q: "qsort_sorts qs" and s: "wf_cbb s" and c: "call_ok env s c"
  shows "wf_cbb (snd (perform env qs c s))"
proof (cases c)
  case (U16le d v) then show ?thesis using s by (simp add: CBB_add_u16le_def call_wf)
next
  case (U32le d v) then show ?thesis using s by (simp add: CBB_add_u32le_def call_wf)
next
  case (U64le d v) then show ?thesis using s by (simp add: CBB_add_u64le_def call_wf)
qed (use s c q exec_wf space_call reserve_call oid_wf set_of_wf writers_wf did_write_wf discard_wf in simp_all)

section \<open>Recorded failures\<close>

text \<open>
  The calls whose failure on a live \<open>CBB\<close> sets the error of the buffer, and the calls that look at it.
  \<open>CBB_did_write\<close> and \<open>CBB_discard_child\<close> do neither; a text that is no object identifier, contents
  that are no elements and a code point that cannot be written are rejected without an error.
\<close>

fun records_failure :: "cbb_call \<Rightarrow> nat option" where
  "records_failure (Op p) = Some (op_depth p)"
| "records_failure (U16le d v) = Some d" | "records_failure (U32le d v) = Some d" | "records_failure (U64le d v) = Some d"
| "records_failure (Space d n) = Some d" | "records_failure (Reserve d n) = Some d"
| "records_failure _ = None"

fun checks_error :: "cbb_call \<Rightarrow> bool" where
  "checks_error (Did_write d n) = False"
| "checks_error (Discard d) = False"
| "checks_error _ = True"

lemma exec_sticks: "op_ok p \<Longrightarrow> cbb_failed s \<Longrightarrow> exec env p s = (None, s)"
  by (rule builder_call.sticks [OF op_call])

lemmas call_sticks = exec_sticks [of "Flush d" for d, simplified] exec_sticks [of "U8 d v" for d v, simplified]
  exec_sticks [of "U16 d v" for d v, simplified] exec_sticks [of "U32 d v" for d v, simplified]
  exec_sticks [of "U64 d v" for d v, simplified]

lemma perform_sticks:
  assumes "cbb_failed s" and "checks_error c" and "call_ok env s c"
  shows "perform env qs c s = (None, s)"
  using assms
  by (cases c) (auto simp: exec_sticks call_sticks CBB_add_u16le_def CBB_add_u32le_def CBB_add_u64le_def CBB_add_space_def
      CBB_reserve_def CBB_add_asn1_oid_from_text_def CBB_flush_asn1_set_of_def cbb_add_utf8_def cbb_add_latin1_def
      cbb_add_ucs2_be_def cbb_add_utf32_be_def no_pointer_def)

lemma exec_fails:
  assumes "op_ok p" and "wf_cbb s" and "op_depth p < length (cbb_frames s)" and "exec env p s = (None, t)"
  shows "cbb_failed t"
  using builder_call.fails [OF op_call [OF assms(1)] assms(2-4)] by simp

lemma perform_fails:
  assumes "wf_cbb s" and "call_ok env s c" and "records_failure c = Some d" and "d < length (cbb_frames s)"
    and "perform env qs c s = (None, t)"
  shows "cbb_failed t"
proof (cases c)
  case (Op p)
  then show ?thesis using assms exec_fails [of p s env t] by simp
next
  case (U16le e v)
  then show ?thesis using assms exec_fails [of "U16 e (CRYPTO_bswap2 v)" s env t] by (simp add: CBB_add_u16le_def)
next
  case (U32le e v)
  then show ?thesis using assms exec_fails [of "U32 e (CRYPTO_bswap4 v)" s env t] by (simp add: CBB_add_u32le_def)
next
  case (U64le e v)
  then show ?thesis using assms exec_fails [of "U64 e (CRYPTO_bswap8 v)" s env t] by (simp add: CBB_add_u64le_def)
next
  case (Space e n)
  then show ?thesis using assms space_call [OF assms(1), of n env e]
    by (auto simp: no_pointer_def split: prod.splits)
next
  case (Reserve e n)
  then show ?thesis using assms reserve_call [OF assms(1), of n env e]
    by (auto simp: no_pointer_def split: prod.splits)
qed (use assms in simp_all)


lemma step_failed: "cbb_step env qs s t \<Longrightarrow> wf_cbb s \<Longrightarrow> cbb_failed s \<Longrightarrow> wf_cbb t \<and> cbb_failed t"
proof (induction rule: cbb_step.induct)
  case (call s c)
  show ?case
  proof (cases "checks_error c")
    case True
    then show ?thesis using perform_sticks [of s c env qs] call by simp
  next
    case False
    then show ?thesis using did_write_wf [OF call(2)] discard_wf [OF call(2)] call(3) by (cases c) simp_all
  qed
qed


lemma steps_failed: "(cbb_step env qs)\<^sup>*\<^sup>* s t \<Longrightarrow> wf_cbb s \<Longrightarrow> cbb_failed s \<Longrightarrow> cbb_failed t"
proof -
  have "(cbb_step env qs)\<^sup>*\<^sup>* s t \<Longrightarrow> wf_cbb s \<Longrightarrow> cbb_failed s \<Longrightarrow> wf_cbb t \<and> cbb_failed t"
    by (induction rule: rtranclp_induct) (auto dest: step_failed)
  then show "(cbb_step env qs)\<^sup>*\<^sup>* s t \<Longrightarrow> wf_cbb s \<Longrightarrow> cbb_failed s \<Longrightarrow> cbb_failed t" by blast
qed

section \<open>What the bounds leave out\<close>

definition sample_init :: cbb_state where
  "sample_init = snd (CBB_init any_env 1)"

text \<open>Reserving the largest \<open>size_t\<close> succeeds: \<open>malloc\<close> is asked for 7 bytes, and the buffer has not the capacity it records.\<close>

lemma reserve_wraps:
  "case CBB_reserve any_env 0 (2 ^ 64 - 1) sample_init of
     (Some _, t) \<Rightarrow> (case cbb_base t of None \<Rightarrow> False | Some b \<Rightarrow> cap b = 2 ^ 64 - 1 \<and> length (buf b) = 1)
   | _ \<Rightarrow> False"
  by code_simp

definition full_buffer :: cbb_state where
  "full_buffer = snd (CBB_init_fixed any_env [0, 0] 2)"

text \<open>
  The declaration of the error says that after one all operations fail. After a failed
  \<open>CBB_add_bytes\<close>, \<open>CBB_did_write\<close> succeeds and makes two bytes valid; and a failed
  \<open>CBB_did_write\<close> is no error, so that \<open>CBB_finish\<close> succeeds behind it.
\<close>

lemma did_write_ignores_error:
  "case exec any_env (Bytes 0 [1, 2, 3]) full_buffer of
     (None, t) \<Rightarrow> cbb_failed t \<and> base_len t = 0 \<and>
       (case CBB_did_write 0 2 t of (Some _, u) \<Rightarrow> base_len u = 2 | _ \<Rightarrow> False)
   | _ \<Rightarrow> False"
  by code_simp

lemma did_write_failure_forgotten:
  "case CBB_did_write 0 3 full_buffer of
     (None, t) \<Rightarrow> fst (CBB_finish any_env 0 True True t) = Some (Some [0, 0], Some 0)
   | _ \<Rightarrow> False"
  by code_simp

section \<open>Properties\<close>



text \<open>C7: a recorded failure sticks. When a call that writes bytes or integers, an ASN.1 value, a length
  prefix, a flush or space (\<open>CBB_add_space\<close>, \<open>CBB_reserve\<close>) has failed on a live \<open>CBB\<close>, then after any
  further calls every call but \<open>CBB_did_write\<close> and \<open>CBB_discard_child\<close> fails and leaves the state as it
  is, and \<open>CBB_finish\<close> fails, so that a caller of the others may check only the last result. These two
  do not look at the error, and neither they nor a rejected object identifier, \<open>SET OF\<close> or code point
  record one.\<close>

theorem cbb_failure_sticks:
  assumes "wf_cbb s" and "call_ok env s c" and "records_failure c = Some d" and "d < length (cbb_frames s)"
    and "perform env qs c s = (None, t)" and "(cbb_step env qs)\<^sup>*\<^sup>* t u"
  shows "(\<forall>c'. checks_error c' \<and> call_ok env u c' \<longrightarrow> perform env qs c' u = (None, u)) \<and>
    fst (CBB_finish env e out_data out_len u) = None"
proof -
  have t: "cbb_failed t" by (rule perform_fails [OF assms(1-5)])
  have "perform env insertion_sort c s = (None, t)" using assms(3,5) by (cases c) simp_all
  then have "wf_cbb t" using perform_wf [OF insertion_sort_sorts assms(1,2)] by simp
  then have u: "cbb_failed u" using steps_failed [OF assms(6)] t by blast
  then have "fst (CBB_finish env e out_data out_len u) = None" by (simp add: CBB_finish_def flush.sticks)
  with u show ?thesis by (blast intro: perform_sticks)
qed

theorem cbb_failure_sticks_witness:
  "exec any_env (U8 0 1) (snd (CBB_did_write 0 2 (snd (exec any_env (Bytes 0 [1, 2, 3]) full_buffer)))) =
     (None, snd (CBB_did_write 0 2 (snd (exec any_env (Bytes 0 [1, 2, 3]) full_buffer))))"
proof -
  let ?t = "snd (exec any_env (Bytes 0 [1, 2, 3]) full_buffer)" and ?u = "snd (CBB_did_write 0 2 (snd (exec any_env (Bytes 0 [1, 2, 3]) full_buffer)))"
  let ?c = "Op (Bytes 0 [1, 2, 3])"
  have w: "wf_cbb full_buffer" "call_ok any_env full_buffer ?c" "records_failure ?c = Some 0" "0 < length (cbb_frames full_buffer)"
    by code_simp+
  have "fst (perform any_env insertion_sort ?c full_buffer) = None" by code_simp
  then have f: "perform any_env insertion_sort ?c full_buffer = (None, ?t)" by (simp add: prod_eq_iff)
  have "cbb_step any_env insertion_sort ?t ?u"
    using cbb_step.call [of any_env ?t "Did_write 0 2" insertion_sort] by (simp add: SIZE_LIMIT_def)
  then have "(cbb_step any_env insertion_sort)\<^sup>*\<^sup>* ?t ?u" by blast
  note sticks = conjunct1 [OF cbb_failure_sticks [OF w f this, of 0 True True], rule_format, of "Op (U8 0 1)"]
  have "checks_error (Op (U8 0 1)) \<and> call_ok any_env ?u (Op (U8 0 1))" by simp
  from sticks [OF this] show ?thesis by (simp only: perform.simps)
qed

end
