(* ===== verification/BER.thy ===== *)
theory BER
  imports Set_Of
begin

text \<open>
  \<open>crypto/bytestring/ber.c\<close>: BER with indefinite lengths and constructed strings, converted to DER.
  The loops are partial functions, \<^const>\<open>None\<close> for not returning; \<open>ber_to_der_returns\<close> says that this never
  happens. \<open>ber_der\<close> is the conversion as a relation on byte strings, written without the code.
\<close>

unbundle bit_operations_syntax

text \<open>For evaluation: the complement as a difference, and a case distinction as for \<^const>\<open>and_then\<close>.\<close>

lemma constructed_code [code]: "CBS_ASN1_CONSTRUCTED = 0x20000000"
  by (simp add: CBS_ASN1_CONSTRUCTED_def CBS_ASN1_TAG_SHIFT_def)

lemma clear_constructed [code_unfold]: "tag AND NOT CBS_ASN1_CONSTRUCTED = tag - (tag AND CBS_ASN1_CONSTRUCTED)"
proof -
  have "(tag AND NOT CBS_ASN1_CONSTRUCTED) AND (tag AND CBS_ASN1_CONSTRUCTED) = 0" by (rule bit_word_eqI) (simp add: bit_simps)
  then have "(tag AND NOT CBS_ASN1_CONSTRUCTED) + (tag AND CBS_ASN1_CONSTRUCTED) =
      (tag AND NOT CBS_ASN1_CONSTRUCTED) OR (tag AND CBS_ASN1_CONSTRUCTED)" by (rule disjunctive_add_eq_or)
  also have "\<dots> = tag" by (rule bit_word_eqI) (auto simp: bit_simps)
  finally show ?thesis by (simp add: eq_diff_eq)
qed

lemma bind_case [code_unfold]: "Option.bind m f = (case m of None \<Rightarrow> None | Some x \<Rightarrow> f x)"
  by (cases m) simp_all

section \<open>The code\<close>

definition kMaxDepth :: nat where
  "kMaxDepth = 2048"

definition CBS_ASN1_UTF8STRING :: u32 where "CBS_ASN1_UTF8STRING = 0xc"
definition CBS_ASN1_NUMERICSTRING :: u32 where "CBS_ASN1_NUMERICSTRING = 0x12"
definition CBS_ASN1_PRINTABLESTRING :: u32 where "CBS_ASN1_PRINTABLESTRING = 0x13"
definition CBS_ASN1_T61STRING :: u32 where "CBS_ASN1_T61STRING = 0x14"
definition CBS_ASN1_VIDEOTEXSTRING :: u32 where "CBS_ASN1_VIDEOTEXSTRING = 0x15"
definition CBS_ASN1_IA5STRING :: u32 where "CBS_ASN1_IA5STRING = 0x16"
definition CBS_ASN1_GRAPHICSTRING :: u32 where "CBS_ASN1_GRAPHICSTRING = 0x19"
definition CBS_ASN1_VISIBLESTRING :: u32 where "CBS_ASN1_VISIBLESTRING = 0x1a"
definition CBS_ASN1_GENERALSTRING :: u32 where "CBS_ASN1_GENERALSTRING = 0x1b"
definition CBS_ASN1_UNIVERSALSTRING :: u32 where "CBS_ASN1_UNIVERSALSTRING = 0x1c"
definition CBS_ASN1_BMPSTRING :: u32 where "CBS_ASN1_BMPSTRING = 0x1e"

definition is_string_type :: "u32 \<Rightarrow> bool" where
  "is_string_type tag \<longleftrightarrow> tag AND NOT CBS_ASN1_CONSTRUCTED \<in>
     {CBS_ASN1_BITSTRING, CBS_ASN1_OCTETSTRING, CBS_ASN1_UTF8STRING, CBS_ASN1_NUMERICSTRING,
      CBS_ASN1_PRINTABLESTRING, CBS_ASN1_T61STRING, CBS_ASN1_VIDEOTEXSTRING, CBS_ASN1_IA5STRING,
      CBS_ASN1_GRAPHICSTRING, CBS_ASN1_VISIBLESTRING, CBS_ASN1_GENERALSTRING, CBS_ASN1_UNIVERSALSTRING,
      CBS_ASN1_BMPSTRING}"

lemma is_string_type_code [code]:
  "is_string_type tag \<longleftrightarrow>
     (let n = unat (tag AND NOT CBS_ASN1_CONSTRUCTED)
      in n \<in> {3, 4, 12, 18, 19, 20, 21, 22, 25, 26, 27, 28, 30})"
  by (auto simp: is_string_type_def Let_def CBS_ASN1_BITSTRING_def CBS_ASN1_OCTETSTRING_def CBS_ASN1_UTF8STRING_def
      CBS_ASN1_NUMERICSTRING_def CBS_ASN1_PRINTABLESTRING_def CBS_ASN1_T61STRING_def CBS_ASN1_VIDEOTEXSTRING_def
      CBS_ASN1_IA5STRING_def CBS_ASN1_GRAPHICSTRING_def CBS_ASN1_VISIBLESTRING_def CBS_ASN1_GENERALSTRING_def
      CBS_ASN1_UNIVERSALSTRING_def CBS_ASN1_BMPSTRING_def word_unat_eq_iff)

text \<open>The test for an element of indefinite length, which both walks share.\<close>

definition is_indefinite :: "cbs_st \<Rightarrow> nat \<Rightarrow> bool" where
  "is_indefinite contents header_len \<longleftrightarrow>
     CBS_len contents = header_len \<and> header_len > 0 \<and> CBS_data contents ! (header_len - 1) = 0x80"

text \<open>
  The loop of \<open>cbs_find_ber\<close> on its copy of the input, with \<open>*ber_found\<close> as its state; the recursive
  call, which starts by storing 0 there, is written out.
\<close>

partial_function (option) find_ber_loop :: "cbs_st \<Rightarrow> bool \<Rightarrow> nat \<Rightarrow> bool option option" where
  "find_ber_loop c ber_found depth =
     (if CBS_len c > 0
      then (case CBS_get_any_ber_asn1_element c of
              (None, _) \<Rightarrow> Some None
            | (Some (contents, tag, header_len), c) \<Rightarrow>
                if is_indefinite contents header_len then Some (Some True)
                else if tag AND CBS_ASN1_CONSTRUCTED \<noteq> 0
                then if is_string_type tag then Some (Some True)
                     else (case CBS_skip contents header_len of
                             (None, _) \<Rightarrow> Some None
                           | (Some _, contents) \<Rightarrow>
                               Option.bind (if depth + 1 > kMaxDepth then Some None else find_ber_loop contents False (depth + 1))
                                 (\<lambda>r. case r of None \<Rightarrow> Some None | Some ber_found \<Rightarrow> find_ber_loop c ber_found depth))
                else find_ber_loop c ber_found depth)
      else Some (Some ber_found))"

declare find_ber_loop.simps [code]

definition cbs_find_ber :: "cbs_st \<Rightarrow> nat \<Rightarrow> bool option option" where
  "cbs_find_ber c depth = (if depth > kMaxDepth then Some None else find_ber_loop c False depth)"

definition is_eoc :: "nat \<Rightarrow> cbs_st \<Rightarrow> bool" where
  "is_eoc header_len contents \<longleftrightarrow>
     header_len = 2 \<and> CBS_len contents = 2 \<and> OPENSSL_memcmp (CBS_data contents) [0, 0, 0] 2 = 0"

text \<open>
  Where the contents of an element go: the depth of \<open>out_contents\<close> and \<open>child_string_tag\<close>.
\<close>

definition ber_out :: "mem_env \<Rightarrow> nat \<Rightarrow> u32 \<Rightarrow> u32 \<Rightarrow> cbb_state \<Rightarrow> (nat \<times> u32, cbb_state) outcome" where
  "ber_out env d string_tag tag s =
     (if string_tag \<noteq> 0
      then if tag AND NOT CBS_ASN1_CONSTRUCTED \<noteq> string_tag then (None, s) else (Some (d, string_tag), s)
      else let str = (tag AND CBS_ASN1_CONSTRUCTED \<noteq> 0 \<and> is_string_type tag);
               out_tag = (if str then tag AND NOT CBS_ASN1_CONSTRUCTED else tag)
           in and_then (CBB_add_asn1 env d out_tag s) (\<lambda>_ s. (Some (d + 1, if str then out_tag else string_tag), s)))"

text \<open>The loop of \<open>cbs_convert_ber\<close>; the result is its value, the \<open>CBS\<close> and the builder it leaves.\<close>

partial_function (option) convert_loop ::
  "mem_env \<Rightarrow> nat \<Rightarrow> u32 \<Rightarrow> bool \<Rightarrow> nat \<Rightarrow> cbs_st \<Rightarrow> cbb_state \<Rightarrow> (unit option \<times> cbs_st \<times> cbb_state) option" where
  "convert_loop env d string_tag looking_for_eoc depth c s =
     (if CBS_len c > 0
      then (case CBS_get_any_ber_asn1_element c of
              (None, c) \<Rightarrow> Some (None, c, s)
            | (Some (contents, tag, header_len), c) \<Rightarrow>
                if is_eoc header_len contents then Some (if looking_for_eoc then Some () else None, c, s)
                else (case ber_out env d string_tag tag s of
                        (None, s) \<Rightarrow> Some (None, c, s)
                      | (Some (od, child_string_tag), s) \<Rightarrow>
                          Option.bind
                            (if is_indefinite contents header_len
                             then if depth + 1 > kMaxDepth then Some (None, c, s)
                                  else convert_loop env od child_string_tag True (depth + 1) c s
                             else (case CBS_skip contents header_len of
                                     (None, _) \<Rightarrow> Some (None, c, s)
                                   | (Some _, contents) \<Rightarrow>
                                       if tag AND CBS_ASN1_CONSTRUCTED \<noteq> 0
                                       then if depth + 1 > kMaxDepth then Some (None, c, s)
                                            else Option.bind (convert_loop env od child_string_tag False (depth + 1) contents s)
                                                   (\<lambda>(r, _, s). Some (r, c, s))
                                       else (case CBB_add_bytes env od (CBS_data contents) (CBS_len contents) s of
                                               (r, s) \<Rightarrow> Some (r, c, s))))
                            (\<lambda>(r, c, s). case r of
                                None \<Rightarrow> Some (None, c, s)
                              | Some _ \<Rightarrow>
                                  (case CBB_flush env d s of
                                     (None, s) \<Rightarrow> Some (None, c, s)
                                   | (Some _, s) \<Rightarrow> convert_loop env d string_tag looking_for_eoc depth c s))))
      else Some (if looking_for_eoc then None else Some (), c, s))"

declare convert_loop.simps [code]

definition cbs_convert_ber ::
  "mem_env \<Rightarrow> nat \<Rightarrow> u32 \<Rightarrow> bool \<Rightarrow> nat \<Rightarrow> cbs_st \<Rightarrow> cbb_state \<Rightarrow> (unit option \<times> cbs_st \<times> cbb_state) option" where
  "cbs_convert_ber env d string_tag looking_for_eoc depth c s =
     (if depth > kMaxDepth then Some (None, c, s) else convert_loop env d string_tag looking_for_eoc depth c s)"

text \<open>The result on success is \<open>*out\<close> and \<open>*out_storage\<close> (\<^const>\<open>None\<close> for \<open>NULL\<close>).\<close>

definition CBS_asn1_ber_to_der :: "mem_env \<Rightarrow> cbs_st \<Rightarrow> (cbs_st \<times> bytes option, cbs_st) outcome option" where
  "CBS_asn1_ber_to_der env c =
     Option.bind (cbs_find_ber c 0) (\<lambda>found. case found of
       None \<Rightarrow> Some (None, c)
     | Some conversion_needed \<Rightarrow>
         if \<not> conversion_needed
         then Some (and_then (CBS_get_any_asn1_element c) (\<lambda>(out, _, _) c. (Some (out, None), c)))
         else (case CBB_init env (CBS_len c) of
                 (None, _) \<Rightarrow> Some (None, c)
               | (Some _, cbb) \<Rightarrow>
                   Option.bind (cbs_convert_ber env 0 0 False 0 c cbb) (\<lambda>(r, c, cbb). case r of
                     None \<Rightarrow> Some (None, c)
                   | Some _ \<Rightarrow>
                       (case CBB_finish env 0 True True cbb of
                          (Some (Some out_storage, Some len), _) \<Rightarrow> Some (Some (CBS_init out_storage len, Some out_storage), c)
                        | _ \<Rightarrow> Some (None, c)))))"

section \<open>An implicitly tagged string\<close>

lemma CBS_get_asn1_less: "CBS_get_asn1 c tag = (Some x, c') \<Longrightarrow> cbs_len c' < cbs_len c"
  by (auto simp: CBS_get_asn1_eq and_then_Some dest!: CBS_get_any_asn1_element_less split: if_splits)

function implicit_chunks :: "mem_env \<Rightarrow> u32 \<Rightarrow> cbs_st \<Rightarrow> cbb_state \<Rightarrow> (unit, cbb_state) outcome" where
  "implicit_chunks env inner_tag child s =
     (if CBS_len child > 0
      then (case CBS_get_asn1 child inner_tag of
              (None, _) \<Rightarrow> (None, s)
            | (Some chunk, child) \<Rightarrow>
                and_then (CBB_add_bytes env 0 (CBS_data chunk) (CBS_len chunk) s) (\<lambda>_ s. implicit_chunks env inner_tag child s))
      else (Some (), s))"
  by pat_completeness auto
termination
  by (relation "measure (\<lambda>(env, tag, c, s). cbs_len c)") (auto dest!: CBS_get_asn1_less [OF sym])

declare implicit_chunks.simps [simp del]

definition CBS_get_asn1_implicit_string ::
  "mem_env \<Rightarrow> cbs_st \<Rightarrow> u32 \<Rightarrow> u32 \<Rightarrow> (cbs_st \<times> bytes option, cbs_st) outcome" where
  "CBS_get_asn1_implicit_string env c outer_tag inner_tag =
     (if CBS_peek_asn1_tag c outer_tag
      then and_then (CBS_get_asn1 c outer_tag) (\<lambda>out c. (Some (out, None), c))
      else (case CBB_init env (CBS_len c) of
              (None, _) \<Rightarrow> (None, c)
            | (Some _, result) \<Rightarrow>
                and_then (CBS_get_asn1 c (outer_tag OR CBS_ASN1_CONSTRUCTED)) (\<lambda>child c.
                case and_then (implicit_chunks env inner_tag child result) (\<lambda>_. CBB_finish env 0 True True) of
                  (Some (Some data, Some len), _) \<Rightarrow> (Some (CBS_init data len, Some data), c)
                | _ \<Rightarrow> (None, c))))"

section \<open>Every call returns\<close>

lemma ber_element_consumes:
  "CBS_get_any_ber_asn1_element c = (Some (out, tag, header_len), c') \<Longrightarrow>
     cbs_len c' < cbs_len c \<and> cbs_len out \<le> cbs_len c \<and> 0 < header_len"
  unfolding CBS_get_any_ber_asn1_element_def by (rule any_element_consumes)

lemma find_ber_returns: "\<exists>r. find_ber_loop c ber_found depth = Some r"
proof (induction "cbs_len c" arbitrary: c ber_found depth rule: less_induct)
  case less
  show ?case
  proof (cases "CBS_get_any_ber_asn1_element c")
    case (Pair r c')
    show ?thesis
    proof (cases r)
      case None
      then show ?thesis using Pair by (simp add: find_ber_loop.simps [of c])
    next
      case (Some x)
      obtain contents tag hl where x: "x = (contents, tag, hl)" by (metis prod_cases3)
      then have e: "CBS_get_any_ber_asn1_element c = (Some (contents, tag, hl), c')" using Pair Some by simp
      note lt = ber_element_consumes [OF e]
      have rest: "\<exists>r. find_ber_loop c' b k = Some r" for b k using less lt by blast
      have "\<exists>r. find_ber_loop (advance contents hl) b k = Some r" for b k
        using lt by (intro less) auto
      then obtain r where r: "find_ber_loop (advance contents hl) False (depth + 1) = Some r" by blast
      show ?thesis using rest
        by (cases r) (auto simp: find_ber_loop.simps [of c] e CBS_skip_eq r [simplified])
    qed
  qed
qed

text \<open>The conversion of the contents of one element, and the loop in terms of it.\<close>

definition convert_contents ::
  "mem_env \<Rightarrow> nat \<Rightarrow> u32 \<Rightarrow> nat \<Rightarrow> cbs_st \<Rightarrow> u32 \<Rightarrow> nat \<Rightarrow> cbs_st \<Rightarrow> cbb_state \<Rightarrow> (unit option \<times> cbs_st \<times> cbb_state) option" where
  "convert_contents env od child_tag depth contents tag header_len c s =
     (if is_indefinite contents header_len then cbs_convert_ber env od child_tag True (depth + 1) c s
      else case CBS_skip contents header_len of
          (None, _) \<Rightarrow> Some (None, c, s)
        | (Some _, contents) \<Rightarrow>
            if tag AND CBS_ASN1_CONSTRUCTED \<noteq> 0
            then Option.bind (cbs_convert_ber env od child_tag False (depth + 1) contents s) (\<lambda>(r, _, s). Some (r, c, s))
            else (case CBB_add_bytes env od (CBS_data contents) (CBS_len contents) s of (r, s) \<Rightarrow> Some (r, c, s)))"

lemma convert_nil: "CBS_len c = 0 \<Longrightarrow> convert_loop env d string_tag eoc depth c s = Some (if eoc then None else Some (), c, s)"
  by (subst convert_loop.simps) simp

lemma convert_bad:
  "CBS_len c > 0 \<Longrightarrow> CBS_get_any_ber_asn1_element c = (None, c') \<Longrightarrow>
    convert_loop env d string_tag eoc depth c s = Some (None, c', s)"
  by (subst convert_loop.simps) simp

lemma convert_item:
  "CBS_len c > 0 \<Longrightarrow> CBS_get_any_ber_asn1_element c = (Some (contents, tag, header_len), c') \<Longrightarrow>
    convert_loop env d string_tag eoc depth c s =
     (if is_eoc header_len contents then Some (if eoc then Some () else None, c', s)
      else (case ber_out env d string_tag tag s of
              (None, s) \<Rightarrow> Some (None, c', s)
            | (Some (od, child_tag), s) \<Rightarrow>
                Option.bind (convert_contents env od child_tag depth contents tag header_len c' s)
                  (\<lambda>(r, c, s). case r of
                      None \<Rightarrow> Some (None, c, s)
                    | Some _ \<Rightarrow>
                        (case CBB_flush env d s of
                           (None, s) \<Rightarrow> Some (None, c, s)
                         | (Some _, s) \<Rightarrow> convert_loop env d string_tag eoc depth c s))))"
  by (subst convert_loop.simps)
    (simp add: convert_contents_def cbs_convert_ber_def if_distrib [of "\<lambda>x. Option.bind x f" for f] cong: if_cong split: prod.split option.split)

lemma convert_returns:
  "\<exists>r c' s'. convert_loop env d string_tag eoc depth c s = Some (r, c', s') \<and> (r \<noteq> None \<longrightarrow> cbs_len c' \<le> cbs_len c)"
proof (induction "cbs_len c" arbitrary: d string_tag eoc depth c s rule: less_induct)
  case less
  have cv: "\<exists>r c2 s2. cbs_convert_ber env d string_tag eoc depth c' s = Some (r, c2, s2) \<and> (r \<noteq> None \<longrightarrow> cbs_len c2 \<le> cbs_len c')"
    if "cbs_len c' < cbs_len c" for d string_tag eoc depth c' s
    using less [OF that] by (simp add: cbs_convert_ber_def)
  consider "CBS_len c = 0" | c' where "CBS_len c > 0" "CBS_get_any_ber_asn1_element c = (None, c')"
    | contents tag hl c' where "CBS_len c > 0" "CBS_get_any_ber_asn1_element c = (Some (contents, tag, hl), c')"
    by (metis gr0I option.exhaust prod.collapse prod_cases3)
  then show ?case
  proof cases
    case (3 contents tag hl c')
    note item = convert_item [OF 3, of env d string_tag eoc depth s]
    note lt = ber_element_consumes [OF 3(2)]
    show ?thesis
    proof (cases "is_eoc hl contents")
      case True
      then show ?thesis using lt by (auto simp: item)
    next
      case not_eoc: False
      obtain ro s1 where o: "ber_out env d string_tag tag s = (ro, s1)" by fastforce
      show ?thesis
      proof (cases ro)
        case None
        then show ?thesis by (simp add: item not_eoc o)
      next
        case (Some x)
        then obtain od ct where x: "ro = Some (od, ct)" by (cases x) simp
        have "cbs_len (advance contents hl) < cbs_len c" using lt by auto
        from cv [OF this, of od ct False "depth + 1" s1] obtain r1 e1 t1
          where 1: "cbs_convert_ber env od ct False (depth + 1) (advance contents hl) s1 = Some (r1, e1, t1)" by blast
        from cv [of c' od ct True "depth + 1" s1] lt obtain r2 e2 t2
          where 2: "cbs_convert_ber env od ct True (depth + 1) c' s1 = Some (r2, e2, t2)" "r2 \<noteq> None \<longrightarrow> cbs_len e2 < cbs_len c" by auto
        have "\<exists>r c2 s2. convert_contents env od ct depth contents tag hl c' s1 = Some (r, c2, s2) \<and> (r \<noteq> None \<longrightarrow> cbs_len c2 < cbs_len c)"
          using lt 2(2) unfolding convert_contents_def CBS_skip_eq 2(1) by (simp add: 1 [simplified] split: prod.split)
        then obtain r c2 s2 where r: "convert_contents env od ct depth contents tag hl c' s1 = Some (r, c2, s2)"
          "r \<noteq> None \<longrightarrow> cbs_len c2 < cbs_len c" by blast
        obtain q s3 where q: "CBB_flush env d s2 = (q, s3)" by fastforce
        from r less [of c2 d string_tag eoc depth s3] show ?thesis
          by (cases r; cases q) (fastforce simp: item not_eoc o x q)+
      qed
    qed
  qed (simp_all add: convert_nil convert_bad)
qed

section \<open>The element reader on BER\<close>

abbreviation constructed :: "u32 \<Rightarrow> bool" where
  "constructed tag \<equiv> tag AND CBS_ASN1_CONSTRUCTED \<noteq> 0"

lemma length_byte_80: "(b :: u8) AND 0x80 \<noteq> 0 \<and> unat (b AND 0x7f) = 0 \<longleftrightarrow> b = 0x80"
proof
  assume "b AND 0x80 \<noteq> 0 \<and> unat (b AND 0x7f) = 0"
  then have "128 \<le> unat b" "unat b mod 128 = 0" by (simp_all add: and_80_zero unat_and_7f)
  then have "unat b = 128" using high_byte [of b] by linarith
  then show "b = 0x80" by (simp add: word_unat_eq_iff)
qed simp

lemma ber_element_split:
  "cbs_get_any_asn1_element c True =
     (case parse_asn1_tag c of
        (Some tag, h) \<Rightarrow>
          if 0 < cbs_len h \<and> cbs_data h ! 0 = 0x80 \<and> constructed tag
          then and_then (CBS_get_bytes c (cbs_len c - (cbs_len h - 1))) (\<lambda>out c'. (Some (out, tag, cbs_len c - (cbs_len h - 1)), c'))
          else cbs_get_any_asn1_element c False
      | (None, _) \<Rightarrow> cbs_get_any_asn1_element c False)"
proof (cases "parse_asn1_tag c")
  case (Pair r h)
  let ?b = "cbs_data h ! 0"
  have "?b AND 0x80 \<noteq> 0 \<Longrightarrow> (unat (?b AND 0x7f) = 0) = (?b = 0x80)" using length_byte_80 [of ?b] by blast
  then show ?thesis
    by (cases r) (auto simp: cbs_get_any_asn1_element_def Pair CBS_get_u8_advance CBS_len_def Let_def)
qed

lemma der_len_head: "n < 2 ^ 32 \<Longrightarrow> \<exists>b r. der_len n = b # r \<and> b \<noteq> 0x80"
proof -
  assume n: "n < 2 ^ 32"
  show ?thesis
  proof (cases "n < 128")
    case True
    then have "unat (of_nat n :: u8) \<noteq> 128" by (simp add: unat_of_nat_u8)
    then have "(of_nat n :: u8) \<noteq> 0x80" by auto
    then show ?thesis using True by (simp add: der_len_def)
  next
    case False
    have j: "1 \<le> len_octets n" "len_octets n \<le> 4" by (rule len_octets_bounds)+
    have "unat (of_nat (128 + len_octets n) :: u8) = 128 + len_octets n" using j by (intro unat_of_nat_less) simp
    then have "(of_nat (128 + len_octets n) :: u8) \<noteq> 0x80" using j by auto
    then show ?thesis using False by (simp add: der_len_def)
  qed
qed

lemma der_tag_prefix:
  assumes "der_tag t @ x = der_tag u @ y" and "length (der_tag t @ x) < SIZE_LIMIT"
  shows "t = u \<and> x = y"
  using asn1_tag.prefix_free [OF TrueI TrueI assms] .

lemma ber_element_definite:
  assumes wf: "wf_cbs c" and b: "length body < 2 ^ 32" and eq: "cbs_bytes c = der_element (t, body) @ rest"
  shows "CBS_get_any_ber_asn1_element c = CBS_get_any_asn1_element c"
proof -
  let ?h = "advance c (length (der_tag t))"
  have tag: "parse_asn1_tag c = (Some t, ?h)"
    using eq by (intro parse_asn1_tag_complete [OF wf]) (simp add: der_element_def)
  from der_len_head [OF b] obtain l r where l: "der_len (length body) = l # r" "l \<noteq> 0x80" by blast
  have "cbs_bytes ?h = l # r @ body @ rest" using eq l(1) by (simp add: der_element_def)
  then have "0 < cbs_len ?h \<longrightarrow> cbs_data ?h ! 0 = l" by (metis nth_data nth_Cons_0)
  then show ?thesis using l(2)
    by (auto simp: CBS_get_any_ber_asn1_element_def CBS_get_any_asn1_element_def ber_element_split tag)
qed

lemma ber_element_indefinite:
  assumes wf: "wf_cbs c" and t: "constructed t" and eq: "cbs_bytes c = der_tag t @ 0x80 # rest"
  defines "hl \<equiv> length (der_tag t) + 1"
  shows "CBS_get_any_ber_asn1_element c = (Some (CBS_init (cbs_data c) hl, t, hl), advance c hl)"
    and "is_indefinite (CBS_init (cbs_data c) hl) hl" and "\<not> is_eoc hl (CBS_init (cbs_data c) hl)"
    and "cbs_bytes (advance c hl) = rest"
proof -
  let ?h = "advance c (length (der_tag t))"
  have tag: "parse_asn1_tag c = (Some t, ?h)" by (rule parse_asn1_tag_complete [OF wf eq])
  have len: "cbs_len c = hl + length rest" using arg_cong [OF eq, of length] wf by (simp add: hl_def)
  have hb: "cbs_bytes ?h = 0x80 # rest" using eq by simp
  have h: "0 < cbs_len ?h" using len by (simp add: hl_def)
  have h: "0 < cbs_len ?h" "cbs_data ?h ! 0 = 0x80" using h nth_data [OF h] unfolding hb by (simp_all only: nth_Cons_0)
  have l: "cbs_len c - (cbs_len ?h - 1) = hl" using len by (simp add: hl_def)
  show "CBS_get_any_ber_asn1_element c = (Some (CBS_init (cbs_data c) hl, t, hl), advance c hl)"
    unfolding CBS_get_any_ber_asn1_element_def ber_element_split tag prod.case option.case l using h t len
    by (simp add: CBS_get_bytes_eq)
  have at: "cbs_data c ! i = (der_tag t @ 0x80 # rest) ! i" if "i < hl" for i
    using that len nth_data [of i c] by (simp add: eq)
  then show "is_indefinite (CBS_init (cbs_data c) hl) hl"
    by (simp add: is_indefinite_def CBS_len_def CBS_data_def hl_def)
  show "\<not> is_eoc hl (CBS_init (cbs_data c) hl)"
  proof
    assume e: "is_eoc hl (CBS_init (cbs_data c) hl)"
    then have hl2: "hl = 2" by (simp add: is_eoc_def)
    have "2 \<le> length (cbs_data c)" using wf len hl2 by (simp add: wf_cbs_def)
    then obtain a b ds where d: "cbs_data c = a # b # ds" by (metis One_nat_def Suc_1 Suc_le_length_iff)
    have "length (der_tag t) = 1" using hl2 by (simp add: hl_def)
    then have "b = 0x80" using at [of 1] d by (cases "der_tag t") (simp_all add: hl_def)
    have "OPENSSL_memcmp (cbs_data c) [0, 0, 0] (Suc (Suc 0)) = 0"
      using e by (simp add: is_eoc_def CBS_data_def flip: numeral_2_eq_2)
    then show False unfolding OPENSSL_memcmp_def d \<open>b = 0x80\<close> by (simp split: if_splits)
  qed
  show "cbs_bytes (advance c hl) = rest" using eq by (simp add: hl_def)
qed

text \<open>What a successful read has seen, and what the tests on it mean.\<close>

lemma der_tag_zero: "der_tag t = [0] \<longleftrightarrow> t = 0"
proof
  have z: "der_tag 0 = [0]" by (simp add: der_tag_def Let_def)
  then show "t = 0 \<Longrightarrow> der_tag t = [0]" by simp
  show "t = 0" if "der_tag t = [0]"
    using der_tag_prefix [of t "[]" 0 "[]"] that z by (simp add: SIZE_LIMIT_def)
qed

lemma definite_tests:
  assumes wf: "wf_cbs c" and b: "length body < 2 ^ 32" and eq: "cbs_bytes c = der_element (t, body) @ rest"
  defines "el \<equiv> CBS_init (cbs_data c) (length (der_element (t, body)))" and "hl \<equiv> length (der_element (t, body)) - length body"
  shows "\<not> is_indefinite el hl" and "is_eoc hl el \<longleftrightarrow> t = 0 \<and> body = []" and "CBS_skip el hl = (Some (), advance el hl)"
    and "wf_cbs (advance el hl)" and "cbs_bytes (advance el hl) = body"
proof -
  let ?e = "der_element (t, body)"
  have el: "hl \<le> cbs_len el" "wf_cbs (advance el hl)" "cbs_bytes (advance el hl) = body"
    using element_body [OF wf eq] by (simp_all only: el_def hl_def)
  then show "CBS_skip el hl = (Some (), advance el hl)" "wf_cbs (advance el hl)" "cbs_bytes (advance el hl) = body"
    by (simp_all add: CBS_skip_eq)
  have le: "length ?e \<le> cbs_len c" using arg_cong [OF eq, of length] wf by simp
  then have ed: "take (length ?e) (cbs_data c) = ?e" using eq by (simp add: take_data)
  have hd: "?e = der_tag t @ der_len (length body) @ body" by (simp add: der_element_def)
  have empty: "?e = der_tag t @ [0]" if "body = []" using that by (simp add: der_element_def der_len_def)
  show "\<not> is_indefinite el hl"
  proof
    assume i: "is_indefinite el hl"
    then have "length ?e = length ?e - length body" by (simp add: is_indefinite_def CBS_len_def el_def hl_def)
    moreover have "length body < length ?e" unfolding hd by (simp add: der_len_def)
    ultimately have "length body = 0" by linarith
    then have "body = []" by simp
    note e = empty [OF this]
    have "cbs_data c ! (length ?e - 1) = take (length ?e) (cbs_data c) ! (length ?e - 1)" using e by simp
    also have "\<dots> = 0" unfolding ed unfolding e by (simp add: nth_append)
    finally show False using i by (simp add: is_indefinite_def CBS_len_def CBS_data_def el_def)
  qed
  show "is_eoc hl el \<longleftrightarrow> t = 0 \<and> body = []"
  proof
    assume e: "is_eoc hl el"
    then have l: "length ?e = 2" "hl = 2" by (simp_all add: is_eoc_def CBS_len_def el_def)
    have "length body = 0" using l unfolding hl_def by linarith
    note l = l(1) this [unfolded length_0_conv]
    have "libc_memcmp (take 2 (cbs_data c)) (take 2 [0, 0, 0]) 2 = 0"
      using e unfolding libc_memcmp_take by (simp add: is_eoc_def OPENSSL_memcmp_def CBS_data_def el_def)
    moreover have "length (take 2 (cbs_data c)) = 2" using ed l(1) by (metis)
    ultimately have "?e = [0, 0]" using ed l(1) libc_memcmp_zero [of 2 "take 2 (cbs_data c)" "take 2 [0, 0, 0 :: u8]"] by (simp add: eval_nat_numeral)
    then have "der_tag t = [0]" using empty [OF l(2)] by simp
    then show "t = 0 \<and> body = []" using l(2) der_tag_zero by simp
  next
    assume t: "t = 0 \<and> body = []"
    then have e: "?e = [0, 0]" using empty der_tag_zero [of t] by simp
    then have "take (Suc (Suc 0)) (cbs_data c) = [0, 0]" using ed by simp
    then have "take 2 (cbs_data c) = [0, 0]" unfolding numeral_2_eq_2 .
    then have "libc_memcmp (cbs_data c) [0, 0, 0] 2 = 0"
      using libc_memcmp_take [of 2 "cbs_data c" "[0, 0, 0]"] by (simp add: eval_nat_numeral)
    then show "is_eoc hl el" using e t by (simp add: is_eoc_def OPENSSL_memcmp_def CBS_len_def CBS_data_def el_def hl_def)
  qed
qed

lemma ber_element_sound:
  assumes wf: "wf_cbs c" and ok: "CBS_get_any_ber_asn1_element c = (Some (el, t, hl), c')"
  shows "(constructed t \<and> cbs_bytes c = der_tag t @ 0x80 # cbs_bytes c' \<and> wf_cbs c' \<and> is_indefinite el hl \<and> \<not> is_eoc hl el) \<or>
    (\<exists>body. length body < 2 ^ 32 \<and> cbs_bytes c = der_element (t, body) @ cbs_bytes c' \<and> wf_cbs c' \<and>
       el = CBS_init (cbs_data c) (length (der_element (t, body))) \<and> hl = length (der_element (t, body)) - length body)"
proof (cases "CBS_get_any_ber_asn1_element c = CBS_get_any_asn1_element c")
  case True
  then have "CBS_get_any_asn1_element c = (Some (el, t, hl), c')" using ok by simp
  from element_sound [OF wf this] wf show ?thesis by (metis wf_advance)
next
  case False
  then obtain u h where tag: "parse_asn1_tag c = (Some u, h)" and h: "0 < cbs_len h" "cbs_data h ! 0 = 0x80" "constructed u"
    by (auto simp: CBS_get_any_ber_asn1_element_def CBS_get_any_asn1_element_def ber_element_split split: prod.splits option.splits if_splits)
  from parse_asn1_tag_sound [OF wf tag] have "h = advance c (length (der_tag u)) \<and> cbs_bytes c = der_tag u @ cbs_bytes h" .
  then have wh: "wf_cbs h" and eq: "cbs_bytes c = der_tag u @ cbs_bytes h" using wf by (metis wf_advance)+
  have "cbs_bytes h = 0x80 # drop 1 (cbs_bytes h)" using first_byte [OF wh h(1)] h nth_data [OF h(1)] by metis
  then have eq: "cbs_bytes c = der_tag u @ 0x80 # drop 1 (cbs_bytes h)" using eq by simp
  note i = ber_element_indefinite [OF wf h(3) eq]
  have "el = CBS_init (cbs_data c) (length (der_tag u) + 1)" "t = u" "hl = length (der_tag u) + 1"
    "c' = advance c (length (der_tag u) + 1)" using ok unfolding i(1) by auto
  then show ?thesis using i(2-4) h(3) eq wf by (metis wf_advance)
qed

section \<open>The conversion as a relation\<close>

text \<open>
  Inside a constructed string, \<open>st\<close> is the tag of its fragments (0 outside) and only contents are
  kept; \<open>k\<close> bounds the nesting.
\<close>

definition ber_tag_ok :: "u32 \<Rightarrow> u32 \<Rightarrow> bool" where
  "ber_tag_ok st tag \<longleftrightarrow> (st \<noteq> 0 \<longrightarrow> tag AND NOT CBS_ASN1_CONSTRUCTED = st)"

definition ber_tag :: "u32 \<Rightarrow> u32" where
  "ber_tag tag = (if constructed tag \<and> is_string_type tag then tag AND NOT CBS_ASN1_CONSTRUCTED else tag)"

definition ber_child :: "u32 \<Rightarrow> u32 \<Rightarrow> u32" where
  "ber_child st tag = (if st \<noteq> 0 then st else if constructed tag \<and> is_string_type tag then ber_tag tag else 0)"

definition ber_emit :: "u32 \<Rightarrow> u32 \<Rightarrow> bytes \<Rightarrow> bytes" where
  "ber_emit st tag body = (if st \<noteq> 0 then body else der_element (ber_tag tag, body))"

definition ber_fits :: "u32 \<Rightarrow> bytes \<Rightarrow> bool" where
  "ber_fits st body \<longleftrightarrow> (st = 0 \<longrightarrow> length body \<le> 0xfffffffe)"

inductive ber_der :: "nat \<Rightarrow> u32 \<Rightarrow> bytes \<Rightarrow> bytes \<Rightarrow> bool" where
  nil: "ber_der k st [] []"
| primitive: "\<not> constructed tag \<Longrightarrow> ber_tag_ok st tag \<Longrightarrow> (tag, body) \<noteq> (0, []) \<Longrightarrow> length body < 2 ^ 32 \<Longrightarrow> ber_fits st body \<Longrightarrow>
    ber_der k st rest out \<Longrightarrow> ber_der k st (der_element (tag, body) @ rest) (ber_emit st tag body @ out)"
| definite: "constructed tag \<Longrightarrow> ber_tag_ok st tag \<Longrightarrow> length body < 2 ^ 32 \<Longrightarrow> ber_fits st conv \<Longrightarrow>
    ber_der k (ber_child st tag) body conv \<Longrightarrow> ber_der (Suc k) st rest out \<Longrightarrow>
    ber_der (Suc k) st (der_element (tag, body) @ rest) (ber_emit st tag conv @ out)"
| indefinite: "constructed tag \<Longrightarrow> ber_tag_ok st tag \<Longrightarrow> ber_fits st conv \<Longrightarrow>
    ber_der k (ber_child st tag) body conv \<Longrightarrow> ber_der (Suc k) st rest out \<Longrightarrow>
    ber_der (Suc k) st (der_tag tag @ 0x80 # body @ [0, 0] @ rest) (ber_emit st tag conv @ out)"

section \<open>One element\<close>

lemma flush_single: "length ls = Suc d \<Longrightarrow> flush_levels d ls = Some ls"
proof -
  assume l: "length ls = Suc d"
  then have "ls \<noteq> []" by auto
  then have "drop d ls = [ls ! d]" "ls = take d ls @ [ls ! d]"
    using l by (simp_all add: Cons_nth_drop_Suc [symmetric]) (metis lessI take_Suc_conv_app_nth take_all_iff order_refl)
  then show ?thesis by (cases "ls ! d") (simp add: flush_levels_def)
qed

lemma append_none: "length ls = Suc d \<Longrightarrow> append_levels d [] ls = Some ls"
  by (cases ls rule: rev_cases) (simp_all add: append_levels_def flush_single)

lemma append_then: "append_levels d x ls = Some ls1 \<Longrightarrow> append_levels d y ls1 = append_levels d (x @ y) ls"
  using append_append [of d x ls y] by simp

definition idle :: "nat \<Rightarrow> cbb_state \<Rightarrow> bool" where
  "idle d s \<longleftrightarrow> wf_cbb s \<and> \<not> cbb_failed s \<and> length (cbb_frames s) = Suc d"

lemma idle_levels: "idle d s \<Longrightarrow> length (cbb_abs s) = Suc d"
  by (simp add: idle_def frames_wf)

lemma ber_out_st: "st \<noteq> 0 \<Longrightarrow> ber_out env d st tag s = (if ber_tag_ok st tag then (Some (d, ber_child st tag), s) else (None, s))"
  by (simp add: ber_out_def ber_tag_ok_def ber_child_def)

lemma ber_out_0: "ber_out env d 0 tag s = and_then (CBB_add_asn1 env d (ber_tag tag) s) (\<lambda>_ s. (Some (Suc d, ber_child 0 tag), s))"
  by (simp add: ber_out_def ber_tag_def ber_child_def Let_def)

text \<open>Opening an element, writing its contents and closing it again appends it.\<close>

lemma ber_step:
  assumes s: "idle d s" and o: "ber_out env d st tag s = (Some (od, ct), s1)"
  shows "ber_tag_ok st tag" "ct = ber_child st tag" "idle od s1" "cbb_extends s s1"
    and "idle od s2 \<Longrightarrow> append_levels od x (cbb_abs s1) = Some (cbb_abs s2) \<Longrightarrow> CBB_flush env d s2 = (Some u, s3) \<Longrightarrow>
      idle d s3 \<and> ber_fits st x \<and> append_levels d (ber_emit st tag x) (cbb_abs s) = Some (cbb_abs s3)"
proof -
  have d: "wf_cbb s" "d < length (cbb_frames s)" using s by (simp_all add: idle_def)
  have "ber_tag_ok st tag \<and> ct = ber_child st tag \<and> idle od s1 \<and> cbb_extends s s1 \<and>
      (idle od s2 \<longrightarrow> append_levels od x (cbb_abs s1) = Some (cbb_abs s2) \<longrightarrow> CBB_flush env d s2 = (Some u, s3) \<longrightarrow>
      idle d s3 \<and> ber_fits st x \<and> append_levels d (ber_emit st tag x) (cbb_abs s) = Some (cbb_abs s3))"
  proof (cases "st = 0")
    case False
    then have r: "ber_tag_ok st tag" "od = d" "ct = ber_child st tag" "s1 = s"
      using o by (simp_all add: ber_out_st split: if_splits)
    moreover have "CBB_flush env d s2 = (Some (), s2)" if "idle d s2" using that by (intro flush_idle) (simp_all add: idle_def)
    moreover have "cbb_extends s s" using d(1) by (auto simp: cbb_extends_def wf_cbb_def split: option.splits)
    ultimately show ?thesis using s False by (auto simp: ber_fits_def ber_emit_def)
  next
    case True
    then have a: "CBB_add_asn1 env d (ber_tag tag) s = (Some (), s1)" and r: "od = Suc d" "ct = ber_child 0 tag"
      using o by (auto simp: ber_out_0 and_then_Some)
    from builder_call.refines [OF asn1_call d a] have s1: "wf_cbb s1" "\<not> cbb_failed s1" "cbb_extends s s1"
      "asn1_levels d (ber_tag tag) (cbb_abs s) = Some (cbb_abs s1)" by simp_all
    have "idle od s1" using s1 asn1_length [OF s1(4)] frames_wf [OF s1(1)] r by (simp add: idle_def)
    moreover have "idle d s3 \<and> ber_fits st x \<and> append_levels d (ber_emit st tag x) (cbb_abs s) = Some (cbb_abs s3)"
      if s2: "idle od s2" "append_levels od x (cbb_abs s1) = Some (cbb_abs s2)" and f: "CBB_flush env d s2 = (Some u, s3)"
    proof -
      have d2: "wf_cbb s2" "d < length (cbb_frames s2)" using s2(1) r by (simp_all add: idle_def)
      note fl = flush.refines [OF d2, of env s3]
      have "append_option d (element_bytes (ber_tag tag) x) (cbb_abs s) = Some (cbb_abs s3)"
        using element_levels [of d "ber_tag tag" "cbb_abs s" x] s1(4) s2(2) fl f r by (simp add: append_option_def)
      then show ?thesis using fl f flushed_frames [OF d2, of env s3] True
        by (auto simp: element_bytes_def append_option_def ber_emit_def ber_fits_def idle_def split: if_splits)
    qed
    ultimately show ?thesis using True r s1 by (simp add: ber_tag_ok_def)
  qed
  then show "ber_tag_ok st tag" "ct = ber_child st tag" "idle od s1" "cbb_extends s s1"
    "idle od s2 \<Longrightarrow> append_levels od x (cbb_abs s1) = Some (cbb_abs s2) \<Longrightarrow> CBB_flush env d s2 = (Some u, s3) \<Longrightarrow>
      idle d s3 \<and> ber_fits st x \<and> append_levels d (ber_emit st tag x) (cbb_abs s) = Some (cbb_abs s3)" by blast+
qed

section \<open>What the conversion does\<close>

abbreviation eoc_bytes :: "bool \<Rightarrow> bytes" where
  "eoc_bytes eoc \<equiv> if eoc then [0, 0] else []"

definition convert_post :: "nat \<Rightarrow> u32 \<Rightarrow> bool \<Rightarrow> nat \<Rightarrow> cbs_st \<Rightarrow> cbb_state \<Rightarrow> cbs_st \<Rightarrow> cbb_state \<Rightarrow> bool" where
  "convert_post d st eoc depth c s c' s' \<longleftrightarrow>
     (\<exists>body out. ber_der (kMaxDepth - depth) st body out \<and> cbs_bytes c = body @ eoc_bytes eoc @ cbs_bytes c' \<and>
      (\<not> eoc \<longrightarrow> cbs_bytes c' = []) \<and> wf_cbs c' \<and> idle d s' \<and> append_levels d out (cbb_abs s) = Some (cbb_abs s'))"

text \<open>The contents of one element, given that nested conversions are right.\<close>

lemma contents_sound:
  assumes IH: "\<And>d st eoc depth c' s c2 s2 u. cbs_len c' < cbs_len c \<Longrightarrow>
      convert_loop env d st eoc depth c' s = Some (Some u, c2, s2) \<Longrightarrow> wf_cbs c' \<Longrightarrow> idle d s \<Longrightarrow> depth \<le> kMaxDepth \<Longrightarrow>
      convert_post d st eoc depth c' s c2 s2"
    and c: "wf_cbs c" "CBS_get_any_ber_asn1_element c = (Some (contents, tag, hl), e)" "\<not> is_eoc hl contents"
    and o: "ber_tag_ok st tag" "idle od s1" "depth \<le> kMaxDepth"
    and conv: "convert_contents env od (ber_child st tag) depth contents tag hl e s1 = Some (Some u, c2, s2)"
  shows "\<exists>x item. idle od s2 \<and> wf_cbs c2 \<and> cbs_len c2 < cbs_len c \<and> append_levels od x (cbb_abs s1) = Some (cbb_abs s2) \<and>
    cbs_bytes c = item @ cbs_bytes c2 \<and>
    (\<forall>rest out. ber_fits st x \<longrightarrow> ber_der (kMaxDepth - depth) st rest out \<longrightarrow>
       ber_der (kMaxDepth - depth) st (item @ rest) (ber_emit st tag x @ out))"
proof -
  note lt = ber_element_consumes [OF c(2)]
  have deep: "kMaxDepth - depth = Suc (kMaxDepth - (depth + 1))" if "depth + 1 \<le> kMaxDepth" using that by simp
  have len: "cbs_len c2 < cbs_len c" if "cbs_bytes c = item @ cbs_bytes c2" "item \<noteq> []" "wf_cbs c2" for item
    using arg_cong [OF that(1), of length] that(2,3) c(1) by (cases item) simp_all
  consider "constructed tag" "cbs_bytes c = der_tag tag @ 0x80 # cbs_bytes e" "wf_cbs e" "is_indefinite contents hl"
    | body where "length body < 2 ^ 32" "cbs_bytes c = der_element (tag, body) @ cbs_bytes e" "wf_cbs e"
       "contents = CBS_init (cbs_data c) (length (der_element (tag, body)))" "hl = length (der_element (tag, body)) - length body"
    using ber_element_sound [OF c(1,2)] by blast
  then show ?thesis
  proof cases
    case 1
    then have d: "depth + 1 \<le> kMaxDepth" and l: "convert_loop env od (ber_child st tag) True (depth + 1) e s1 = Some (Some u, c2, s2)"
      using conv by (auto simp: convert_contents_def cbs_convert_ber_def split: if_splits)
    from IH [OF _ l 1(3) o(2) d] lt obtain body x where
      r: "ber_der (kMaxDepth - (depth + 1)) (ber_child st tag) body x" "cbs_bytes e = body @ [0, 0] @ cbs_bytes c2" "wf_cbs c2" "idle od s2"
        "append_levels od x (cbb_abs s1) = Some (cbb_abs s2)" by (auto simp: convert_post_def)
    let ?item = "der_tag tag @ 0x80 # body @ [0, 0]"
    have eq: "cbs_bytes c = ?item @ cbs_bytes c2" using 1(2) r(2) by simp
    have "ber_der (kMaxDepth - depth) st (?item @ rest) (ber_emit st tag x @ out)"
      if "ber_fits st x" "ber_der (kMaxDepth - depth) st rest out" for rest out
      using ber_der.indefinite [OF 1(1) o(1) that(1) r(1)] that(2) unfolding deep [OF d] by simp
    with r eq len [OF eq] show ?thesis by blast
  next
    case (2 body)
    note t = definite_tests [OF c(1) 2(1,2), folded 2(4,5)]
    have eq: "cbs_bytes c = der_element (tag, body) @ cbs_bytes e" by (rule 2(2))
    have ne: "der_element (tag, body) \<noteq> []" by (simp add: der_element_def der_len_def)
    show ?thesis
    proof (cases "constructed tag")
      case True
      then have d: "depth + 1 \<le> kMaxDepth" and c2: "c2 = e"
        and l: "\<exists>e'. convert_loop env od (ber_child st tag) False (depth + 1) (advance contents hl) s1 = Some (Some u, e', s2)"
        using conv t(1,3) by (auto simp: convert_contents_def cbs_convert_ber_def bind_eq_Some_conv split: if_splits)
      then obtain e' where l: "convert_loop env od (ber_child st tag) False (depth + 1) (advance contents hl) s1 = Some (Some u, e', s2)" by blast
      have "cbs_len (advance contents hl) < cbs_len c" using lt by auto
      from IH [OF this l t(4) o(2) d] obtain x where
        r: "ber_der (kMaxDepth - (depth + 1)) (ber_child st tag) body x" "idle od s2" "append_levels od x (cbb_abs s1) = Some (cbb_abs s2)"
        unfolding convert_post_def t(5) by auto
      have "ber_der (kMaxDepth - depth) st (der_element (tag, body) @ rest) (ber_emit st tag x @ out)"
        if "ber_fits st x" "ber_der (kMaxDepth - depth) st rest out" for rest out
        using ber_der.definite [OF True o(1) 2(1) that(1) r(1)] that(2) unfolding deep [OF d] by simp
      with r 2(3) eq len [OF _ ne] show ?thesis unfolding c2 by blast
    next
      case False
      then have c2: "c2 = e" and a: "CBB_add_bytes env od (CBS_data (advance contents hl)) (CBS_len (advance contents hl)) s1 = (Some (), s2)"
        using conv t(1,3) by (auto simp: convert_contents_def split: prod.splits)
      have small: "cbs_len (advance contents hl) < PTRDIFF_LIMIT"
        using 2(1) length_cbs_bytes [OF t(4)] unfolding t(5) by (simp add: PTRDIFF_LIMIT_def)
      have d: "wf_cbb s1" "od < length (cbb_frames s1)" using o(2) by (simp_all add: idle_def)
      from builder_call.refines [OF child_call [OF t(4) small] d a]
      have r: "wf_cbb s2" "\<not> cbb_failed s2" "append_levels od body (cbb_abs s1) = Some (cbb_abs s2)"
        unfolding t(5) by (simp_all add: append_option_def)
      then have i: "idle od s2" using append_length [OF r(3)] frames_wf [OF r(1)] by (simp add: idle_def)
      have ne0: "(tag, body) \<noteq> (0, [])" using t(2) c(3) by simp
      have "ber_der (kMaxDepth - depth) st (der_element (tag, body) @ rest) (ber_emit st tag body @ out)"
        if "ber_fits st body" "ber_der (kMaxDepth - depth) st rest out" for rest out
        using False by (intro ber_der.primitive [OF _ o(1) ne0 2(1) that]) simp
      with r(3) i 2(3) eq len [OF _ ne] show ?thesis unfolding c2 by blast
    qed
  qed
qed

lemma convert_sound:
  "convert_loop env d st eoc depth c s = Some (Some u, c', s') \<Longrightarrow> wf_cbs c \<Longrightarrow> idle d s \<Longrightarrow> depth \<le> kMaxDepth \<Longrightarrow>
    convert_post d st eoc depth c s c' s'"
proof (induction "cbs_len c" arbitrary: d st eoc depth c s c' s' u rule: less_induct)
  case less
  note wf = less(3)
  consider "CBS_len c = 0" | e where "CBS_len c > 0" "CBS_get_any_ber_asn1_element c = (None, e)"
    | contents tag hl e where "CBS_len c > 0" "CBS_get_any_ber_asn1_element c = (Some (contents, tag, hl), e)"
    by (metis gr0I option.exhaust prod.collapse prod_cases3)
  then show ?case
  proof cases
    case 1
    then have "\<not> eoc" "c' = c" "s' = s" using less(2) by (simp_all add: convert_nil split: if_splits)
    moreover have "cbs_bytes c = []" using 1 by (simp add: cbs_bytes_def CBS_len_def)
    ultimately show ?thesis using wf less(4) append_none [OF idle_levels] ber_der.nil unfolding convert_post_def by fastforce
  next
    case 2
    then show ?thesis using less(2) by (simp add: convert_bad)
  next
    case (3 contents tag hl e)
    note item = less(2) [unfolded convert_item [OF 3]]
    note el = ber_element_sound [OF wf 3(2)]
    note lt = ber_element_consumes [OF 3(2)]
    show ?thesis
    proof (cases "is_eoc hl contents")
      case True
      then have eoc: "eoc" "c' = e" "s' = s" using item by (simp_all split: if_splits)
      from el True obtain body where b: "length body < 2 ^ 32" "cbs_bytes c = der_element (tag, body) @ cbs_bytes e" "wf_cbs e"
        "contents = CBS_init (cbs_data c) (length (der_element (tag, body)))" "hl = length (der_element (tag, body)) - length body" by blast
      have "tag = 0 \<and> body = []" using definite_tests(2) [OF wf b(1,2)] True b(4,5) by blast
      then have "cbs_bytes c = [] @ [0, 0] @ cbs_bytes e" using b(2) der_tag_zero [of tag] by (simp add: der_element_def der_len_def)
      then show ?thesis using eoc b(3) less(4) append_none [OF idle_levels [OF less(4)]] ber_der.nil unfolding convert_post_def by fastforce
    next
      case not_eoc: False
      then obtain od ct s1 where o: "ber_out env d st tag s = (Some (od, ct), s1)"
        using item by (cases "ber_out env d st tag s"; cases "fst (ber_out env d st tag s)") auto
      note step = ber_step [OF less(4) o]
      obtain q c2 s2 where conv: "convert_contents env od ct depth contents tag hl e s1 = Some (q, c2, s2)"
        using item not_eoc o by (cases "convert_contents env od ct depth contents tag hl e s1") auto
      then obtain v where q: "q = Some v" using item not_eoc o by (cases q) simp_all
      obtain f s3 where f: "CBB_flush env d s2 = (f, s3)" by fastforce
      then obtain w where w: "f = Some w" using item not_eoc o conv q by (cases f) simp_all
      have tail: "convert_loop env d st eoc depth c2 s3 = Some (Some u, c', s')" using item not_eoc o conv q f w by simp
      have tag: "ber_tag_ok st tag" "ct = ber_child st tag" by (rule step)+
      have contents: "\<exists>x item. idle od s2 \<and> wf_cbs c2 \<and> cbs_len c2 < cbs_len c \<and> append_levels od x (cbb_abs s1) = Some (cbb_abs s2) \<and>
          cbs_bytes c = item @ cbs_bytes c2 \<and>
          (\<forall>rest out. ber_fits st x \<longrightarrow> ber_der (kMaxDepth - depth) st rest out \<longrightarrow>
             ber_der (kMaxDepth - depth) st (item @ rest) (ber_emit st tag x @ out))"
        by (rule contents_sound [OF _ wf 3(2) not_eoc tag(1) step(3) less(5) conv [unfolded q tag(2)]]) (rule less(1))
      from contents obtain x item where x: "idle od s2" "wf_cbs c2" "cbs_len c2 < cbs_len c" "append_levels od x (cbb_abs s1) = Some (cbb_abs s2)"
          "cbs_bytes c = item @ cbs_bytes c2"
        and more: "ber_fits st x \<Longrightarrow> ber_der (kMaxDepth - depth) st rest out \<Longrightarrow>
             ber_der (kMaxDepth - depth) st (item @ rest) (ber_emit st tag x @ out)" for rest out by blast
      have s3: "idle d s3 \<and> ber_fits st x \<and> append_levels d (ber_emit st tag x) (cbb_abs s) = Some (cbb_abs s3)"
        using step(5) [OF x(1,4)] f w by blast
      from less(1) [OF x(3) tail x(2) conjunct1 [OF s3] less(5), unfolded convert_post_def] obtain body out where
        t: "ber_der (kMaxDepth - depth) st body out" "cbs_bytes c2 = body @ eoc_bytes eoc @ cbs_bytes c'"
          "\<not> eoc \<longrightarrow> cbs_bytes c' = []" "wf_cbs c'" "idle d s'" "append_levels d out (cbb_abs s3) = Some (cbb_abs s')" by blast
      have "append_levels d (ber_emit st tag x @ out) (cbb_abs s) = Some (cbb_abs s')"
        using s3 t(6) append_then [of d "ber_emit st tag x" "cbb_abs s" "cbb_abs s3" out] by simp
      moreover have "ber_der (kMaxDepth - depth) st (item @ body) (ber_emit st tag x @ out)" using more t(1) s3 by blast
      moreover have "cbs_bytes c = (item @ body) @ eoc_bytes eoc @ cbs_bytes c'" using x(5) t(2) by simp
      ultimately show ?thesis using t(3-5) unfolding convert_post_def by blast
    qed
  qed
qed

section \<open>What it accepts\<close>

lemma append_exists: "length ls = Suc d \<Longrightarrow> \<exists>ls1. append_levels d x ls = Some ls1"
  by (simp add: append_levels_def flush_single)

lemma append_grows: "append_levels d x ls = Some ls1 \<Longrightarrow> level_size ls \<le> level_size ls1"
  using append_levels_size [of d x ls ls1] flush_levels_grows [of d ls] by fastforce

lemma ber_room:
  assumes s: "idle d s" and t: "ber_tag_ok st tag" "ber_fits st x"
    and ls: "append_levels d (ber_emit st tag x @ out) (cbb_abs s) = Some ls" "level_size ls \<le> cbb_cap s"
  shows "\<exists>od s1 l2. ber_out env d st tag s = (Some (od, ber_child st tag), s1) \<and> idle od s1 \<and>
    append_levels od x (cbb_abs s1) = Some l2 \<and> level_size l2 \<le> cbb_cap s1 \<and>
    (\<forall>s2. idle od s2 \<longrightarrow> cbb_abs s2 = l2 \<longrightarrow> cbb_extends s1 s2 \<longrightarrow>
      (\<exists>s3. CBB_flush env d s2 = (Some (), s3) \<and> idle d s3 \<and> cbb_extends s s3 \<and> append_levels d out (cbb_abs s3) = Some ls))"
proof -
  have d: "wf_cbb s" "d < length (cbb_frames s)" "\<not> cbb_failed s" using s by (simp_all add: idle_def)
  obtain lE where lE: "append_levels d (ber_emit st tag x) (cbb_abs s) = Some lE" using append_exists [OF idle_levels [OF s]] by blast
  have out: "append_levels d out lE = Some ls" using append_then [OF lE, of out] ls(1) by simp
  then have size: "level_size lE \<le> cbb_cap s" using append_grows [OF out] ls(2) by simp
  show ?thesis
  proof (cases "st = 0")
    case False
    then have "append_levels d x (cbb_abs s) = Some lE" using lE by (simp add: ber_emit_def)
    moreover have "CBB_flush env d s2 = (Some (), s2)" if "idle d s2" for s2 using that by (intro flush_idle) (simp_all add: idle_def)
    ultimately show ?thesis using s size out False t(1) by (auto simp: ber_out_st)
  next
    case True
    let ?t = "ber_tag tag"
    have "element_bytes ?t x = Some (ber_emit st tag x)" using t(2) True by (simp add: element_bytes_def ber_fits_def ber_emit_def)
    then have "Option.bind (asn1_levels d ?t (cbb_abs s)) (\<lambda>ls. Option.bind (append_option (Suc d) (Some x) ls) (flush_levels d)) = Some lE"
      unfolding element_levels using lE by (simp add: append_option_def)
    then obtain l1 l2 where l: "asn1_levels d ?t (cbb_abs s) = Some l1" "append_levels (Suc d) x l1 = Some l2" "flush_levels d l2 = Some lE"
      by (auto simp: bind_eq_Some_conv append_option_def)
    have sz: "level_size l1 \<le> level_size l2" "level_size l2 \<le> level_size lE"
      using append_grows [OF l(2)] flush_levels_grows [OF l(3)] by simp_all
    then have "fst (CBB_add_asn1 env d ?t s) = Some ()" using builder_call.fits [OF asn1_call d l(1), of env] size by simp
    then obtain s1 where a: "CBB_add_asn1 env d ?t s = (Some (), s1)" by (metis prod.collapse)
    from builder_call.refines [OF asn1_call d(1,2) a] l(1) have s1: "wf_cbb s1" "\<not> cbb_failed s1" "cbb_extends s s1" "cbb_abs s1 = l1" by simp_all
    have i1: "idle (Suc d) s1" using s1 asn1_length [OF l(1)] frames_wf [OF s1(1)] by (simp add: idle_def)
    have cap: "cbb_cap s \<le> cbb_cap s1" by (rule cbb_extends_cap [OF s1(3)])
    have fl: "\<exists>s3. CBB_flush env d s2 = (Some (), s3) \<and> idle d s3 \<and> cbb_extends s s3 \<and> append_levels d out (cbb_abs s3) = Some ls"
      if s2: "idle (Suc d) s2" "cbb_abs s2 = l2" "cbb_extends s1 s2" for s2
    proof -
      have d2: "wf_cbb s2" "d < length (cbb_frames s2)" "\<not> cbb_failed s2" using s2(1) by (simp_all add: idle_def)
      have "level_size lE \<le> cbb_cap s2" using size cap cbb_extends_cap [OF s2(3)] by simp
      then have "fst (CBB_flush env d s2) = Some ()" using flush.fits [OF d2, of lE] l(3) s2(2) by simp
      then obtain s3 where s3: "CBB_flush env d s2 = (Some (), s3)" by (metis prod.collapse)
      have "cbb_extends s s2" by (rule cbb_extends_trans [OF s1(3) s2(3)])
      then show ?thesis using flush.refines [OF d2(1,2) s3] flushed_frames [OF d2(1,2) s3] s3 l(3) s2(2) out cbb_extends_trans
        by (auto simp: idle_def)
    qed
    have o: "ber_out env d st tag s = (Some (Suc d, ber_child st tag), s1)" using a True by (simp add: ber_out_0)
    have l2: "append_levels (Suc d) x (cbb_abs s1) = Some l2" "level_size l2 \<le> cbb_cap s1" using l(2) s1(4) sz size cap by simp_all
    show ?thesis
      by (rule exI [of _ "Suc d"], rule exI [of _ s1], rule exI [of _ l2]) (intro conjI o i1 l2 allI impI fl)
  qed
qed

text \<open>One turn of the loop, once the contents are converted.\<close>

lemma convert_turn:
  assumes "0 < CBS_len c" and "CBS_get_any_ber_asn1_element c = (Some (el, tag, hl), e)" and "\<not> is_eoc hl el"
    and "ber_out env d st tag s = (Some (od, ct), s1)"
    and "convert_contents env od ct depth el tag hl e s1 = Some (Some u, c2, s2)" and "CBB_flush env d s2 = (Some v, s3)"
  shows "convert_loop env d st eoc depth c s = convert_loop env d st eoc depth c2 s3"
  using assms by (simp add: convert_item)

definition convert_ok :: "mem_env \<Rightarrow> nat \<Rightarrow> u32 \<Rightarrow> bool \<Rightarrow> nat \<Rightarrow> cbs_st \<Rightarrow> cbb_state \<Rightarrow> bytes \<Rightarrow> levels \<Rightarrow> bool" where
  "convert_ok env d st eoc depth c s rest ls \<longleftrightarrow>
     (\<exists>c' s'. convert_loop env d st eoc depth c s = Some (Some (), c', s') \<and> wf_cbs c' \<and> cbs_bytes c' = rest \<and>
       idle d s' \<and> cbb_abs s' = ls \<and> cbb_extends s s')"

lemma definite_read:
  assumes "wf_cbs c" and "length body < 2 ^ 32" and "cbs_bytes c = der_element (t, body) @ rest"
  shows "CBS_get_any_ber_asn1_element c =
      (Some (CBS_init (cbs_data c) (length (der_element (t, body))), t, length (der_element (t, body)) - length body),
       advance c (length (der_element (t, body))))"
    and "0 < CBS_len c" and "cbs_bytes (advance c (length (der_element (t, body)))) = rest"
proof -
  show "CBS_get_any_ber_asn1_element c =
      (Some (CBS_init (cbs_data c) (length (der_element (t, body))), t, length (der_element (t, body)) - length body),
       advance c (length (der_element (t, body))))"
    unfolding ber_element_definite [OF assms] by (rule element_complete [OF assms])
  from ber_element_consumes [OF this] show "0 < CBS_len c" by (simp add: CBS_len_def)
  show "cbs_bytes (advance c (length (der_element (t, body)))) = rest" using assms(3) by simp
qed

lemma convert_complete:
  "ber_der k st body out \<Longrightarrow> depth + k \<le> kMaxDepth \<Longrightarrow> wf_cbs c \<Longrightarrow> idle d s \<Longrightarrow>
    cbs_bytes c = body @ eoc_bytes eoc @ post \<Longrightarrow> (\<not> eoc \<longrightarrow> post = []) \<Longrightarrow>
    append_levels d out (cbb_abs s) = Some ls \<Longrightarrow> level_size ls \<le> cbb_cap s \<Longrightarrow> convert_ok env d st eoc depth c s post ls"
proof (induction arbitrary: depth c d s eoc post ls rule: ber_der.induct)
  case (nil k st)
  have ls: "cbb_abs s = ls" using nil.prems(6) append_none [OF idle_levels [OF nil.prems(3)]] by simp
  have ext: "cbb_extends s s" using nil.prems(3) by (auto simp: idle_def cbb_extends_def wf_cbb_def split: option.splits)
  show ?case
  proof (cases eoc)
    case True
    then have eq: "cbs_bytes c = der_element (0, []) @ post" and z: "length ([] :: bytes) < 2 ^ 32"
      using nil.prems(4) der_tag_zero [of 0] by (simp_all add: der_element_def der_len_def)
    note r = definite_read [OF nil.prems(2) z eq]
    have "convert_loop env d st eoc depth c s = Some (Some (), advance c (length (der_element (0, []))), s)"
      using convert_item [OF r(2,1), of env d st eoc depth s] definite_tests(2) [OF nil.prems(2) z eq] True by simp
    moreover have "wf_cbs (advance c (length (der_element (0, []))))" using nil.prems(2) by simp
    ultimately show ?thesis using r(3) nil.prems(3) ls ext unfolding convert_ok_def by blast
  next
    case False
    then have "cbs_bytes c = []" using nil.prems(4,5) by simp
    then have "CBS_len c = 0" using length_cbs_bytes [OF nil.prems(2)] by (simp add: CBS_len_def)
    then show ?thesis using False nil.prems ls ext by (simp add: convert_ok_def convert_nil)
  qed
next
  case (primitive tag st bd k rest out)
  have eq: "cbs_bytes c = der_element (tag, bd) @ rest @ eoc_bytes eoc @ post" using primitive.prems(4) by simp
  let ?el = "CBS_init (cbs_data c) (length (der_element (tag, bd)))" and ?hl = "length (der_element (tag, bd)) - length bd"
    and ?e = "advance c (length (der_element (tag, bd)))"
  note r = definite_read [OF primitive.prems(2) primitive.hyps(4) eq]
  note t = definite_tests [OF primitive.prems(2) primitive.hyps(4) eq]
  have ls: "append_levels d (ber_emit st tag bd @ out) (cbb_abs s) = Some ls" by (rule primitive.prems(6))
  from ber_room [OF primitive.prems(3) primitive.hyps(2,5) ls primitive.prems(7), of env] obtain od s1 l2 where
    o: "ber_out env d st tag s = (Some (od, ber_child st tag), s1)" "idle od s1" "append_levels od bd (cbb_abs s1) = Some l2" "level_size l2 \<le> cbb_cap s1"
    and fl: "\<And>s2. idle od s2 \<Longrightarrow> cbb_abs s2 = l2 \<Longrightarrow> cbb_extends s1 s2 \<Longrightarrow>
      \<exists>s3. CBB_flush env d s2 = (Some (), s3) \<and> idle d s3 \<and> cbb_extends s s3 \<and> append_levels d out (cbb_abs s3) = Some ls" by blast
  have d: "wf_cbb s1" "od < length (cbb_frames s1)" "\<not> cbb_failed s1" using o(2) by (simp_all add: idle_def)
  have small: "cbs_len (advance ?el ?hl) < PTRDIFF_LIMIT"
    using primitive.hyps(4) length_cbs_bytes [OF t(4)] unfolding t(5) by (simp add: PTRDIFF_LIMIT_def)
  note call = child_call [OF t(4) small, of env od, unfolded t(5)]
  have sp: "append_option od (Some bd) (cbb_abs s1) = Some l2" using o(3) by (simp add: append_option_def)
  from builder_call.fits [OF call d sp o(4)] obtain s2 where
    a: "CBB_add_bytes env od (CBS_data (advance ?el ?hl)) (CBS_len (advance ?el ?hl)) s1 = (Some (), s2)" by (metis prod.collapse)
  from builder_call.refines [OF call d(1,2) a] sp have s2: "wf_cbb s2" "\<not> cbb_failed s2" "cbb_extends s1 s2" "cbb_abs s2 = l2" by simp_all
  then have i2: "idle od s2" using append_length [OF o(3)] frames_wf [OF s2(1)] by (simp add: idle_def)
  from fl [OF i2 s2(4,3)] obtain s3 where s3: "CBB_flush env d s2 = (Some (), s3)" "idle d s3" "cbb_extends s s3"
    "append_levels d out (cbb_abs s3) = Some ls" by blast
  have cc: "convert_contents env od (ber_child st tag) depth ?el tag ?hl ?e s1 = Some (Some (), ?e, s2)"
    using t(1,3) a primitive.hyps(1) by (simp add: convert_contents_def)
  have ne: "\<not> is_eoc ?hl ?el" using t(2) primitive.hyps(3) by simp
  have "level_size ls \<le> cbb_cap s3" using primitive.prems(7) cbb_extends_cap [OF s3(3)] by simp
  from primitive.IH [OF primitive.prems(1) wf_advance [OF primitive.prems(2)] s3(2) r(3) primitive.prems(5) s3(4) this]
  show ?case using convert_turn [OF r(2,1) ne o(1) cc s3(1), of eoc] cbb_extends_trans [OF s3(3)] unfolding convert_ok_def by auto
next
  case (definite tag st bd conv k rest out)
  have eq: "cbs_bytes c = der_element (tag, bd) @ rest @ eoc_bytes eoc @ post" using definite.prems(4) by simp
  let ?el = "CBS_init (cbs_data c) (length (der_element (tag, bd)))" and ?hl = "length (der_element (tag, bd)) - length bd"
    and ?e = "advance c (length (der_element (tag, bd)))"
  note r = definite_read [OF definite.prems(2) definite.hyps(3) eq]
  note t = definite_tests [OF definite.prems(2) definite.hyps(3) eq]
  from ber_room [OF definite.prems(3) definite.hyps(2,4) definite.prems(6,7), of env] obtain od s1 l2 where
    o: "ber_out env d st tag s = (Some (od, ber_child st tag), s1)" "idle od s1" "append_levels od conv (cbb_abs s1) = Some l2" "level_size l2 \<le> cbb_cap s1"
    and fl: "\<And>s2. idle od s2 \<Longrightarrow> cbb_abs s2 = l2 \<Longrightarrow> cbb_extends s1 s2 \<Longrightarrow>
      \<exists>s3. CBB_flush env d s2 = (Some (), s3) \<and> idle d s3 \<and> cbb_extends s s3 \<and> append_levels d out (cbb_abs s3) = Some ls" by blast
  have dep: "depth + 1 + k \<le> kMaxDepth" "\<not> kMaxDepth < depth + 1" using definite.prems(1) by simp_all
  have inner: "cbs_bytes (advance ?el ?hl) = bd @ eoc_bytes False @ []" using t(5) by simp
  from definite.IH(1) [OF dep(1) t(4) o(2) inner _ o(3,4)] obtain e' s2 where
    l: "convert_loop env od (ber_child st tag) False (depth + 1) (advance ?el ?hl) s1 = Some (Some (), e', s2)"
    and s2: "idle od s2" "cbb_abs s2 = l2" "cbb_extends s1 s2" unfolding convert_ok_def by auto
  from fl [OF s2] obtain s3 where s3: "CBB_flush env d s2 = (Some (), s3)" "idle d s3" "cbb_extends s s3"
    "append_levels d out (cbb_abs s3) = Some ls" by blast
  have cc: "convert_contents env od (ber_child st tag) depth ?el tag ?hl ?e s1 = Some (Some (), ?e, s2)"
    using t(1,3) l dep(2) definite.hyps(1) by (simp add: convert_contents_def cbs_convert_ber_def)
  have ne: "\<not> is_eoc ?hl ?el" using t(2) definite.hyps(1) by auto
  have "level_size ls \<le> cbb_cap s3" using definite.prems(7) cbb_extends_cap [OF s3(3)] by simp
  from definite.IH(2) [OF definite.prems(1) wf_advance [OF definite.prems(2)] s3(2) r(3) definite.prems(5) s3(4) this]
  show ?case using convert_turn [OF r(2,1) ne o(1) cc s3(1), of eoc] cbb_extends_trans [OF s3(3)] unfolding convert_ok_def by auto
next
  case (indefinite tag st conv k bd rest out)
  have eq: "cbs_bytes c = der_tag tag @ 0x80 # bd @ [0, 0] @ rest @ eoc_bytes eoc @ post" using indefinite.prems(4) by simp
  let ?hl = "length (der_tag tag) + 1"
  let ?el = "CBS_init (cbs_data c) ?hl" and ?e = "advance c ?hl"
  note r = ber_element_indefinite [OF indefinite.prems(2) indefinite.hyps(1) eq]
  have pos: "0 < CBS_len c" using ber_element_consumes [OF r(1)] by (simp add: CBS_len_def)
  from ber_room [OF indefinite.prems(3) indefinite.hyps(2,3) indefinite.prems(6,7), of env] obtain od s1 l2 where
    o: "ber_out env d st tag s = (Some (od, ber_child st tag), s1)" "idle od s1" "append_levels od conv (cbb_abs s1) = Some l2" "level_size l2 \<le> cbb_cap s1"
    and fl: "\<And>s2. idle od s2 \<Longrightarrow> cbb_abs s2 = l2 \<Longrightarrow> cbb_extends s1 s2 \<Longrightarrow>
      \<exists>s3. CBB_flush env d s2 = (Some (), s3) \<and> idle d s3 \<and> cbb_extends s s3 \<and> append_levels d out (cbb_abs s3) = Some ls" by blast
  have dep: "depth + 1 + k \<le> kMaxDepth" "\<not> kMaxDepth < depth + 1" using indefinite.prems(1) by simp_all
  have inner: "cbs_bytes ?e = bd @ eoc_bytes True @ rest @ eoc_bytes eoc @ post" using r(4) by simp
  from indefinite.IH(1) [OF dep(1) wf_advance [OF indefinite.prems(2)] o(2) inner _ o(3,4)] obtain c2 s2 where
    l: "convert_loop env od (ber_child st tag) True (depth + 1) ?e s1 = Some (Some (), c2, s2)"
    and c2: "wf_cbs c2" "cbs_bytes c2 = rest @ eoc_bytes eoc @ post"
    and s2: "idle od s2" "cbb_abs s2 = l2" "cbb_extends s1 s2" unfolding convert_ok_def by auto
  from fl [OF s2] obtain s3 where s3: "CBB_flush env d s2 = (Some (), s3)" "idle d s3" "cbb_extends s s3"
    "append_levels d out (cbb_abs s3) = Some ls" by blast
  have cc: "convert_contents env od (ber_child st tag) depth ?el tag ?hl ?e s1 = Some (Some (), c2, s2)"
    using r(2) l dep(2) by (simp add: convert_contents_def cbs_convert_ber_def)
  have "level_size ls \<le> cbb_cap s3" using indefinite.prems(7) cbb_extends_cap [OF s3(3)] by simp
  from indefinite.IH(2) [OF indefinite.prems(1) c2(1) s3(2) c2(2) indefinite.prems(5) s3(4) this]
  show ?case using convert_turn [OF pos r(1,3) o(1) cc s3(1), of eoc] cbb_extends_trans [OF s3(3)] unfolding convert_ok_def by auto
qed

section \<open>DER has nothing to convert\<close>

text \<open>Sequences of elements of definite length, without constructed strings, at every level.\<close>

inductive der_only :: "bytes \<Rightarrow> bool" where
  nil: "der_only []"
| primitive: "\<not> constructed tag \<Longrightarrow> length body \<le> 0xfffffffe \<Longrightarrow> der_only rest \<Longrightarrow> der_only (der_element (tag, body) @ rest)"
| constructed: "constructed tag \<Longrightarrow> \<not> is_string_type tag \<Longrightarrow> length body \<le> 0xfffffffe \<Longrightarrow> der_only body \<Longrightarrow> der_only rest \<Longrightarrow>
    der_only (der_element (tag, body) @ rest)"

lemma not_constructed: "\<not> constructed (tag AND NOT CBS_ASN1_CONSTRUCTED)"
proof -
  have "tag AND NOT CBS_ASN1_CONSTRUCTED AND CBS_ASN1_CONSTRUCTED = 0" by (rule bit_word_eqI) (simp add: bit_simps)
  then show ?thesis by (simp add: and.assoc)
qed

lemma emit_der_only:
  assumes t: "constructed tag" and b: "length conv \<le> 0xfffffffe" and r: "der_only rest"
    and c: "ber_child 0 tag = 0 \<Longrightarrow> der_only conv"
  shows "der_only (ber_emit 0 tag conv @ rest)"
proof (cases "is_string_type tag")
  case True
  then have "ber_emit 0 tag conv = der_element (tag AND NOT CBS_ASN1_CONSTRUCTED, conv)" using t by (simp add: ber_emit_def ber_tag_def)
  then show ?thesis using der_only.primitive [OF not_constructed b r] by simp
next
  case False
  then have "ber_emit 0 tag conv = der_element (tag, conv)" "der_only conv" using c by (simp_all add: ber_emit_def ber_tag_def ber_child_def)
  then show ?thesis using der_only.constructed [OF t False b _ r] by simp
qed

lemma ber_der_only: "ber_der k st body out \<Longrightarrow> st = 0 \<Longrightarrow> der_only out"
proof (induction rule: ber_der.induct)
  case (primitive tag st body k rest out)
  then have "ber_emit st tag body = der_element (tag, body)" by (simp add: ber_emit_def ber_tag_def)
  then show ?case using primitive by (simp add: der_only.primitive ber_fits_def)
qed (simp_all add: der_only.nil emit_der_only ber_fits_def)

lemma find_ber_der: "der_only (cbs_bytes c) \<Longrightarrow> wf_cbs c \<Longrightarrow> find_ber_loop c False depth \<noteq> Some (Some True)"
proof (induction "cbs_len c" arbitrary: c depth rule: less_induct)
  case less
  note wf = less(3)
  have big: "length body < 2 ^ 32" if "length body \<le> 0xfffffffe" for body :: bytes using that by simp
  from less(2) show ?case
  proof cases
    case nil
    then have "CBS_len c = 0" using length_cbs_bytes [OF wf] by (simp add: CBS_len_def)
    then show ?thesis by (simp add: find_ber_loop.simps [of c])
  next
    case (primitive tag body rest)
    note r = definite_read [OF wf big [OF primitive(3)] primitive(1)]
    note t = definite_tests [OF wf big [OF primitive(3)] primitive(1)]
    have "find_ber_loop (advance c (length (der_element (tag, body)))) False depth \<noteq> Some (Some True)"
      using ber_element_consumes [OF r(1)] r(3) primitive(4) wf by (intro less(1)) simp_all
    then show ?thesis using r(1,2) t(1) primitive(2) by (simp add: find_ber_loop.simps [of c])
  next
    case (constructed tag body rest)
    note r = definite_read [OF wf big [OF constructed(4)] constructed(1)]
    note t = definite_tests [OF wf big [OF constructed(4)] constructed(1)]
    let ?el = "CBS_init (cbs_data c) (length (der_element (tag, body)))" and ?hl = "length (der_element (tag, body)) - length body"
    have rest: "find_ber_loop (advance c (length (der_element (tag, body)))) False depth \<noteq> Some (Some True)"
      using ber_element_consumes [OF r(1)] r(3) constructed(6) wf by (intro less(1)) simp_all
    have "cbs_len (advance ?el ?hl) < cbs_len c" using ber_element_consumes [OF r(1)] by auto
    then have inner: "find_ber_loop (advance ?el ?hl) False (depth + 1) \<noteq> Some (Some True)"
      using t(4,5) constructed(5) by (intro less(1)) simp_all
    obtain q where q: "find_ber_loop (advance ?el ?hl) False (depth + 1) = Some q" using find_ber_returns by blast
    show ?thesis
    proof (cases q)
      case None
      then show ?thesis using r(1,2) t(1,3) constructed(2,3) q by (simp add: find_ber_loop.simps [of c])
    next
      case (Some b)
      then have "\<not> b" using inner q by auto
      then show ?thesis using r(1,2) t(1,3) constructed(2,3) q Some rest by (simp add: find_ber_loop.simps [of c])
    qed
  qed
qed

section \<open>The whole conversion\<close>

lemma init_idle:
  assumes "CBB_init env n = (Some (), s)" and "n < PTRDIFF_LIMIT"
  shows "idle 0 s \<and> cbb_abs s = [(Root, [])] \<and> cbb_cap s = n"
proof -
  have w: "wf_cbb s" "\<not> cbb_failed s" "cbb_abs s = [(Root, [])]" "cbb_cap s = n"
    using init_wf [OF assms] by (simp_all add: fresh_levels_def)
  then show ?thesis using frames_wf [OF w(1)] by (simp add: idle_def)
qed

lemma root_append: "append_levels 0 x [(Root, [])] = Some [(Root, x)]"
  by (simp add: append_levels_def flush_levels_def)

lemma converted_sound:
  assumes c: "wf_cbs c" and i: "CBB_init env n = (Some (), s)" "n < PTRDIFF_LIMIT"
    and ok: "cbs_convert_ber env 0 0 False 0 c s = Some (Some u, c', t)"
    and f: "CBB_finish env 0 True True t = (Some (Some storage, Some len), v)"
  defines "res \<equiv> CBS_init storage len"
  shows "wf_cbs res \<and> cbs_bytes c' = [] \<and> ber_der kMaxDepth 0 (cbs_bytes c) (cbs_bytes res) \<and> der_only (cbs_bytes res) \<and>
    cbs_find_ber res 0 \<noteq> Some (Some True)"
proof -
  have l: "convert_loop env 0 0 False 0 c s = Some (Some u, c', t)" using ok by (simp add: cbs_convert_ber_def)
  from convert_sound [OF l c conjunct1 [OF init_idle [OF i]] le0, unfolded convert_post_def] obtain body out where
    r: "ber_der kMaxDepth 0 body out" "cbs_bytes c = body @ cbs_bytes c'" "cbs_bytes c' = []" "idle 0 t"
      "append_levels 0 out (cbb_abs s) = Some (cbb_abs t)" by auto
  have abs: "cbb_abs t = [(Root, out)]" using r(5) root_append init_idle [OF i] by simp
  have w: "wf_cbb t" using r(4) by (simp add: idle_def)
  have o: "cbs_bytes res = out" "len \<le> length storage" using finish_output [OF w f] abs by (simp_all add: res_def)
  have wr: "wf_cbs res" using finish_limit [OF w f] o(2) by (simp add: wf_cbs_def res_def PTRDIFF_LIMIT_def SIZE_LIMIT_def)
  have d: "der_only (cbs_bytes res)" using ber_der_only [OF r(1)] o(1) by simp
  from find_ber_der [OF this wr] have "cbs_find_ber res 0 \<noteq> Some (Some True)" by (simp add: cbs_find_ber_def)
  with wr r(1-3) d o(1) show ?thesis by simp
qed

lemma converted_complete:
  assumes c: "wf_cbs c" and i: "CBB_init env n = (Some (), s)" "n < PTRDIFF_LIMIT"
    and b: "ber_der kMaxDepth 0 (cbs_bytes c) out" "length out \<le> n"
  shows "\<exists>c' t storage v. cbs_convert_ber env 0 0 False 0 c s = Some (Some (), c', t) \<and>
    CBB_finish env 0 True True t = (Some (Some storage, Some (length out)), v)"
proof -
  note s = init_idle [OF i]
  have "convert_ok env 0 0 False 0 c s [] [(Root, out)]"
    using s b(2) root_append [of out] by (intro convert_complete [OF b(1) _ c conjunct1 [OF s]]) simp_all
  then obtain c' t where l: "convert_loop env 0 0 False 0 c s = Some (Some (), c', t)" "idle 0 t" "cbb_abs t = [(Root, out)]" "cbb_extends s t"
    unfolding convert_ok_def by blast
  have "length out \<le> cbb_cap t" using b(2) s cbb_extends_cap [OF l(4)] by simp
  with finish_fits [of t out env] l(2,3) have "\<exists>storage v. CBB_finish env 0 True True t = (Some (Some storage, Some (length out)), v)"
    by (auto simp: idle_def)
  then show ?thesis using l(1) by (auto simp: cbs_convert_ber_def)
qed

section \<open>Implicitly tagged strings\<close>

lemma chunks_sound:
  "implicit_chunks env t c s = (Some u, s') \<Longrightarrow> wf_cbs c \<Longrightarrow> idle 0 s \<Longrightarrow>
    \<exists>bs. cbs_bytes c = concat (map (\<lambda>b. der_element (t, b)) bs) \<and> idle 0 s' \<and> append_levels 0 (concat bs) (cbb_abs s) = Some (cbb_abs s')"
proof (induction env t c s arbitrary: u s' rule: implicit_chunks.induct)
  case (1 env t c s)
  show ?case
  proof (cases "CBS_len c > 0")
    case False
    then have "s' = s" "cbs_bytes c = []" using "1.prems"(1) by (simp_all add: implicit_chunks.simps [of _ _ c] CBS_len_def cbs_bytes_def)
    then show ?thesis using "1.prems"(3) append_none [OF idle_levels [OF "1.prems"(3)]] by (intro exI [of _ "[]"]) simp
  next
    case True
    obtain r c1 where g: "CBS_get_asn1 c t = (r, c1)" by fastforce
    then obtain chunk where r: "r = Some chunk" using "1.prems"(1) True by (cases r) (simp_all add: implicit_chunks.simps [of _ _ c])
    obtain q s1 where q: "CBB_add_bytes env 0 (CBS_data chunk) (CBS_len chunk) s = (q, s1)" by fastforce
    then have q1: "q = Some ()" and rest: "implicit_chunks env t c1 s1 = (Some u, s')"
      using "1.prems"(1) True g r by (cases q; simp add: implicit_chunks.simps [of _ _ c])+
    from CBS_get_asn1_sound [OF "1.prems"(2) g [unfolded r]] have
      b: "wf_cbs chunk \<and> length (cbs_bytes chunk) < 2 ^ 32 \<and> cbs_bytes c = der_element (t, cbs_bytes chunk) @ cbs_bytes c1"
      and c1: "c1 = advance c (length (der_element (t, cbs_bytes chunk)))" by blast+
    have w1: "wf_cbs c1" unfolding c1 using "1.prems"(2) by simp
    have wch: "wf_cbs chunk" using b by blast
    have w: "cbs_len chunk < PTRDIFF_LIMIT" using b unfolding length_cbs_bytes [OF wch] by (simp add: PTRDIFF_LIMIT_def)
    have d: "wf_cbb s" "0 < length (cbb_frames s)" using "1.prems"(3) by (simp_all add: idle_def)
    from builder_call.refines [OF child_call [OF wch w] d q [unfolded q1]]
    have s1: "wf_cbb s1" "\<not> cbb_failed s1" "append_levels 0 (cbs_bytes chunk) (cbb_abs s) = Some (cbb_abs s1)"
      by (simp_all add: append_option_def)
    then have i: "idle 0 s1" using append_length [OF s1(3)] frames_wf [OF s1(1)] by (simp add: idle_def)
    from "1.IH" [OF True g [symmetric] r q [unfolded q1] rest w1 i] obtain bs where
      bs: "cbs_bytes c1 = concat (map (\<lambda>b. der_element (t, b)) bs)" "idle 0 s'" "append_levels 0 (concat bs) (cbb_abs s1) = Some (cbb_abs s')" by blast
    have "append_levels 0 (concat (cbs_bytes chunk # bs)) (cbb_abs s) = Some (cbb_abs s')"
      using append_then [OF s1(3), of "concat bs"] bs(3) by simp
    moreover have "cbs_bytes c = concat (map (\<lambda>b. der_element (t, b)) (cbs_bytes chunk # bs))" using b bs(1) by simp
    ultimately show ?thesis using bs(2) by blast
  qed
qed

text \<open>The contents, or the contents of the chunks of a constructed string one after the other.\<close>

lemma implicit_string_sound:
  assumes "CBS_get_asn1_implicit_string env c outer inner = (Some (res, storage), c')" and "wf_cbs c" and "cbs_len c < PTRDIFF_LIMIT"
  shows "case storage of
      None \<Rightarrow> cbs_bytes c = der_element (outer, cbs_bytes res) @ cbs_bytes c'
    | Some _ \<Rightarrow> \<exists>bs. cbs_bytes c = der_element (outer OR CBS_ASN1_CONSTRUCTED, concat (map (\<lambda>b. der_element (inner, b)) bs)) @ cbs_bytes c' \<and>
        cbs_bytes res = concat bs"
proof (cases "CBS_peek_asn1_tag c outer")
  case True
  then have "CBS_get_asn1 c outer = (Some res, c')" "storage = None"
    using assms(1) by (auto simp: CBS_get_asn1_implicit_string_def and_then_Some)
  then show ?thesis using CBS_get_asn1_sound [OF assms(2)] by simp
next
  case False
  obtain x s where x: "CBB_init env (CBS_len c) = (x, s)" by fastforce
  obtain child c1 where g: "CBS_get_asn1 c (outer OR CBS_ASN1_CONSTRUCTED) = (Some child, c1)"
    using assms(1) False x by (auto simp: CBS_get_asn1_implicit_string_def and_then_Some split: option.splits)
  obtain y t where y: "and_then (implicit_chunks env inner child s) (\<lambda>_. CBB_finish env 0 True True) = (y, t)" by fastforce
  have r: "x = Some () \<and> c' = c1 \<and> (\<exists>st len. y = Some (Some st, Some len) \<and> storage = Some st \<and> res = CBS_init st len)"
    using assms(1) False x g y by (auto simp: CBS_get_asn1_implicit_string_def split: option.splits prod.splits)
  then obtain st len where st: "y = Some (Some st, Some len)" "storage = Some st" "res = CBS_init st len" by blast
  with y obtain u s1 where s1: "implicit_chunks env inner child s = (Some u, s1)" and f: "CBB_finish env 0 True True s1 = (Some (Some st, Some len), t)"
    by (auto simp: and_then_Some)
  from CBS_get_asn1_sound [OF assms(2) g] have ch: "wf_cbs child"
    "cbs_bytes c = der_element (outer OR CBS_ASN1_CONSTRUCTED, cbs_bytes child) @ cbs_bytes c1" by blast+
  have i: "idle 0 s" "cbb_abs s = [(Root, [])]" using init_idle [of env "cbs_len c" s] x r assms(3) by (simp_all add: CBS_len_def)
  from chunks_sound [OF s1 ch(1) i(1)] obtain bs where
    bs: "cbs_bytes child = concat (map (\<lambda>b. der_element (inner, b)) bs)" "idle 0 s1" "append_levels 0 (concat bs) (cbb_abs s) = Some (cbb_abs s1)" by blast
  have "cbb_abs s1 = [(Root, concat bs)]" using bs(3) i(2) root_append by simp
  then have "cbs_bytes res = concat bs" using finish_output [of s1 env st len t] f bs(2) st(3) by (simp add: idle_def)
  then show ?thesis using st(2) ch(2) bs(1) r by auto
qed

lemma unconverted:
  assumes "wf_cbs c" and "CBS_asn1_ber_to_der env c = Some (r, c')" and f: "cbs_find_ber c 0 = Some f" and False: "f \<noteq> Some True"
  shows "case r of None \<Rightarrow> True
    | Some (res, storage) \<Rightarrow> storage = None \<and>
        (\<exists>t body. cbs_bytes c = der_element (t, body) @ cbs_bytes c' \<and> cbs_bytes res = der_element (t, body))"
proof -
  have "r = None \<or> (\<exists>el t hl. CBS_get_any_asn1_element c = (Some (el, t, hl), c') \<and> r = Some (el, None))"
    using assms(2) f False by (cases f) (auto simp: CBS_asn1_ber_to_der_def and_then_case split: prod.splits option.splits if_splits)
  then show ?thesis
  proof (elim disjE exE conjE)
    assume "r = None"
    then show ?thesis by simp
  next
    fix el t hl assume r: "CBS_get_any_asn1_element c = (Some (el, t, hl), c')" "r = Some (el, None)"
    from element_sound [OF assms(1) r(1)] obtain body where
      "cbs_bytes el = der_element (t, body)" "cbs_bytes c = der_element (t, body) @ cbs_bytes c'" by blast
    then have "\<exists>t body. cbs_bytes c = der_element (t, body) @ cbs_bytes c' \<and> cbs_bytes el = der_element (t, body)" by blast
    then show ?thesis unfolding r(2) by simp
  qed
qed

text \<open>
  The search does not report every BER element: one found in a nested element is forgotten when a later
  sibling is constructed, because its own search starts by storing 0. Here the constructed string 24 00 is missed.
\<close>

lemma nested_ber_missed: "cbs_find_ber (CBS_init [0x30, 6, 0x30, 2, 0x24, 0, 0x30, 0] 8) 0 = Some (Some False)"
  by code_simp

text \<open>
  The declaration in \<open>internal.h\<close> promises to read one BER element and to advance the input over it. That
  holds only without a conversion: a conversion also converts and consumes what follows the first
  element, here the 05 00 behind the constructed string 24 00, which is left when the string is primitive.
\<close>

lemma trailing_element_converted:
  "case CBS_asn1_ber_to_der any_env (CBS_init [0x24, 0, 5, 0] 4) of
     Some (Some (res, _), rest) \<Rightarrow> cbs_bytes res = [4, 0, 5, 0] \<and> cbs_bytes rest = []
   | _ \<Rightarrow> False"
  by code_simp

lemma trailing_element_left:
  "case CBS_asn1_ber_to_der any_env (CBS_init [4, 0, 5, 0] 4) of
     Some (Some (res, _), rest) \<Rightarrow> cbs_bytes res = [4, 0] \<and> cbs_bytes rest = [5, 0]
   | _ \<Rightarrow> False"
  by code_simp

section \<open>Properties\<close>

text \<open>C40: termination. \<open>CBS_asn1_ber_to_der\<close> returns on every input, however malformed and however
  deeply nested: neither the search for BER nor the conversion runs forever.\<close>

theorem ber_to_der_returns: "\<exists>r. CBS_asn1_ber_to_der env c = Some r"
proof -
  have find: "\<exists>f. cbs_find_ber c 0 = Some f" using find_ber_returns by (simp add: cbs_find_ber_def)
  have conv: "\<exists>r c' t. cbs_convert_ber env 0 0 False 0 c s = Some (r, c', t)" for s
    using convert_returns [of env 0 0 False 0 c s] by (auto simp: cbs_convert_ber_def)
  obtain f where f: "cbs_find_ber c 0 = Some f" using find by blast
  obtain q s where q: "CBB_init env (CBS_len c) = (q, s)" by fastforce
  obtain r c' t where "cbs_convert_ber env 0 0 False 0 c s = Some (r, c', t)" using conv by blast
  with f q show ?thesis by (auto simp: CBS_asn1_ber_to_der_def split: option.split prod.split)
qed

text \<open>C39: from BER to DER. When \<open>CBS_asn1_ber_to_der\<close> finds something to convert and succeeds, it takes the
  whole input, whatever follows its first element included (\<open>internal.h\<close> says that it reads one element):
  all of it is BER (indefinite lengths and constructed strings, nested at most 2048 deep), nothing of it
  is left, and the output is its DER form, in which no element needs conversion any more. When nothing is
  found to convert, the output is the first element of the input as it is and the rest is left. Where
  something is found, the input is BER and its form fits the initial buffer, the conversion fails only
  if the builder cannot be allocated.\<close>

theorem ber_to_der_is_der:
  assumes "wf_cbs c" and "cbs_len c < PTRDIFF_LIMIT" and "CBS_asn1_ber_to_der env c = Some (r, c')"
  shows "case r of
      Some (res, None) \<Rightarrow> \<exists>t body. cbs_bytes c = der_element (t, body) @ cbs_bytes c' \<and> cbs_bytes res = der_element (t, body)
    | Some (res, Some _) \<Rightarrow> wf_cbs res \<and> cbs_bytes c' = [] \<and> ber_der kMaxDepth 0 (cbs_bytes c) (cbs_bytes res) \<and>
        der_only (cbs_bytes res) \<and> cbs_find_ber res 0 \<noteq> Some (Some True)
    | None \<Rightarrow> cbs_find_ber c 0 = Some (Some True) \<longrightarrow> fst (CBB_init env (cbs_len c)) = None \<or>
        (\<forall>out. ber_der kMaxDepth 0 (cbs_bytes c) out \<longrightarrow> cbs_len c < length out)"
proof -
  obtain f where f: "cbs_find_ber c 0 = Some f" using find_ber_returns [of c False 0] by (auto simp: cbs_find_ber_def)
  show ?thesis
  proof (cases "f = Some True")
    case False
    then show ?thesis using unconverted [OF assms(1,3) f] f by (auto split: option.split)
  next
    case True
    obtain q s where q: "CBB_init env (CBS_len c) = (q, s)" by fastforce
    show ?thesis
    proof (cases q)
      case None
      then show ?thesis using assms(3) f True q by (auto simp: CBS_asn1_ber_to_der_def CBS_len_def)
    next
      case (Some u)
      then have i: "CBB_init env (cbs_len c) = (Some (), s)" using q by (simp add: CBS_len_def)
      obtain p e t where p: "cbs_convert_ber env 0 0 False 0 c s = Some (p, e, t)"
        using convert_returns [of env 0 0 False 0 c s] by (auto simp: cbs_convert_ber_def)
      obtain y v where y: "CBB_finish env 0 True True t = (y, v)" by fastforce
      show ?thesis
      proof (cases r)
        case None
        have "cbs_len c < length out" if b: "ber_der kMaxDepth 0 (cbs_bytes c) out" for out
        proof (rule ccontr)
          assume "\<not> cbs_len c < length out"
          then have "length out \<le> cbs_len c" by simp
          from converted_complete [OF assms(1) i assms(2) b this] show False
            using assms(3) f True q Some p None by (auto simp: CBS_asn1_ber_to_der_def)
        qed
        then show ?thesis using None by simp
      next
        case (Some z)
        have r: "p = Some () \<and> c' = e \<and> (\<exists>st len. y = Some (Some st, Some len) \<and> r = Some (CBS_init st len, Some st))"
          using assms(3) f True q \<open>q = Some u\<close> p y Some
          by (auto simp: CBS_asn1_ber_to_der_def split: option.splits prod.splits)
        then obtain st len where st: "y = Some (Some st, Some len)" "r = Some (CBS_init st len, Some st)" by blast
        from converted_sound [OF assms(1) i assms(2) _ y [unfolded st(1)], of "()" e] p r show ?thesis by (simp add: st(2))
      qed
    qed
  qed
qed

theorem ber_to_der_is_der_witness:
  "\<exists>res storage c'. CBS_asn1_ber_to_der roomy_env (CBS_init [0x24, 0x80, 4, 1, 0xaa, 4, 0, 0, 0] 9) =
       Some (Some (res, Some storage), c') \<and> cbs_bytes res = [4, 1, 0xaa] \<and>
     ber_der kMaxDepth 0 [0x24, 0x80, 4, 1, 0xaa, 4, 0, 0, 0] (cbs_bytes res) \<and> der_only (cbs_bytes res)"
proof -
  let ?c = "CBS_init [0x24, 0x80, 4, 1, 0xaa, 4, 0, 0, 0] 9"
  have "case CBS_asn1_ber_to_der roomy_env ?c of
      Some (Some (res, storage), _) \<Rightarrow> storage \<noteq> None \<and> cbs_bytes res = [4, 1, 0xaa] | _ \<Rightarrow> False" by code_simp
  then obtain res storage c' where r: "CBS_asn1_ber_to_der roomy_env ?c = Some (Some (res, Some storage), c')"
    "cbs_bytes res = [4, 1, 0xaa]" by (auto split: option.splits prod.splits)
  have "wf_cbs ?c" "cbs_len ?c < PTRDIFF_LIMIT" by (simp_all add: SIZE_LIMIT_def PTRDIFF_LIMIT_def)
  from ber_to_der_is_der [OF this r(1)] have "ber_der kMaxDepth 0 (cbs_bytes ?c) (cbs_bytes res)" "der_only (cbs_bytes res)" by simp_all
  with r show ?thesis by simp
qed

end
