(* ===== verification/Calendar.thy ===== *)
theory Calendar
  imports Prelude "HOL-Library.Signed_Division"
begin

text \<open>
  \<open>crypto/asn1/time_support.c\<close>: Julian day numbers, moving a broken-down time by an offset and the
  difference of two times. A C \<open>int\<close> or \<open>long\<close> is an \<^typ>\<open>int\<close> and \<open>/\<close> is \<^const>\<open>signed_divide\<close>, which
  rounds to zero. The arithmetic is that of unbounded integers: a signed operation of C that leaves
  the range of its type has no defined result, so the properties state the years and offsets they
  hold for, and \<open>date_to_julian_fits\<close> that no operation overflows for them. The conversion of a day
  count to \<open>int\<close> is written out. Of \<open>struct tm\<close> only the six fields that the code uses are kept.
\<close>

section \<open>The code\<close>

record tm =
  tm_sec :: int
  tm_min :: int
  tm_hour :: int
  tm_mday :: int
  tm_mon :: int
  tm_year :: int

definition SECS_PER_DAY :: int where
  "SECS_PER_DAY = 24 * 60 * 60"

definition date_to_julian :: "int \<Rightarrow> int \<Rightarrow> int \<Rightarrow> int" where
  "date_to_julian y m d =
     (1461 * (y + 4800 + (m - 14) sdiv 12)) sdiv 4 +
     (367 * (m - 2 - 12 * ((m - 14) sdiv 12))) sdiv 12 -
     (3 * ((y + 4900 + (m - 14) sdiv 12) sdiv 100)) sdiv 4 + d - 32075"

definition julian_to_date :: "int \<Rightarrow> int \<times> int \<times> int" where
  "julian_to_date jd =
     (let L = jd + 68569;
          n = (4 * L) sdiv 146097;
          L = L - (146097 * n + 3) sdiv 4;
          i = (4000 * (L + 1)) sdiv 1461001;
          L = L - (1461 * i) sdiv 4 + 31;
          j = (80 * L) sdiv 2447;
          d = L - (2447 * j) sdiv 80;
          L = j sdiv 11
      in (100 * (n - 49) + i + L, j + 2 - (12 * L), d))"

definition julian_adj :: "tm \<Rightarrow> int \<Rightarrow> int \<Rightarrow> (int \<times> int) option" where
  "julian_adj tm off_day offset_sec =
     (let offset_day = offset_sec sdiv SECS_PER_DAY;
          offset_hms = offset_sec - (offset_day * SECS_PER_DAY);
          offset_day = offset_day + off_day;
          offset_hms = offset_hms + (tm_hour tm * 3600 + tm_min tm * 60 + tm_sec tm);
          (offset_day, offset_hms) =
            (if offset_hms \<ge> SECS_PER_DAY then (offset_day + 1, offset_hms - SECS_PER_DAY)
             else if offset_hms < 0 then (offset_day - 1, offset_hms + SECS_PER_DAY)
             else (offset_day, offset_hms));
          time_year = tm_year tm + 1900;
          time_month = tm_mon tm + 1;
          time_day = tm_mday tm;
          time_jd = date_to_julian time_year time_month time_day;
          time_jd = time_jd + offset_day
      in if time_jd < 0 then None else Some (time_jd, offset_hms))"

definition OPENSSL_gmtime_adj :: "tm \<Rightarrow> int \<Rightarrow> int \<Rightarrow> tm option" where
  "OPENSSL_gmtime_adj tm off_day offset_sec =
     (case julian_adj tm off_day offset_sec of
        None \<Rightarrow> None
      | Some (time_jd, time_sec) \<Rightarrow>
          let (time_year, time_month, time_day) = julian_to_date time_jd in
          if time_year < 1900 \<or> time_year > 9999 then None
          else Some (tm\<lparr>tm_year := time_year - 1900, tm_mon := time_month - 1, tm_mday := time_day,
                 tm_hour := time_sec sdiv 3600, tm_min := (time_sec sdiv 60) smod 60, tm_sec := time_sec smod 60\<rparr>))"

definition OPENSSL_gmtime_diff :: "tm \<Rightarrow> tm \<Rightarrow> (int \<times> int) option" where
  "OPENSSL_gmtime_diff from_tm to_tm =
     (case julian_adj from_tm 0 0 of
        None \<Rightarrow> None
      | Some (from_jd, from_sec) \<Rightarrow>
          (case julian_adj to_tm 0 0 of
             None \<Rightarrow> None
           | Some (to_jd, to_sec) \<Rightarrow>
               let diff_day = to_jd - from_jd;
                   diff_sec = to_sec - from_sec;
                   (diff_day, diff_sec) =
                     (if diff_day > 0 \<and> diff_sec < 0 then (diff_day - 1, diff_sec + SECS_PER_DAY) else (diff_day, diff_sec));
                   (diff_day, diff_sec) =
                     (if diff_day < 0 \<and> diff_sec > 0 then (diff_day + 1, diff_sec - SECS_PER_DAY) else (diff_day, diff_sec))
               in Some (signed_take_bit 31 diff_day, diff_sec)))"

section \<open>The Gregorian calendar\<close>

definition leap_year :: "int \<Rightarrow> bool" where
  "leap_year y \<longleftrightarrow> y mod 4 = 0 \<and> (y mod 100 \<noteq> 0 \<or> y mod 400 = 0)"

definition days_in_month :: "int \<Rightarrow> int \<Rightarrow> int" where
  "days_in_month y m =
     (if m = 2 then if leap_year y then 29 else 28 else if m = 4 \<or> m = 6 \<or> m = 9 \<or> m = 11 then 30 else 31)"

definition valid_date :: "int \<Rightarrow> int \<Rightarrow> int \<Rightarrow> bool" where
  "valid_date y m d \<longleftrightarrow> 1 \<le> m \<and> m \<le> 12 \<and> 1 \<le> d \<and> d \<le> days_in_month y m"

text \<open>The day after a date.\<close>

definition next_day :: "int \<Rightarrow> int \<Rightarrow> int \<Rightarrow> int \<times> int \<times> int" where
  "next_day y m d =
     (if d < days_in_month y m then (y, m, d + 1) else if m < 12 then (y, m + 1, 1) else (y + 1, 1, 1))"

section \<open>Day numbers\<close>

text \<open>
  Both directions go through the year that begins in March: \<open>n\<close> is its century (counted from 49
  centuries before year 0), \<open>r\<close> the year in the century, \<open>j\<close> the month, from 1 for March.
\<close>

definition century_days :: "int \<Rightarrow> int" where
  "century_days n = (146097 * n + 3) div 4"

definition march_days :: "int \<Rightarrow> int \<Rightarrow> int \<Rightarrow> int \<Rightarrow> int" where
  "march_days n r j d = century_days n + 1461 * r div 4 + 2447 * j div 80 + d - 31"

lemma sdiv_pos: "0 \<le> a \<Longrightarrow> 0 < b \<Longrightarrow> a sdiv b = a div (b :: int)"
  by (cases "a = 0") (simp_all add: signed_divide_int_eq_divide_int)

lemma smod_pos: "0 \<le> a \<Longrightarrow> 0 < b \<Longrightarrow> a smod b = a mod (b :: int)"
  by (cases "a = 0") (simp_all add: signed_modulo_int_def)

lemma months: "(1 :: int) \<le> m \<and> m \<le> 12 \<longleftrightarrow> m \<in> {1, 2, 3, 4, 5, 6, 7, 8, 9, 10, 11, 12}"
  unfolding insert_iff empty_iff by presburger

text \<open>Divisions by 4, with the remainder as a case.\<close>

lemma four_cases:
  obtains s t :: int where "n = 4 * s + t" "t = 0 \<or> t = 1 \<or> t = 2 \<or> t = 3"
proof -
  have "n mod 4 = 0 \<or> n mod 4 = 1 \<or> n mod 4 = 2 \<or> n mod 4 = 3" by presburger
  then show thesis using that [of "n div 4" "n mod 4"] by simp
qed

lemma four_div: "(k * (4 * s + t) + c) div 4 = k * s + (k * t + c) div (4 :: int)"
proof -
  have "k * (4 * s + t) + c = (k * t + c) + (k * s) * 4" by (simp add: algebra_simps)
  then show ?thesis by (simp only: div_mult_self1 zero_neq_numeral not_False_eq_True)
qed

lemmas four_div_sum = four_div [of _ _ _ 0, simplified]

lemma century_days_four: "century_days (4 * s + t) = 146097 * s + (146097 * t + 3) div 4"
  by (simp only: century_days_def four_div)

lemma century_days_alt: "century_days n = 36525 * n - 3 * n div 4"
proof -
  obtain s t where n: "n = 4 * s + t" "t = 0 \<or> t = 1 \<or> t = 2 \<or> t = 3" by (rule four_cases)
  have "3 * n div 4 = 3 * s + 3 * t div 4" using four_div [of 3 s t 0] by (simp add: n(1))
  then show ?thesis using n by (auto simp: century_days_four)
qed

lemma date_to_julian_march:
  assumes "1 \<le> m" and "m \<le> 12" and "- 4799 \<le> y"
  defines "b \<equiv> if m \<le> 2 then 1 else 0"
  shows "date_to_julian y m d + 68569 =
    march_days ((y - b) div 100 + 49) ((y - b) mod 100) (m - 2 + 12 * b) d"
proof -
  define q where "q = (y - b) div 100"
  define r where "r = (y - b) mod 100"
  have y: "y - b = 100 * q + r" "0 \<le> r" "r < 100" by (simp_all add: q_def r_def)
  have c: "(m - 14) sdiv 12 = - b"
    using assms(1,2) unfolding b_def
    by (auto simp: months signed_divide_int_def)
  have q: "- 48 \<le> q" using assms(3) y b_def by (auto split: if_splits)
  have "1461 * (y + 4800 + - b) = 4 * (36525 * (q + 48)) + 1461 * r" using y by (simp add: algebra_simps)
  then have 1: "(1461 * (y + 4800 + - b)) sdiv 4 = 36525 * (q + 48) + 1461 * r div 4"
    using q y(2) by (subst sdiv_pos) simp_all
  have "y + 4900 + - b = 100 * (q + 49) + r" using y by (simp add: algebra_simps)
  then have 2: "(y + 4900 + - b) sdiv 100 = q + 49" using q y(2,3) by (subst sdiv_pos) simp_all
  have 3: "(3 * (q + 49)) sdiv 4 = 3 * (q + 49) div 4" using q by (subst sdiv_pos) simp_all
  have "m - 2 - 12 * - b = m - 2 + 12 * b" by simp
  then have 4: "(367 * (m - 2 - 12 * - b)) sdiv 12 = 2447 * (m - 2 + 12 * b) div 80"
    using assms(1,2) unfolding b_def by (auto simp: months signed_divide_int_def)
  have "century_days (q + 49) = 36525 * (q + 49) - 3 * (q + 49) div 4" by (rule century_days_alt)
  then show ?thesis unfolding date_to_julian_def c 1 2 3 4 march_days_def q_def [symmetric] r_def [symmetric] by simp
qed

text \<open>Decoding a day of the year that begins in March.\<close>

definition march_valid :: "int \<Rightarrow> int \<Rightarrow> int \<Rightarrow> int \<Rightarrow> bool" where
  "march_valid n r j d \<longleftrightarrow> 0 \<le> r \<and> r < 100 \<and> 1 \<le> j \<and> j \<le> 12 \<and> 1 \<le> d \<and>
     2447 * j div 80 + d < (if j = 12 then 397 else 1 + 2447 * (j + 1) div 80) \<and>
     (j = 12 \<and> d = 29 \<longrightarrow> r mod 4 = 3 \<and> (r = 99 \<longrightarrow> n mod 4 = 0))"

lemma century_bounds: "146097 * n \<le> 4 * century_days n" "4 * century_days n \<le> 146097 * n + 3"
  by (rule four_cases [of n]; auto simp: century_days_four)+

lemma century_step: "century_days (n + 1) - century_days n = (if n mod 4 = 0 then 36525 else 36524)"
proof -
  obtain s t where n: "n = 4 * s + t" "t = 0 \<or> t = 1 \<or> t = 2 \<or> t = 3" by (rule four_cases)
  then show ?thesis using century_days_four [of s t] century_days_four [of s "t + 1"] by (auto simp: add.assoc)
qed

lemma year_four: "1461 * (4 * s + t) div 4 = 1461 * s + 1461 * t div (4 :: int)"
  using four_div [of 1461 s t 0] by simp

lemma year_bounds: "1461 * r - 3 \<le> 4 * (1461 * r div 4)" "4 * (1461 * r div 4) \<le> 1461 * (r :: int)"
  by (rule four_cases [of r]; auto simp only: year_four; simp)+

lemma year_step: "1461 * (r + 1) div 4 - 1461 * r div 4 = (if r mod 4 = 3 then 366 else 365 :: int)"
proof -
  obtain s t where r: "r = 4 * s + t" "t = 0 \<or> t = 1 \<or> t = 2 \<or> t = 3" by (rule four_cases)
  have a: "1461 * (r + 1) div 4 = 1461 * s + 1461 * (t + 1) div 4" using year_four [of s "t + 1"] by (simp only: r(1) add.assoc)
  have b: "1461 * r div 4 = 1461 * s + 1461 * t div 4" by (simp only: r(1) year_four)
  have c: "r mod 4 = t" using r by auto
  show ?thesis unfolding a b c using r(2) by (elim disjE) simp_all
qed

lemma div_eqI: "b * q \<le> a \<Longrightarrow> a < b * (q + 1) \<Longrightarrow> a div b = (q :: int)" if "0 < b"
  using that by (intro int_div_pos_eq [where r = "a - b * q"]) (simp_all add: algebra_simps)

text \<open>The three steps of the decoding: the century, the year and the month.\<close>

lemma decode_century:
  assumes "0 \<le> D" and "D < century_days (n + 1) - century_days n"
  shows "4 * (century_days n + D) div 146097 = n"
proof (rule div_eqI)
  show "146097 * n \<le> 4 * (century_days n + D)" using assms(1) century_bounds(1) [of n] by simp
  show "4 * (century_days n + D) < 146097 * (n + 1)" using assms(2) century_bounds(2) [of "n + 1"] by simp
qed simp

lemma decode_year:
  assumes "(0 :: int) \<le> r" and "r < 100" and "0 \<le> E" and "E < 1461 * (r + 1) div 4 - 1461 * r div 4"
  shows "4000 * (1461 * r div 4 + E + 1) div 1461001 = r"
proof (rule div_eqI)
  show "1461001 * r \<le> 4000 * (1461 * r div 4 + E + 1)" using assms(2,3) year_bounds(1) [of r] by simp
  show "4000 * (1461 * r div 4 + E + 1) < 1461001 * (r + 1)" using assms(1,4) year_bounds(2) [of "r + 1"] by simp
qed simp

lemma decode_month:
  assumes "(1 :: int) \<le> j" and "j \<le> 12" and "1 \<le> d" and "2447 * j div 80 + d < (if j = 12 then 397 else 1 + 2447 * (j + 1) div 80)"
  shows "80 * (2447 * j div 80 + d) div 2447 = j"
proof -
  have "j \<in> {1, 2, 3, 4, 5, 6, 7, 8, 9, 10, 11, 12}" using assms(1,2) months by blast
  then show ?thesis using assms(3,4) by (intro div_eqI) auto
qed

text \<open>The calendar date of a day of the year that begins in March.\<close>

abbreviation (input) civil_year :: "int \<Rightarrow> int \<Rightarrow> int \<Rightarrow> int" where
  "civil_year n r j \<equiv> 100 * (n - 49) + r + j div 11"

abbreviation (input) civil_month :: "int \<Rightarrow> int" where
  "civil_month j \<equiv> j + 2 - 12 * (j div 11)"

lemma march_leap:
  assumes "0 \<le> r" and "r < 100"
  shows "leap_year (100 * (n - 49) + r + 1) \<longleftrightarrow> r mod 4 = 3 \<and> (r = 99 \<longrightarrow> n mod 4 = 0)"
proof -
  let ?y = "100 * (n - 49) + r + 1"
  have "?y = r + 1 + 4 * (25 * (n - 49))" by simp
  then have 1: "?y mod 4 = (r + 1) mod 4" by (metis mod_mult_self2)
  have 2: "?y mod 100 = 0 \<longleftrightarrow> r = 99"
  proof (cases "r = 99")
    case True
    then have "?y = 100 * (n - 48)" by simp
    then show ?thesis using True by simp
  next
    case False
    have "?y = r + 1 + 100 * (n - 49)" by simp
    then have "?y mod 100 = (r + 1) mod 100" by (metis mod_mult_self2)
    then show ?thesis using False assms by simp
  qed
  have 3: "?y mod 400 = 0 \<longleftrightarrow> n mod 4 = 0" if "r = 99"
  proof -
    have "?y = 100 * (n - 48)" using that by simp
    then have "?y mod 400 = 100 * ((n - 48) mod 4)" using mult_mod_right [of 100 "n - 48" 4] by simp
    moreover have "(n - 48) mod 4 = n mod 4" by presburger
    ultimately show ?thesis by simp
  qed
  have "(r + 1) mod 4 = 0 \<longleftrightarrow> r mod 4 = 3" by presburger
  then show ?thesis unfolding leap_year_def 1 2 using 3 by auto
qed

lemma march_valid_iff:
  assumes "0 \<le> r" and "r < 100" and "1 \<le> j" and "j \<le> 12"
  shows "march_valid n r j d \<longleftrightarrow> valid_date (civil_year n r j) (civil_month j) d"
proof -
  have "j \<in> {1, 2, 3, 4, 5, 6, 7, 8, 9, 10, 11, 12}" using assms(3,4) months by blast
  then consider "j = 12" | "j \<in> {1, 2, 3, 4, 5, 6, 7, 8, 9, 10, 11}" by blast
  then show ?thesis
  proof cases
    case 1
    have "march_valid n r j d \<longleftrightarrow> 1 \<le> d \<and> d \<le> 29 \<and> (d = 29 \<longrightarrow> leap_year (civil_year n r j))"
      unfolding march_valid_def 1 using assms(1,2) march_leap [OF assms(1,2), of n] by simp linarith
    also have "\<dots> \<longleftrightarrow> 1 \<le> d \<and> d \<le> (if leap_year (civil_year n r j) then 29 else 28)" by auto
    also have "\<dots> \<longleftrightarrow> valid_date (civil_year n r j) (civil_month j) d"
      unfolding valid_date_def days_in_month_def using 1 by simp
    finally show ?thesis .
  next
    case 2
    then show ?thesis using assms(1,2) by (elim insertE emptyE) (simp_all add: march_valid_def valid_date_def days_in_month_def, linarith+)
  qed
qed

lemma julian_to_date_march:
  assumes "march_valid n r j d" and "0 \<le> n"
  shows "julian_to_date (march_days n r j d - 68569) = (civil_year n r j, civil_month j, d)"
proof -
  have v: "0 \<le> r" "r < 100" "1 \<le> j" "j \<le> 12" "1 \<le> d"
    "2447 * j div 80 + d < (if j = 12 then 397 else 1 + 2447 * (j + 1) div 80)"
    "j = 12 \<and> d = 29 \<longrightarrow> r mod 4 = 3 \<and> (r = 99 \<longrightarrow> n mod 4 = 0)"
    using assms(1) by (simp_all add: march_valid_def)
  define E where "E = 2447 * j div 80 + d - 31"
  define D where "D = 1461 * r div 4 + E"
  have j: "j \<in> {1, 2, 3, 4, 5, 6, 7, 8, 9, 10, 11, 12}" using v(3,4) months by blast
  have E: "0 \<le> E" "E < 1461 * (r + 1) div 4 - 1461 * r div 4"
    unfolding year_step E_def using j v(5,6,7) by (auto split: if_splits)
  have Y: "0 \<le> 1461 * r div 4" using v(1) by simp
  have D: "0 \<le> D" using E(1) Y by (simp add: D_def)
  have "D < century_days (n + 1) - century_days n"
  proof (cases "r = 99")
    case True
    then show ?thesis unfolding century_step D_def E_def using j v(5,6,7) by auto
  next
    case False
    then have "1461 * (r + 1) div 4 \<le> 1461 * 99 div 4" using v(2) by (intro zdiv_mono1) simp_all
    then show ?thesis unfolding century_step using E(2) by (auto simp: D_def)
  qed
  note n = decode_century [OF D this] and r = decode_year [OF v(1,2) E] and m = decode_month [OF v(3-6)]
  have C: "0 \<le> century_days n" using assms(2) by (simp add: century_days_def)
  let ?L = "march_days n r j d"
  have L: "?L = century_days n + D" by (simp add: march_days_def D_def E_def)
  have 1: "(4 * ?L) sdiv 146097 = n" using n C D by (simp add: L sdiv_pos)
  have 2: "?L - (146097 * n + 3) sdiv 4 = D" using assms(2) by (simp add: L sdiv_pos century_days_def)
  have 3: "(4000 * (D + 1)) sdiv 1461001 = r" using r D by (simp add: D_def sdiv_pos add.assoc)
  have 4: "D - (1461 * r) sdiv 4 + 31 = 2447 * j div 80 + d" using v(1) by (simp add: D_def E_def sdiv_pos)
  have p: "0 \<le> 2447 * j div 80 + d" using v(3,5) by simp
  have 5: "(80 * (2447 * j div 80 + d)) sdiv 2447 = j" using m p by (simp add: sdiv_pos)
  have 6: "2447 * j div 80 + d - (2447 * j) sdiv 80 = d" "j sdiv 11 = j div 11" using v(3) by (simp_all add: sdiv_pos)
  show ?thesis unfolding julian_to_date_def Let_def diff_add_cancel 1 2 3 4 5 6 ..
qed

text \<open>Every date is a day of such a year, and every day number is one.\<close>

lemma march_of_date:
  assumes "valid_date y m d" and "- 4799 \<le> y"
  shows "\<exists>n r j. 0 \<le> n \<and> march_valid n r j d \<and> date_to_julian y m d + 68569 = march_days n r j d \<and>
    civil_year n r j = y \<and> civil_month j = m"
proof -
  define b :: int where "b = (if m \<le> 2 then 1 else 0)"
  let ?n = "(y - b) div 100 + 49" and ?r = "(y - b) mod 100" and ?j = "m - 2 + 12 * b"
  have m: "1 \<le> m" "m \<le> 12" using assms(1) by (simp_all add: valid_date_def)
  have j: "1 \<le> ?j" "?j \<le> 12" "?j div 11 = b" using m by (auto simp: b_def)
  have y: "civil_year ?n ?r ?j = y" "civil_month ?j = m" using div_mult_mod_eq [of "y - b" 100] unfolding j(3) by simp_all
  have "- 48 * 100 \<le> y - b" using assms(2) by (simp add: b_def)
  then have n: "0 \<le> ?n" using zdiv_mono1 [of "- 48 * 100" "y - b" 100] by simp
  have "march_valid ?n ?r ?j d" using march_valid_iff [OF _ _ j(1,2), of ?r ?n d] assms(1) y by simp
  moreover have "date_to_julian y m d + 68569 = march_days ?n ?r ?j d"
    using date_to_julian_march [OF m assms(2), of d] unfolding b_def .
  ultimately show ?thesis using n y by blast
qed

lemma julian_roundtrip:
  assumes "valid_date y m d" and "- 4799 \<le> y"
  shows "julian_to_date (date_to_julian y m d) = (y, m, d)"
proof -
  obtain n r j where v: "0 \<le> n" "march_valid n r j d" "date_to_julian y m d + 68569 = march_days n r j d"
    "civil_year n r j = y" "civil_month j = m" using march_of_date [OF assms] by blast
  then have "date_to_julian y m d = march_days n r j d - 68569" by simp
  then show ?thesis using julian_to_date_march [OF v(2,1)] v(4,5) by simp
qed

lemma march_surj:
  assumes "0 \<le> L"
  shows "\<exists>n r j d. 0 \<le> n \<and> march_valid n r j d \<and> L = march_days n r j d"
proof -
  define n where "n = 4 * L div 146097"
  define D where "D = L - century_days n"
  have n: "0 \<le> n" "146097 * n \<le> 4 * L" "4 * L < 146097 * (n + 1)" using assms unfolding n_def by auto
  have D: "0 \<le> D" "D < century_days (n + 1) - century_days n"
    using n(2,3) century_bounds [of n] century_bounds [of "n + 1"] by (simp_all add: D_def)
  define r where "r = 4000 * (D + 1) div 1461001"
  have r: "0 \<le> r" "1461001 * r \<le> 4000 * (D + 1)" "4000 * (D + 1) < 1461001 * (r + 1)" using D(1) unfolding r_def by auto
  define E where "E = D - 1461 * r div 4"
  have lim: "D < 36525" using D(2) unfolding century_step by (auto split: if_splits)
  then have r99: "r < 100" using r(2) by simp
  have E0: "0 \<le> E"
  proof (rule ccontr)
    assume "\<not> 0 \<le> E"
    then have "4 * D + 4 \<le> 1461 * r" using year_bounds(2) [of r] by (simp add: E_def)
    then have "r \<le> 0" using r(2) by simp
    then show False using \<open>4 * D + 4 \<le> 1461 * r\<close> D(1) by simp
  qed
  have E: "E < 1461 * (r + 1) div 4 - 1461 * r div 4"
  proof (rule ccontr)
    assume "\<not> E < 1461 * (r + 1) div 4 - 1461 * r div 4"
    then have "1461 * (r + 1) - 3 \<le> 4 * D" using year_bounds(1) [of "r + 1"] by (simp add: E_def)
    then show False using r(3) r99 by simp
  qed
  then have E365: "E \<le> 365" "E = 365 \<Longrightarrow> r mod 4 = 3" unfolding year_step by (auto split: if_splits)
  define j where "j = 80 * (E + 31) div 2447"
  have j: "2447 * j \<le> 80 * (E + 31)" "80 * (E + 31) < 2447 * (j + 1)" unfolding j_def by auto
  then have j12: "1 \<le> j" "j \<le> 12" using E0 E365(1) by simp_all
  define d where "d = E + 31 - 2447 * j div 80"
  have "j \<in> {1, 2, 3, 4, 5, 6, 7, 8, 9, 10, 11, 12}" using j12 months by blast
  then have d: "1 \<le> d" "2447 * j div 80 + d < (if j = 12 then 397 else 1 + 2447 * (j + 1) div 80)"
    using j E365(1) unfolding d_def by auto
  have "r mod 4 = 3 \<and> (r = 99 \<longrightarrow> n mod 4 = 0)" if "j = 12 \<and> d = 29"
  proof -
    have e: "E = 365" using that by (auto simp: d_def)
    moreover have "n mod 4 = 0" if "r = 99"
    proof -
      have "D = 36524" using e that by (simp add: E_def)
      then show ?thesis using D(2) unfolding century_step by (auto split: if_splits)
    qed
    ultimately show ?thesis using E365(2) by blast
  qed
  then have "march_valid n r j d" unfolding march_valid_def using r(1) r99 j12 d by blast
  moreover have "L = march_days n r j d" by (simp add: march_days_def d_def E_def D_def)
  ultimately show ?thesis using n(1) by blast
qed

lemma civil_month_inv:
  assumes "1 \<le> j" and "j \<le> 12"
  shows "j = (if civil_month j \<le> 2 then civil_month j + 10 else civil_month j - 2)"
proof -
  have "j \<in> {1, 2, 3, 4, 5, 6, 7, 8, 9, 10, 11, 12}" using assms months by blast
  then show ?thesis by (elim insertE emptyE) simp_all
qed

lemma julian_of_number:
  assumes "0 \<le> jd" and "julian_to_date jd = (y, m, d)"
  shows "valid_date y m d" "date_to_julian y m d = jd" "- 4799 \<le> y"
proof -
  have "0 \<le> jd + 68569" using assms(1) by simp
  then obtain n r j d' where v: "0 \<le> n" "march_valid n r j d'" "jd + 68569 = march_days n r j d'"
    using march_surj [of "jd + 68569"] by blast
  then have "jd = march_days n r j d' - 68569" by simp
  then have e: "y = civil_year n r j" "m = civil_month j" "d = d'"
    using julian_to_date_march [OF v(2,1)] assms(2) by simp_all
  have b: "0 \<le> r" "r < 100" "1 \<le> j" "j \<le> 12" using v(2) by (simp_all add: march_valid_def)
  show valid: "valid_date y m d" using march_valid_iff [OF b, of n d'] v(2) e by simp
  have lim: "2447 * j div 80 + d' < 397"
    using v(2) b(4) zdiv_mono1 [of "2447 * (j + 1)" "2447 * 12" 80] by (auto simp: march_valid_def split: if_splits)
  have "1 \<le> n"
  proof (rule ccontr)
    assume "\<not> 1 \<le> n"
    then have "n = 0" using v(1) by simp
    then have "march_days n r j d' \<le> 1461 * 99 div 4 + 366"
      using lim zdiv_mono1 [of "1461 * r" "1461 * 99" 4] b(2) by (simp add: march_days_def century_days_def)
    then show False using v(3) assms(1) by simp
  qed
  moreover have "\<not> (n = 1 \<and> r = 0)" using v(3) assms(1) lim by (auto simp: march_days_def century_days_def)
  ultimately show y: "- 4799 \<le> y" using b(1,3) e(1) by (cases "n = 1") auto
  obtain n' r' j' where w: "0 \<le> n'" "march_valid n' r' j' d" "date_to_julian y m d + 68569 = march_days n' r' j' d"
    "civil_year n' r' j' = y" "civil_month j' = m" using march_of_date [OF valid y] by blast
  have "march_days n' r' j' d = march_days n r j d'"
  proof -
    have "1 \<le> j'" "j' \<le> 12" using w(2) by (simp_all add: march_valid_def)
    then have "j' = j" using civil_month_inv [of j] civil_month_inv [of j'] b(3,4) w(5) e(2) by metis
    moreover have "100 * (n' - n) = r - r'" using w(4) e(1) calculation by simp
    moreover have "0 \<le> r'" "r' < 100" using w(2) by (simp_all add: march_valid_def)
    ultimately have "n' = n" using b(1,2) by (cases n' n rule: linorder_cases) simp_all
    then have "n' = n \<and> r' = r" using \<open>100 * (n' - n) = r - r'\<close> by simp
    with \<open>j' = j\<close> show ?thesis by (simp add: e(3))
  qed
  then show "date_to_julian y m d = jd" using w(3) v(3) by simp
qed

text \<open>One day later.\<close>

lemma march_year_step:
  assumes "0 \<le> r" and "r < 100" and "A = 100 * q + r"
  shows "century_days ((A + 1) div 100 + 49) + 1461 * ((A + 1) mod 100) div 4 =
    century_days (q + 49) + 1461 * r div 4 + (if leap_year (A + 1) then 366 else 365)"
proof -
  have lp: "leap_year (A + 1) \<longleftrightarrow> r mod 4 = 3 \<and> (r = 99 \<longrightarrow> (q + 49) mod 4 = 0)"
    using march_leap [OF assms(1,2), of "q + 49"] by (simp add: assms(3))
  show ?thesis
  proof (cases "r = 99")
    case True
    then have "A + 1 = 100 * (q + 1)" using assms(3) by simp
    then have "(A + 1) div 100 = q + 1" "(A + 1) mod 100 = 0" by simp_all
    then show ?thesis using century_step [of "q + 49"] lp True by (auto simp: add.assoc split: if_splits)
  next
    case False
    have e: "(A + 1) div 100 = q" "(A + 1) mod 100 = r + 1" using assms False by (simp_all add: add.assoc)
    have lp': "leap_year (A + 1) \<longleftrightarrow> r mod 4 = 3" using lp False by blast
    show ?thesis unfolding e lp' using year_step [of r] by linarith
  qed
qed

definition year_start :: "int \<Rightarrow> int" where
  "year_start A = century_days (A div 100 + 49) + 1461 * (A mod 100) div 4"

lemma year_start_step: "year_start (A + 1) = year_start A + (if leap_year (A + 1) then 366 else 365)"
proof -
  have "A = 100 * (A div 100) + A mod 100" "0 \<le> A mod 100" "A mod 100 < 100" by simp_all
  from march_year_step [OF this(2,3,1)] show ?thesis unfolding year_start_def .
qed

lemma date_to_julian_year:
  assumes "1 \<le> m" and "m \<le> 12" and "- 4799 \<le> y"
  shows "date_to_julian y m d + 68569 =
    (if m \<le> 2 then year_start (y - 1) + 2447 * (m + 10) div 80 else year_start y + 2447 * (m - 2) div 80) + d - 31"
  using date_to_julian_march [OF assms, of d] unfolding march_days_def year_start_def
  by (cases "m \<le> 2") (simp_all only: if_True if_False diff_zero mult_1_right mult_zero_right add_0_right, simp_all add: algebra_simps)

lemma julian_next_day:
  assumes "valid_date y m d" and "- 4799 \<le> y" and "next_day y m d = (y', m', d')"
  shows "date_to_julian y' m' d' = date_to_julian y m d + 1"
proof -
  have m: "1 \<le> m" "m \<le> 12" "d \<le> days_in_month y m" using assms(1) by (simp_all add: valid_date_def)
  note j = date_to_julian_year [OF m(1,2) assms(2)]
  consider "d < days_in_month y m" | "d = days_in_month y m" "m = 2" | "d = days_in_month y m" "m = 12"
    | "d = days_in_month y m" "m \<in> {1, 3, 4, 5, 6, 7, 8, 9, 10, 11}"
  proof -
    have "m \<in> {1, 2, 3, 4, 5, 6, 7, 8, 9, 10, 11, 12}" using m months by blast
    then have "m = 2 \<or> m = 12 \<or> m \<in> {1, 3, 4, 5, 6, 7, 8, 9, 10, 11}" by blast
    moreover have "d < days_in_month y m \<or> d = days_in_month y m" using m(3) by linarith
    ultimately show thesis using that by blast
  qed
  then show ?thesis
  proof cases
    case 1
    then have "y' = y" "m' = m" "d' = d + 1" using assms(3) by (simp_all add: next_day_def)
    then show ?thesis using j [of d] j [of "d + 1"] by simp
  next
    case 2
    have "y' = y" "m' = 3" "d' = 1" using 2 assms(3) by (simp_all add: next_day_def)
    moreover have "d = (if leap_year y then 29 else 28)" using 2 by (simp add: days_in_month_def)
    ultimately show ?thesis using j [of d] date_to_julian_year [of 3 y 1] assms(2) year_start_step [of "y - 1"] 2(2)
      by (cases "leap_year y") simp_all
  next
    case 3
    have "y' = y + 1" "m' = 1" "d' = 1" "d = 31" using 3 assms(3) by (simp_all add: next_day_def days_in_month_def)
    then show ?thesis using j [of d] date_to_julian_year [of 1 "y + 1" 1] assms(2) 3(2) by simp
  next
    case 4
    have "y' = y" "m' = m + 1" "d' = 1" using 4 assms(3) by (auto simp: next_day_def)
    then show ?thesis using j [of d] date_to_julian_year [of "m + 1" y 1] assms(2) 4
      by (elim insertE emptyE) (simp_all add: days_in_month_def)
  qed
qed

section \<open>Times\<close>

definition valid_tm :: "tm \<Rightarrow> bool" where
  "valid_tm t \<longleftrightarrow> valid_date (tm_year t + 1900) (tm_mon t + 1) (tm_mday t) \<and> 0 \<le> tm_hour t \<and> tm_hour t < 24 \<and>
     0 \<le> tm_min t \<and> tm_min t < 60 \<and> 0 \<le> tm_sec t \<and> tm_sec t < 60"

definition day_seconds :: "tm \<Rightarrow> int" where
  "day_seconds t = tm_hour t * 3600 + tm_min t * 60 + tm_sec t"

definition tm_julian :: "tm \<Rightarrow> int" where
  "tm_julian t = date_to_julian (tm_year t + 1900) (tm_mon t + 1) (tm_mday t)"

text \<open>Seconds since the beginning of 1970, whose day number is 2440588.\<close>

definition tm_seconds :: "tm \<Rightarrow> int" where
  "tm_seconds t = 86400 * (tm_julian t - 2440588) + day_seconds t"

lemma day_seconds_range: "valid_tm t \<Longrightarrow> 0 \<le> day_seconds t \<and> day_seconds t < 86400"
  by (simp add: valid_tm_def day_seconds_def)

lemma sdiv_rest: "0 < b \<Longrightarrow> \<bar>a - (a sdiv b) * b\<bar> < (b :: int)"
proof (cases "0 \<le> a")
  case True
  assume "0 < b"
  then show ?thesis using True by (simp add: sdiv_pos minus_div_mult_eq_mod)
next
  case False
  assume b: "0 < b"
  have "(- a) sdiv b = (- a) div b" using False b by (intro sdiv_pos) simp_all
  then have "a sdiv b = - ((- a) div b)" by (simp add: signed_divide_int_def)
  then have "a - (a sdiv b) * b = - ((- a) - (- a) div b * b)" by simp
  then show ?thesis using b by (simp only: abs_minus minus_div_mult_eq_mod) simp
qed

text \<open>\<open>julian_adj\<close> splits the time that is meant into its day and its seconds.\<close>

lemma julian_adj_eq:
  assumes "valid_tm t" and T_def: "T = 86400 * tm_julian t + day_seconds t + 86400 * off_day + offset_sec"
  shows "julian_adj t off_day offset_sec = (if T < 0 then None else Some (T div 86400, T mod 86400))"
proof -
  define q where "q = offset_sec sdiv 86400"
  define h where "h = offset_sec - q * 86400"
  have "\<bar>h\<bar> < 86400" unfolding h_def q_def by (rule sdiv_rest) simp
  then have h: "- 86400 < h" "h < 86400" by linarith+
  note s = day_seconds_range [OF assms(1)]
  define c :: int where "c = (if h + day_seconds t \<ge> 86400 then 1 else if h + day_seconds t < 0 then - 1 else 0)"
  define jd where "jd = tm_julian t + (q + off_day + c)"
  define sec where "sec = h + day_seconds t - 86400 * c"
  have "julian_adj t off_day offset_sec = (if jd < 0 then None else Some (jd, sec))"
    unfolding julian_adj_def SECS_PER_DAY_def Let_def
    using q_def h_def by (simp add: jd_def sec_def c_def tm_julian_def day_seconds_def)
  moreover have sec: "0 \<le> sec" "sec < 86400" using h s by (auto simp add: sec_def c_def)
  moreover have T: "T = sec + jd * 86400" by (simp add: T_def jd_def sec_def h_def algebra_simps)
  then have "T div 86400 = jd" "T mod 86400 = sec" using sec by simp_all
  moreover have "T < 0 \<longleftrightarrow> jd < 0" using T sec by simp linarith
  ultimately show ?thesis by simp
qed

lemma hms_of_seconds:
  assumes "0 \<le> s" and "s < 86400"
  shows "s sdiv 3600 * 3600 + (s sdiv 60) smod 60 * 60 + s smod 60 = (s :: int)"
    "0 \<le> s sdiv 3600" "s sdiv 3600 < 24" "0 \<le> (s sdiv 60) smod 60" "(s sdiv 60) smod 60 < 60" "0 \<le> s smod 60" "s smod 60 < 60"
proof -
  have e: "s sdiv 3600 = s div 60 div 60" "s sdiv 60 = s div 60" "s smod 60 = s mod 60"
    using assms(1) zdiv_zmult2_eq [of 60 s 60] by (simp_all add: sdiv_pos smod_pos)
  have p: "0 \<le> s div 60" using assms(1) by simp
  then have m: "(s sdiv 60) smod 60 = s div 60 mod 60" by (simp add: e smod_pos)
  show "s sdiv 3600 * 3600 + (s sdiv 60) smod 60 * 60 + s smod 60 = s"
    using div_mult_mod_eq [of s 60] div_mult_mod_eq [of "s div 60" 60] unfolding m e(1,3) by linarith
  show "0 \<le> s sdiv 3600" using p by (simp add: e)
  have "s div 60 div 60 = s div 3600" using zdiv_zmult2_eq [of 60 s 60] by simp
  then show "s sdiv 3600 < 24" using assms(2) by (simp add: e)
  show "0 \<le> (s sdiv 60) smod 60" "(s sdiv 60) smod 60 < 60" "0 \<le> s smod 60" "s smod 60 < 60" unfolding m e(3) by simp_all
qed

lemma tm_seconds_unique:
  assumes "valid_tm t" and "valid_tm u" and "tm_seconds t = tm_seconds u"
  shows "tm_julian t = tm_julian u \<and> day_seconds t = day_seconds u"
proof -
  have e: "tm_julian v = (tm_seconds v + 86400 * 2440588) div 86400 \<and> day_seconds v = (tm_seconds v + 86400 * 2440588) mod 86400"
    if "valid_tm v" for v using day_seconds_range [OF that] by (simp add: tm_seconds_def right_diff_distrib)
  show ?thesis using e [OF assms(1)] e [OF assms(2)] assms(3) by simp
qed

lemma tm_julian_pos: "valid_tm t \<Longrightarrow> 0 \<le> tm_year t + 1900 \<Longrightarrow> 0 \<le> tm_julian t"
proof -
  assume v: "valid_tm t" and y: "0 \<le> tm_year t + 1900"
  have start: "68600 \<le> year_start A" if "- 1 \<le> A" for A
  proof -
    have "- 1 \<le> A div 100" using that by auto
    then have "4 * 68600 \<le> 4 * century_days (A div 100 + 49)" using century_bounds(1) [of "A div 100 + 49"] by simp
    moreover have "0 \<le> 1461 * (A mod 100) div 4" by simp
    ultimately show ?thesis by (simp add: year_start_def)
  qed
  have m: "1 \<le> tm_mon t + 1" "tm_mon t + 1 \<le> 12" "1 \<le> tm_mday t" "- 4799 \<le> tm_year t + 1900"
    using v y by (simp_all add: valid_tm_def valid_date_def)
  have "0 \<le> 2447 * (tm_mon t + 11) div 80" "\<not> tm_mon t + 1 \<le> 2 \<Longrightarrow> 0 \<le> 2447 * (tm_mon t - 1) div 80" using m by simp_all
  then show ?thesis
    using date_to_julian_year [OF m(1,2,4), of "tm_mday t"] start [of "tm_year t + 1900"] start [of "tm_year t + 1900 - 1"] y m(3)
    by (cases "tm_mon t + 1 \<le> 2") (simp_all add: tm_julian_def)
qed

text \<open>
  The C code computes in \<open>int\<close> (32 bits) except for the day numbers, which are \<open>long\<close> (64 bits). Its
  intermediate values stay in the range of their types for the years up to 1000000 and the
  offsets below; the definitions therefore use unbounded integers, and the properties assume
  these bounds.
\<close>

definition int_range :: "int \<Rightarrow> bool" where
  "int_range x \<longleftrightarrow> - (2 ^ 31) \<le> x \<and> x < 2 ^ 31"

definition in_bounds :: "tm \<Rightarrow> int \<Rightarrow> int \<Rightarrow> bool" where
  "in_bounds t off_day offset_sec \<longleftrightarrow> - 4799 \<le> tm_year t + 1900 \<and> tm_year t + 1900 \<le> 1000000 \<and>
     \<bar>off_day\<bar> < 2000000000 \<and> \<bar>offset_sec\<bar> < 2 ^ 31"

lemma date_to_julian_range:
  assumes "valid_date y m d" and "- 4799 \<le> y" and "y \<le> 1000000"
  shows "int_range (1461 * (y + 4800 + (m - 14) sdiv 12))" "int_range (367 * (m - 2 - 12 * ((m - 14) sdiv 12)))"
    "int_range (3 * ((y + 4900 + (m - 14) sdiv 12) sdiv 100))" "int_range (date_to_julian y m d)"
proof -
  have b: "1 \<le> m" "m \<le> 12" "1 \<le> d" "d \<le> 31" using assms(1) by (auto simp: valid_date_def days_in_month_def split: if_splits)
  then have "m \<in> {1, 2, 3, 4, 5, 6, 7, 8, 9, 10, 11, 12}" using months by blast
  then have m: "(m - 14) sdiv 12 = (if m \<le> 2 then - 1 else 0)"
    by (elim insertE emptyE) (simp_all add: signed_divide_int_def)
  have q: "(y + 4900 + (m - 14) sdiv 12) sdiv 100 = (y + 4900 + (m - 14) sdiv 12) div 100"
    using assms(2) by (intro sdiv_pos) (auto simp: m)
  show y4: "int_range (1461 * (y + 4800 + (m - 14) sdiv 12))" and m12: "int_range (367 * (m - 2 - 12 * ((m - 14) sdiv 12)))"
    using assms(2,3) b by (auto simp: int_range_def m)
  show y3: "int_range (3 * ((y + 4900 + (m - 14) sdiv 12) sdiv 100))"
    using assms(2,3) unfolding q by (auto simp: int_range_def m)
  have "0 \<le> 1461 * (y + 4800 + (m - 14) sdiv 12)" "1461 * (y + 4800 + (m - 14) sdiv 12) \<le> 1500000000"
    "0 \<le> 367 * (m - 2 - 12 * ((m - 14) sdiv 12))" "367 * (m - 2 - 12 * ((m - 14) sdiv 12)) \<le> 10000"
    "0 \<le> 3 * ((y + 4900 + (m - 14) sdiv 12) sdiv 100)" "3 * ((y + 4900 + (m - 14) sdiv 12) sdiv 100) \<le> 100000"
    using assms(2,3) b unfolding q by (auto simp: m)
  then show "int_range (date_to_julian y m d)"
    unfolding date_to_julian_def int_range_def using b by (auto simp: sdiv_pos)
qed

text \<open>Every \<open>int\<close> that \<open>date_to_julian\<close> computes on the way is in range.\<close>

definition date_to_julian_fits :: "int \<Rightarrow> int \<Rightarrow> int \<Rightarrow> bool" where
  "date_to_julian_fits y m d \<longleftrightarrow>
     (let q = (m - 14) sdiv 12; a = 1461 * (y + 4800 + q); b = 367 * (m - 2 - 12 * q); c = 3 * ((y + 4900 + q) sdiv 100)
      in list_all int_range [y + 4800 + q, a, b, y + 4900 + q, c, a sdiv 4 + b sdiv 12, a sdiv 4 + b sdiv 12 - c sdiv 4,
           a sdiv 4 + b sdiv 12 - c sdiv 4 + d, date_to_julian y m d])"

lemma date_to_julian_fits:
  assumes "valid_date y m d" and "- 4799 \<le> y" and "y \<le> 1465072"
  shows "date_to_julian_fits y m d"
proof -
  have b: "1 \<le> m" "m \<le> 12" "1 \<le> d" "d \<le> 31" using assms(1) by (auto simp: valid_date_def days_in_month_def split: if_splits)
  then have "m \<in> {1, 2, 3, 4, 5, 6, 7, 8, 9, 10, 11, 12}" using months by blast
  then have m: "(m - 14) sdiv 12 = (if m \<le> 2 then - 1 else 0)"
    by (elim insertE emptyE) (simp_all add: signed_divide_int_def)
  define q where "q = (m - 14) sdiv 12"
  define a1 where "a1 = 1461 * (y + 4800 + q)"
  define b1 where "b1 = 367 * (m - 2 - 12 * q)"
  define c1 where "c1 = 3 * ((y + 4900 + q) sdiv 100)"
  have q: "- 1 \<le> q" "q \<le> 0" "m - 2 - 12 * q \<le> 12" "0 \<le> m - 2 - 12 * q" using b by (auto simp: q_def m)
  have a1: "0 \<le> a1" "a1 \<le> 2147482992" using assms(2,3) q by (auto simp: a1_def)
  have b1: "0 \<le> b1" "b1 \<le> 4404" using q by (simp_all add: b1_def)
  have "(y + 4900 + q) sdiv 100 = (y + 4900 + q) div 100" using assms(2) q by (intro sdiv_pos) simp_all
  then have c1: "0 \<le> c1" "c1 \<le> 45000" using assms(2,3) q by (simp_all add: c1_def)
  have "0 \<le> a1 sdiv 4" "a1 sdiv 4 \<le> 536870748" "0 \<le> b1 sdiv 12" "b1 sdiv 12 \<le> 367" "0 \<le> c1 sdiv 4" "c1 sdiv 4 \<le> 11250"
    using a1 b1 c1 by (simp_all add: sdiv_pos)
  moreover have "date_to_julian y m d = a1 sdiv 4 + b1 sdiv 12 - c1 sdiv 4 + d - 32075"
    by (simp add: date_to_julian_def a1_def b1_def c1_def q_def)
  ultimately show ?thesis using a1 b1 c1 q b assms(2,3)
    unfolding date_to_julian_fits_def q_def [symmetric] Let_def a1_def [symmetric] b1_def [symmetric] c1_def [symmetric]
    by (simp add: int_range_def)
qed

text \<open>One year later the first product overflows.\<close>

lemma date_to_julian_overflows: "valid_date 1465073 3 1 \<and> \<not> date_to_julian_fits 1465073 3 1"
  by code_simp

lemma int_cast: "int_range x \<Longrightarrow> signed_take_bit 31 x = x"
  by (simp add: int_range_def signed_take_bit_int_eq_self)

lemma julian_adj_range:
  assumes "valid_tm t" and "in_bounds t off_day offset_sec"
  shows "int_range (offset_sec sdiv 86400)" "int_range (offset_sec sdiv 86400 * 86400)" "int_range (offset_sec sdiv 86400 + off_day + 1)"
    "int_range (offset_sec sdiv 86400 + off_day - 1)" "int_range (offset_sec - offset_sec sdiv 86400 * 86400 + day_seconds t)"
proof -
  have h: "\<bar>offset_sec - offset_sec sdiv 86400 * 86400\<bar> < 86400" by (rule sdiv_rest) simp
  have a: "\<bar>offset_sec sdiv 86400 * 86400\<bar> \<le> \<bar>offset_sec\<bar>"
  proof -
    have "\<bar>offset_sec\<bar> div 86400 * 86400 \<le> \<bar>offset_sec\<bar>" by simp
    then show ?thesis by (cases "offset_sec < 0") (simp_all add: signed_divide_int_def abs_mult)
  qed
  then have "\<bar>offset_sec sdiv 86400\<bar> \<le> 24856" using assms(2) unfolding in_bounds_def int_range_def abs_mult by simp
  then show "int_range (offset_sec sdiv 86400)" "int_range (offset_sec sdiv 86400 + off_day + 1)"
    "int_range (offset_sec sdiv 86400 + off_day - 1)"
    using assms(2) by (auto simp: in_bounds_def int_range_def)
  show "int_range (offset_sec sdiv 86400 * 86400)" using a assms(2) by (simp add: in_bounds_def int_range_def del: abs_mult) linarith
  show "int_range (offset_sec - offset_sec sdiv 86400 * 86400 + day_seconds t)"
    using h day_seconds_range [OF assms(1)] by (auto simp: int_range_def)
qed

lemma julian_zero: "valid_tm t \<Longrightarrow> julian_adj t 0 0 = (if tm_julian t < 0 then None else Some (tm_julian t, day_seconds t))"
  using julian_adj_eq [of t "86400 * tm_julian t + day_seconds t" 0 0] day_seconds_range [of t]
  by (auto split: if_splits)

text \<open>What \<open>OPENSSL_gmtime_adj\<close> computes when no operation overflows.\<close>

lemma gmtime_adj_effect:
  assumes "valid_tm t"
  shows "(case OPENSSL_gmtime_adj t off_day offset_sec of
      Some u \<Rightarrow> valid_tm u \<and> 0 \<le> tm_year u \<and> tm_year u \<le> 8099 \<and> tm_seconds u = tm_seconds t + 86400 * off_day + offset_sec
    | None \<Rightarrow> \<nexists>u. valid_tm u \<and> 0 \<le> tm_year u \<and> tm_year u \<le> 8099 \<and> tm_seconds u = tm_seconds t + 86400 * off_day + offset_sec)"
proof -
  define T where "T = 86400 * tm_julian t + day_seconds t + 86400 * off_day + offset_sec"
  have T: "tm_seconds t + 86400 * off_day + offset_sec = T - 86400 * 2440588" by (simp add: T_def tm_seconds_def)
  note adj = julian_adj_eq [OF assms T_def]
  have meant: "T = 86400 * tm_julian u + day_seconds u" if "tm_seconds u = tm_seconds t + 86400 * off_day + offset_sec" for u
    using that unfolding T by (simp add: tm_seconds_def right_diff_distrib)
  show ?thesis
  proof (cases "T < 0")
    case True
    have "\<not> (valid_tm u \<and> 0 \<le> tm_year u \<and> tm_seconds u = tm_seconds t + 86400 * off_day + offset_sec)" for u
      using meant [of u] tm_julian_pos [of u] day_seconds_range [of u] True by auto
    then show ?thesis using True by (auto simp: OPENSSL_gmtime_adj_def adj)
  next
    case False
    obtain y m d where c: "julian_to_date (T div 86400) = (y, m, d)" by (metis prod_cases3)
    have "0 \<le> T div 86400" using False by simp
    note jd = julian_of_number [OF this c]
    let ?u = "t\<lparr>tm_year := y - 1900, tm_mon := m - 1, tm_mday := d,
      tm_hour := T mod 86400 sdiv 3600, tm_min := (T mod 86400 sdiv 60) smod 60, tm_sec := T mod 86400 smod 60\<rparr>"
    have r: "OPENSSL_gmtime_adj t off_day offset_sec = (if y < 1900 \<or> y > 9999 then None else Some ?u)"
      using False by (simp add: OPENSSL_gmtime_adj_def adj c)
    have s: "0 \<le> T mod 86400" "T mod 86400 < 86400" by simp_all
    have "day_seconds ?u = T mod 86400" using hms_of_seconds(1) [OF s] by (simp add: day_seconds_def)
    moreover have "tm_julian ?u = T div 86400" using jd(2) by (simp add: tm_julian_def)
    ultimately have sec: "tm_seconds ?u = T - 86400 * 2440588" by (simp add: tm_seconds_def)
    have v: "valid_tm ?u" using jd(1) hms_of_seconds [OF s] by (simp add: valid_tm_def)
    show ?thesis
    proof (cases "y < 1900 \<or> y > 9999")
      case True
      have "\<not> (valid_tm u \<and> 0 \<le> tm_year u \<and> tm_year u \<le> 8099 \<and> tm_seconds u = T - 86400 * 2440588)" for u
      proof
        assume u: "valid_tm u \<and> 0 \<le> tm_year u \<and> tm_year u \<le> 8099 \<and> tm_seconds u = T - 86400 * 2440588"
        then have "tm_julian u = T div 86400" using tm_seconds_unique [OF _ v] sec \<open>tm_julian ?u = T div 86400\<close> by simp
        moreover have "julian_to_date (tm_julian u) = (tm_year u + 1900, tm_mon u + 1, tm_mday u)"
          unfolding tm_julian_def using u by (intro julian_roundtrip) (simp_all add: valid_tm_def)
        ultimately show False using c True u by simp
      qed
      then show ?thesis using True by (simp add: r T)
    next
      case False
      then show ?thesis using v sec by (simp add: r T)
    qed
  qed
qed

section \<open>Properties\<close>

text \<open>C31: the day numbers are those of the Gregorian calendar: day 2440588 is the first of January
  1970, every later date has the number after that of its predecessor, and the conversion back
  recovers the date, for every valid date from the year -4799 to the year 1000000 (so that no
  \<open>int\<close> of the computation overflows).\<close>

theorem julian_calendar:
  assumes "valid_date y m d" and "- 4799 \<le> y" and "y \<le> 1000000"
  shows "julian_to_date (date_to_julian y m d) = (y, m, d) \<and> int_range (date_to_julian y m d) \<and>
    (case next_day y m d of (y', m', d') \<Rightarrow> date_to_julian y' m' d' = date_to_julian y m d + 1) \<and>
    date_to_julian 1970 1 1 = 2440588"
proof -
  have "date_to_julian 1970 1 1 = 2440588" by (simp add: date_to_julian_def signed_divide_int_def)
  then show ?thesis using julian_roundtrip [OF assms(1,2)] julian_next_day [OF assms(1,2)] date_to_julian_range(4) [OF assms]
    by (simp split: prod.splits)
qed

theorem julian_calendar_witness:
  "julian_to_date (date_to_julian 2024 2 29) = (2024, 2, 29) \<and> date_to_julian 2024 3 1 = date_to_julian 2024 2 29 + 1"
proof -
  have "valid_date 2024 2 29" "(- 4799 :: int) \<le> 2024" by (simp_all add: valid_date_def days_in_month_def leap_year_def)
  moreover have "next_day 2024 2 29 = (2024, 3, 1)" by (simp add: next_day_def days_in_month_def leap_year_def)
  ultimately show ?thesis using julian_calendar [of 2024 2 29] by simp
qed

text \<open>C32: moving a time. \<open>OPENSSL_gmtime_adj\<close> adds exactly the days and seconds it is given, for
  offsets of either sign whose computation does not overflow, and yields a valid broken-down time; it fails exactly
  when no valid time in the years 1900 to 9999 is meant.\<close>

theorem gmtime_adj_adds:
  assumes "valid_tm t" and "in_bounds t off_day offset_sec"
  shows "(case OPENSSL_gmtime_adj t off_day offset_sec of
      Some u \<Rightarrow> valid_tm u \<and> 0 \<le> tm_year u \<and> tm_year u \<le> 8099 \<and> tm_seconds u = tm_seconds t + 86400 * off_day + offset_sec
    | None \<Rightarrow> \<nexists>u. valid_tm u \<and> 0 \<le> tm_year u \<and> tm_year u \<le> 8099 \<and> tm_seconds u = tm_seconds t + 86400 * off_day + offset_sec)"
  by (rule gmtime_adj_effect [OF assms(1)])

theorem gmtime_adj_adds_witness:
  "case OPENSSL_gmtime_adj \<lparr>tm_sec = 59, tm_min = 59, tm_hour = 23, tm_mday = 28, tm_mon = 1, tm_year = 100\<rparr> 365 1 of
     Some u \<Rightarrow> tm_seconds u = tm_seconds \<lparr>tm_sec = 59, tm_min = 59, tm_hour = 23, tm_mday = 28, tm_mon = 1, tm_year = 100\<rparr> + 31536001
   | None \<Rightarrow> False"
proof -
  let ?t = "\<lparr>tm_sec = 59, tm_min = 59, tm_hour = 23, tm_mday = 28, tm_mon = 1, tm_year = 100\<rparr>"
  have "valid_tm ?t" by (simp add: valid_tm_def valid_date_def days_in_month_def leap_year_def)
  moreover have "in_bounds ?t 365 1" by (simp add: in_bounds_def int_range_def)
  moreover have "OPENSSL_gmtime_adj ?t 365 1 \<noteq> None" by code_simp
  ultimately show ?thesis using gmtime_adj_adds [of ?t 365 1] by (auto split: option.splits)
qed

text \<open>C33: the distance of two times. For valid times of the years 0 to 1465072, the last for which the
  \<open>int\<close> arithmetic of \<open>date_to_julian\<close> stays in range, \<open>OPENSSL_gmtime_diff\<close> returns a result without an
  overflow on the way: days and seconds that add up to the difference of the two times, the seconds
  less than a day, and never days and seconds of opposite signs.\<close>

theorem gmtime_diff_exact:
  assumes "valid_tm from_tm" and "valid_tm to_tm" and "0 \<le> tm_year from_tm + 1900" and "0 \<le> tm_year to_tm + 1900"
    and "tm_year from_tm + 1900 \<le> 1465072" and "tm_year to_tm + 1900 \<le> 1465072"
  shows "\<exists>days secs. OPENSSL_gmtime_diff from_tm to_tm = Some (days, secs) \<and>
    86400 * days + secs = tm_seconds to_tm - tm_seconds from_tm \<and> \<bar>secs\<bar> < 86400 \<and>
    \<not> (days < 0 \<and> 0 < secs) \<and> \<not> (0 < days \<and> secs < 0) \<and>
    date_to_julian_fits (tm_year from_tm + 1900) (tm_mon from_tm + 1) (tm_mday from_tm) \<and>
    date_to_julian_fits (tm_year to_tm + 1900) (tm_mon to_tm + 1) (tm_mday to_tm)"
proof -
  have fits: "date_to_julian_fits (tm_year from_tm + 1900) (tm_mon from_tm + 1) (tm_mday from_tm)"
    "date_to_julian_fits (tm_year to_tm + 1900) (tm_mon to_tm + 1) (tm_mday to_tm)"
    using assms by (auto simp: valid_tm_def intro!: date_to_julian_fits)
  then have r: "tm_julian from_tm < 2 ^ 31" "tm_julian to_tm < 2 ^ 31"
    by (simp_all add: date_to_julian_fits_def tm_julian_def int_range_def Let_def)
  have p: "0 \<le> tm_julian from_tm" "0 \<le> tm_julian to_tm" using tm_julian_pos assms(1-4) by blast+
  have cast: "signed_take_bit 31 x = x" if "\<bar>x\<bar> \<le> \<bar>tm_julian to_tm - tm_julian from_tm\<bar>" for x
    using that p r by (intro int_cast) (auto simp: int_range_def)
  show ?thesis
    using day_seconds_range [OF assms(1)] day_seconds_range [OF assms(2)] p fits
    by (auto simp: OPENSSL_gmtime_diff_def julian_zero [OF assms(1)] julian_zero [OF assms(2)] tm_seconds_def SECS_PER_DAY_def Let_def cast)
qed

theorem gmtime_diff_exact_witness:
  "\<exists>days secs. OPENSSL_gmtime_diff \<lparr>tm_sec = 0, tm_min = 0, tm_hour = 12, tm_mday = 1, tm_mon = 0, tm_year = 120\<rparr>
       \<lparr>tm_sec = 0, tm_min = 0, tm_hour = 0, tm_mday = 1, tm_mon = 2, tm_year = 120\<rparr> = Some (days, secs) \<and>
     86400 * days + secs = 60 * 86400 - 12 * 3600"
proof -
  let ?a = "\<lparr>tm_sec = 0, tm_min = 0, tm_hour = 12, tm_mday = 1, tm_mon = 0, tm_year = 120\<rparr>"
  let ?b = "\<lparr>tm_sec = 0, tm_min = 0, tm_hour = 0, tm_mday = 1, tm_mon = 2, tm_year = 120\<rparr>"
  have "valid_tm ?a" "valid_tm ?b" by (simp_all add: valid_tm_def valid_date_def days_in_month_def)
  moreover have "0 \<le> tm_year ?a + 1900 \<and> tm_year ?a + 1900 \<le> 1465072" "0 \<le> tm_year ?b + 1900 \<and> tm_year ?b + 1900 \<le> 1465072"
    by simp_all
  moreover have "tm_seconds ?b - tm_seconds ?a = 60 * 86400 - 12 * 3600" by code_simp
  ultimately show ?thesis using gmtime_diff_exact [of ?a ?b] by metis
qed

end
