(* ===== verification/ASN1_String.thy ===== *)
theory ASN1_String
  imports Mem
begin

text \<open>
  \<open>crypto/asn1/asn1_lib.c\<close>: the header of an ASN.1 element as the older ASN.1 code reads and
  writes it, and the string object \<open>ASN1_STRING\<close>. A C \<open>int\<close> or \<open>long\<close> is an \<^typ>\<open>int\<close>; the
  theorems bound the lengths and tags so that no operation overflows. A pointer into a buffer is
  the list of the bytes from there on, and reading past the buffer, which the callers' limits
  exclude, is a failure.
\<close>

unbundle bit_operations_syntax

section \<open>Headers\<close>

definition MAX_INT :: int where
  "MAX_INT = 2 ^ 31 - 1"

definition V_ASN1_CONSTRUCTED :: u8 where
  "V_ASN1_CONSTRUCTED = 0x20"

definition V_ASN1_PRIVATE :: u8 where
  "V_ASN1_PRIVATE = 0xc0"

definition V_ASN1_PRIMITIVE_TAG :: u8 where
  "V_ASN1_PRIMITIVE_TAG = 0x1f"

definition V_ASN1_UNIVERSAL :: u8 where
  "V_ASN1_UNIVERSAL = 0x00"

definition V_ASN1_MAX_UNIVERSAL :: int where
  "V_ASN1_MAX_UNIVERSAL = 0xff"

definition asn1_get_length :: "bytes \<Rightarrow> int \<Rightarrow> (bool \<times> int \<times> bytes) option" where
  "asn1_get_length p lim =
     (if lim < 1 then None
      else case p of [] \<Rightarrow> None
      | b # p \<Rightarrow>
          if b = 0x80 then Some (True, 0, p)
          else
            let i = unat (b AND 0x7f) in
            if b AND 0x80 \<noteq> 0
            then if i > 8 \<or> lim - 1 < int i then None
              else let ret = be_word (take i p) :: u64 in
                if uint ret > MAX_INT div 2 then None else Some (False, uint ret, drop i p)
            else if int i > MAX_INT div 2 then None else Some (False, int i, p))"

text \<open>The bytes of a high tag number: the number so far, the rest of the buffer and of its length.\<close>

fun get_high_tag :: "bytes \<Rightarrow> int \<Rightarrow> int \<Rightarrow> (int \<times> bytes \<times> int) option" where
  "get_high_tag [] l lim = None"
| "get_high_tag (b # p) l lim =
     (let l = push_bit 7 l OR uint (b AND 0x7f); lim = lim - 1 in
      if b AND 0x80 \<noteq> 0
      then if lim = 0 then None else if l > drop_bit 7 MAX_INT then None else get_high_tag p l lim
      else if lim = 0 then None else Some (l, p, lim))"

text \<open>
  The result holds the returned bits, the length, the tag number, the class and the position
  after the header; \<^const>\<open>None\<close> is the error return \<open>0x80\<close>.
\<close>

definition ASN1_get_object :: "bytes \<Rightarrow> int \<Rightarrow> (u8 \<times> int \<times> int \<times> u8 \<times> bytes) option" where
  "ASN1_get_object pp omax =
     (if omax = 0 then None
      else case pp of [] \<Rightarrow> None
      | b # p \<Rightarrow>
          let ret = b AND V_ASN1_CONSTRUCTED; xclass = b AND V_ASN1_PRIVATE; i = b AND V_ASN1_PRIMITIVE_TAG in
          case (if omax - 1 = 0 then None
                else if i = V_ASN1_PRIMITIVE_TAG then get_high_tag p 0 (omax - 1)
                else Some (uint i, p, omax - 1)) of
            None \<Rightarrow> None
          | Some (tag, p, lim) \<Rightarrow>
              if xclass = V_ASN1_UNIVERSAL \<and> tag > V_ASN1_MAX_UNIVERSAL then None
              else case asn1_get_length p lim of
                None \<Rightarrow> None
              | Some (indef, plength, p) \<Rightarrow>
                  if indef \<and> ret AND V_ASN1_CONSTRUCTED = 0 then None
                  else
                    let ret = (if plength > omax - (int (length pp) - int (length p)) then ret OR 0x80 else ret)
                    in Some (ret OR (if indef then 1 else 0), plength, tag, xclass, p))"

text \<open>How often a number can be shifted right by \<open>k\<close> bits before it is zero.\<close>

function shift_count :: "nat \<Rightarrow> int \<Rightarrow> nat" where
  "shift_count k v = (if v > 0 \<and> k > 0 then Suc (shift_count k (drop_bit k v)) else 0)"
  by pat_completeness auto
termination
proof (relation "measure (\<lambda>(k, v). nat v)")
  fix k :: nat and v :: int assume "v > 0 \<and> k > 0"
  moreover have "v div 2 ^ k < v" using calculation by (intro int_div_less_self) simp_all
  ultimately show "((k, drop_bit k v), k, v) \<in> measure (\<lambda>(k, v). nat v)"
    by (simp add: drop_bit_eq_div)
qed simp

declare shift_count.simps [simp del]

fun put_tag_octets :: "nat \<Rightarrow> nat \<Rightarrow> int \<Rightarrow> bytes" where
  "put_tag_octets 0 ttag tag = []"
| "put_tag_octets (Suc i) ttag tag =
     put_tag_octets i ttag (drop_bit 7 tag) @
       [of_int (tag AND 0x7f) OR (if i \<noteq> ttag - 1 then 0x80 else 0)]"

fun put_length_octets :: "nat \<Rightarrow> int \<Rightarrow> bytes" where
  "put_length_octets 0 n = []"
| "put_length_octets (Suc i) n = put_length_octets i (drop_bit 8 n) @ [of_int (n AND 0xff)]"

definition asn1_put_length :: "int \<Rightarrow> bytes" where
  "asn1_put_length n =
     (if n \<le> 127 then [of_int n]
      else let i = shift_count 8 n in (of_nat i OR 0x80) # put_length_octets i n)"

definition ASN1_put_object :: "int \<Rightarrow> int \<Rightarrow> int \<Rightarrow> u8 \<Rightarrow> bytes" where
  "ASN1_put_object constructed n tag xclass =
     (let i = (if constructed \<noteq> 0 then V_ASN1_CONSTRUCTED else 0) OR (xclass AND V_ASN1_PRIVATE) in
      (if tag < 31 then [i OR (of_int tag AND V_ASN1_PRIMITIVE_TAG)]
       else let ttag = shift_count 7 tag in (i OR V_ASN1_PRIMITIVE_TAG) # put_tag_octets ttag ttag tag) @
      (if constructed = 2 then [0x80] else asn1_put_length n))"

definition ASN1_put_eoc :: bytes where
  "ASN1_put_eoc = [0, 0]"

definition ASN1_object_size :: "int \<Rightarrow> int \<Rightarrow> int \<Rightarrow> int" where
  "ASN1_object_size constructed n tag =
     (if n < 0 then -1
      else
        let ret = 1 + (if tag \<ge> 31 then int (shift_count 7 tag) else 0);
            ret = (if constructed = 2 then ret + 3
                   else ret + 1 + (if n > 127 then int (shift_count 8 n) else 0))
        in if ret \<ge> MAX_INT - n then -1 else ret + n)"

section \<open>Strings\<close>

text \<open>
  The object owns its buffer \<open>sdata\<close>. \<open>V_ASN1_OCTET_STRING\<close> is the type of a new string; the
  object itself takes 24 bytes.
\<close>

record asn1_string =
  slen :: int
  stype :: int
  sdata :: "bytes option"
  sflags :: int

definition V_ASN1_OCTET_STRING :: int where
  "V_ASN1_OCTET_STRING = 4"

definition sizeof_ASN1_STRING :: nat where
  "sizeof_ASN1_STRING = 24"

text \<open>The conversion of a \<open>size_t\<close> to an \<open>int\<close>.\<close>

definition int_of_size :: "nat \<Rightarrow> int" where
  "int_of_size n = signed_take_bit 31 (int n)"

definition ASN1_STRING_set :: "mem_env \<Rightarrow> asn1_string \<Rightarrow> bytes option \<Rightarrow> int \<Rightarrow> bool \<times> asn1_string" where
  "ASN1_STRING_set env str data n =
     (case (if n < 0 then map_option (\<lambda>d. int_of_size (c_strlen d)) data else Some n) of
        None \<Rightarrow> (False, str)
      | Some n \<Rightarrow>
          (case (if slen str \<le> n \<or> sdata str = None
                 then (case sdata str of
                         None \<Rightarrow> OPENSSL_malloc env (nat (n + 1))
                       | Some c \<Rightarrow> OPENSSL_realloc env c (nat (n + 1)))
                 else sdata str) of
             None \<Rightarrow> (False, str)
           | Some b \<Rightarrow>
               (True, str\<lparr>slen := n,
                  sdata := Some (case data of
                      None \<Rightarrow> b
                    | Some d \<Rightarrow> (take (nat n) d @ drop (nat n) b)[nat n := 0])\<rparr>)))"

definition ASN1_STRING_set0 :: "asn1_string \<Rightarrow> bytes option \<Rightarrow> int \<Rightarrow> asn1_string" where
  "ASN1_STRING_set0 str data n = str\<lparr>sdata := data, slen := n\<rparr>"

definition ASN1_STRING_type_new :: "mem_env \<Rightarrow> int \<Rightarrow> asn1_string option" where
  "ASN1_STRING_type_new env type =
     (case OPENSSL_malloc env sizeof_ASN1_STRING of
        None \<Rightarrow> None
      | Some _ \<Rightarrow> Some \<lparr>slen = 0, stype = type, sdata = None, sflags = 0\<rparr>)"

definition ASN1_STRING_new :: "mem_env \<Rightarrow> asn1_string option" where
  "ASN1_STRING_new env = ASN1_STRING_type_new env V_ASN1_OCTET_STRING"

text \<open>The copy also reports what became of \<open>dst\<close> when it failed.\<close>

definition ASN1_STRING_copy :: "mem_env \<Rightarrow> asn1_string \<Rightarrow> asn1_string option \<Rightarrow> bool \<times> asn1_string" where
  "ASN1_STRING_copy env dst str =
     (case str of
        None \<Rightarrow> (False, dst)
      | Some str \<Rightarrow>
          let dst = dst\<lparr>stype := stype str\<rparr>;
              (ok, dst) = ASN1_STRING_set env dst (sdata str) (slen str)
          in if \<not> ok then (False, dst) else (True, dst\<lparr>sflags := sflags str\<rparr>))"

definition ASN1_STRING_dup :: "mem_env \<Rightarrow> asn1_string option \<Rightarrow> asn1_string option" where
  "ASN1_STRING_dup env str =
     (case str of
        None \<Rightarrow> None
      | Some s \<Rightarrow>
          (case ASN1_STRING_new env of
             None \<Rightarrow> None
           | Some ret \<Rightarrow> let (ok, ret) = ASN1_STRING_copy env ret str in if \<not> ok then None else Some ret))"

text \<open>The memory behind a null pointer is never read: \<open>OPENSSL_memcmp\<close> checks for length zero.\<close>

definition ASN1_STRING_cmp :: "asn1_string \<Rightarrow> asn1_string \<Rightarrow> int" where
  "ASN1_STRING_cmp a b =
     (let i = slen a - slen b in
      if i = 0 then
        let i = (case (sdata a, sdata b) of
                   (Some x, Some y) \<Rightarrow> OPENSSL_memcmp x y (nat (slen a))
                 | _ \<Rightarrow> OPENSSL_memcmp [] [] (nat (slen a)))
        in if i = 0 then stype a - stype b else i
      else i)"

definition ASN1_STRING_length :: "asn1_string \<Rightarrow> int" where
  "ASN1_STRING_length x = slen x"

definition ASN1_STRING_length_set :: "asn1_string \<Rightarrow> int \<Rightarrow> asn1_string" where
  "ASN1_STRING_length_set x n = x\<lparr>slen := n\<rparr>"

definition ASN1_STRING_type :: "asn1_string \<Rightarrow> int" where
  "ASN1_STRING_type x = stype x"

definition ASN1_STRING_data :: "asn1_string \<Rightarrow> bytes option" where
  "ASN1_STRING_data x = sdata x"

definition ASN1_STRING_get0_data :: "asn1_string \<Rightarrow> bytes option" where
  "ASN1_STRING_get0_data x = sdata x"

section \<open>Header lemmas\<close>

lemma shift_count_bounds:
  assumes "0 \<le> v" and "0 < k"
  shows "v < 2 ^ (k * shift_count k v) \<and> (0 < v \<longrightarrow> 0 < shift_count k v \<and> 2 ^ (k * (shift_count k v - 1)) \<le> v)"
  using assms
proof (induction k v rule: shift_count.induct)
  case (1 k v)
  show ?case
  proof (cases "v > 0")
    case True
    let ?q = "drop_bit k v" and ?c = "shift_count k (drop_bit k v)"
    have q: "?q = v div 2 ^ k" "0 \<le> ?q" using True by (simp_all add: drop_bit_eq_div pos_imp_zdiv_nonneg_iff)
    have c: "shift_count k v = Suc ?c" using True 1(3) by (subst shift_count.simps) simp
    have IH: "?q < 2 ^ (k * ?c)" "0 < ?q \<longrightarrow> 0 < ?c \<and> 2 ^ (k * (?c - 1)) \<le> ?q" using 1 True q(2) by blast+
    have dm: "v = ?q * 2 ^ k + v mod 2 ^ k" "0 \<le> v mod 2 ^ k" "v mod 2 ^ k < 2 ^ k"
      unfolding q(1) by (rule div_mult_mod_eq [symmetric], simp_all)
    have "(?q + 1) * 2 ^ k = ?q * 2 ^ k + 2 ^ k" by (simp add: distrib_right)
    with dm have "v < (?q + 1) * 2 ^ k" by linarith
    also have "(?q + 1) * 2 ^ k \<le> 2 ^ (k * ?c) * 2 ^ k" using IH(1) by (intro mult_right_mono) simp_all
    finally have up: "v < 2 ^ (k * Suc ?c)" by (simp add: power_add mult.commute)
    have "2 ^ (k * ?c) \<le> v"
    proof (cases "?q = 0")
      case True
      then show ?thesis using \<open>v > 0\<close> by (simp add: shift_count.simps [of k 0])
    next
      case False
      then have p: "0 < ?c" "2 ^ (k * (?c - 1)) \<le> ?q" using IH(2) q(2) by simp_all
      then have "2 ^ (k * ?c) = 2 ^ (k * (?c - 1)) * (2 ^ k :: int)" by (cases ?c) (simp_all add: power_add)
      also have "\<dots> \<le> ?q * 2 ^ k" using p(2) by (intro mult_right_mono) simp_all
      also have "\<dots> \<le> v" using dm by linarith
      finally show ?thesis .
    qed
    then show ?thesis using up by (simp add: c)
  next
    case False
    then show ?thesis using 1(2) by (simp add: shift_count.simps)
  qed
qed

lemma shift_count_le:
  assumes "0 \<le> v" and "v < 2 ^ (k * m)" and "0 < k"
  shows "shift_count k v \<le> m"
proof (cases "v = 0")
  case False
  then have b: "0 < shift_count k v" "2 ^ (k * (shift_count k v - 1)) \<le> v" using shift_count_bounds [OF assms(1,3)] assms(1) by auto
  then have "(2 :: int) ^ (k * (shift_count k v - 1)) < 2 ^ (k * m)" using assms(2) by linarith
  then have "shift_count k v - 1 < m" using assms(3) by simp
  then show ?thesis using b(1) by simp
qed (simp add: shift_count.simps)

lemma length_put_octets [simp]:
  "length (put_tag_octets i t v) = i" "length (put_length_octets i v) = i"
  by (induction i arbitrary: v) simp_all

lemma put_length_octets_be: "0 \<le> v \<Longrightarrow> put_length_octets i v = be_bytes i (nat v)"
proof (induction i arbitrary: v)
  case (Suc i)
  have "v AND 0xff = take_bit 8 v" by (simp add: take_bit_eq_mask mask_eq_exp_minus_1)
  moreover have "of_int (take_bit 8 v) = (of_int v :: u8)" by transfer simp
  moreover have "(of_int v :: u8) = of_nat (nat v)" using Suc.prems by (metis int_nat_eq of_int_of_nat_eq)
  moreover have "drop_bit 8 v = v div 256" "0 \<le> v div 256" using Suc.prems by (simp_all add: drop_bit_eq_div)
  moreover have "nat (v div 256) = nat v div 256" using Suc.prems by (simp add: nat_div_distrib)
  moreover have "0 \<le> v div 256" using Suc.prems by simp
  ultimately show ?case using Suc.IH [of "v div 256"] by (simp only: put_length_octets.simps be_bytes.simps)
qed simp

lemma or_0x80: "n < 128 \<Longrightarrow> of_nat n OR 0x80 = (of_nat (n + 128) :: u8)"
proof -
  assume n: "n < 128"
  then have u: "unat (of_nat n :: u8) = n" by (intro unat_of_nat_less) simp
  then have "unat (push_bit 7 1 OR of_nat n :: u8) = 128 + n" using n by (subst unat_push_or) simp_all
  moreover have "(push_bit 7 1 :: u8) = 0x80" by simp
  ultimately have "unat (of_nat n OR 0x80 :: u8) = 128 + n" by (simp add: or.commute)
  then show ?thesis by (metis add.commute of_nat_unat ucast_id)
qed

lemma low7: "n < 256 \<Longrightarrow> unat ((of_nat n :: u8) AND 0x7f) = n mod 128"
  by (simp add: unat_and_7f unat_of_nat_less)

lemma high_bit: "n < 256 \<Longrightarrow> (of_nat n :: u8) AND 0x80 = 0 \<longleftrightarrow> n < 128"
  by (simp add: and_80_zero unat_of_nat_less)

text \<open>A length that was written is read back.\<close>

lemma get_put_length:
  assumes "0 \<le> n" and "n \<le> MAX_INT div 2" and "int (length (asn1_put_length n)) \<le> lim"
  shows "asn1_get_length (asn1_put_length n @ rest) lim = Some (False, n, rest)"
proof (cases "n \<le> 127")
  case True
  define m where "m = nat n"
  have m: "n = int m" "m < 128" using assms(1) True by (simp_all add: m_def)
  then have "(of_nat m :: u8) \<noteq> 0x80" using high_bit [of m] by auto
  moreover have "m mod 128 = m" using m by simp
  ultimately show ?thesis using m low7 [of m] high_bit [of m] assms
    by (simp add: asn1_put_length_def asn1_get_length_def Let_def MAX_INT_def)
next
  case False
  let ?i = "shift_count 8 n"
  have i: "?i \<le> 4" "0 < ?i" "n < 2 ^ (8 * ?i)"
    using shift_count_le [of n 8 4] shift_count_bounds [of n 8] assms(1,2) False by (auto simp: MAX_INT_def)
  let ?b = "of_nat ?i OR 0x80 :: u8"
  have b: "?b = of_nat (?i + 128)" using i(1) by (intro or_0x80) simp
  have u: "unat (?b AND 0x7f) = ?i" "?b AND 0x80 \<noteq> 0"
    using low7 [of "?i + 128"] high_bit [of "?i + 128"] i(1) unfolding b by simp_all
  have "unat ?b = ?i + 128" unfolding b using i(1) by (intro unat_of_nat_less) simp
  then have ne: "?b \<noteq> 0x80" using i(2) by (auto dest: arg_cong [where f = unat])
  have v: "be_val (be_bytes ?i (nat n)) = nat n"
    using i(3) assms(1) by (simp add: be_val_be_bytes nat_less_iff power_mult)
  have "nat n < 2 ^ 64" using assms(1,2) by (simp add: MAX_INT_def)
  then have "unat (be_word (be_bytes ?i (nat n)) :: u64) = nat n"
    by (subst be_word_of_nat, simp) (simp add: v unat_of_nat_less)
  then have w: "uint (be_word (be_bytes ?i (nat n)) :: u64) = n"
    using assms(1) by (metis nat_0_le uint_nat)
  show ?thesis using False i assms u ne w
    by (simp add: asn1_put_length_def asn1_get_length_def Let_def put_length_octets_be del: be_bytes.simps)
qed

text \<open>A high tag number that was written is read back: first all bytes but the last.\<close>

lemma or_low7: "0 \<le> x \<Longrightarrow> x < 128 \<Longrightarrow> push_bit 7 l OR x = 128 * l + (x :: int)"
proof -
  assume x: "0 \<le> x" "x < 128"
  have t: "take_bit 7 x = x" using x by (simp add: take_bit_int_eq_self)
  have "push_bit 7 l AND take_bit 7 x = 0" by (rule bit_eqI) (simp add: bit_simps)
  then have "push_bit 7 l OR x = push_bit 7 l + x" unfolding t by (rule disjunctive_add_eq_or [symmetric])
  then show ?thesis by (simp add: push_bit_eq_mult)
qed

lemma tag_octet:
  assumes "0 \<le> v"
  shows "uint ((of_int (v AND 0x7f) OR (if c then 0x80 else 0) :: u8) AND 0x7f) = v mod 128"
    and "(of_int (v AND 0x7f) OR (if c then 0x80 else 0) :: u8) AND 0x80 \<noteq> 0 \<longleftrightarrow> c"
proof -
  define m where "m = nat (v mod 128)"
  have m: "v AND 0x7f = int m" "m < 128" "v mod 128 = int m"
    using take_bit_eq_mod [of 7 v] by (simp_all add: m_def take_bit_eq_mask mask_eq_exp_minus_1 nat_less_iff)
  have o: "(of_int (v AND 0x7f) OR (if c then 0x80 else 0) :: u8) = of_nat (m + (if c then 128 else 0))"
    using or_0x80 [OF m(2)] by (simp add: m(1))
  have "unat (of_nat (m + (if c then 128 else 0)) AND 0x7f :: u8) = m"
    using m(2) low7 [of "m + (if c then 128 else 0)"] by simp
  then show "uint ((of_int (v AND 0x7f) OR (if c then 0x80 else 0) :: u8) AND 0x7f) = v mod 128"
    unfolding o by (simp add: uint_nat m(3) del: of_nat_unat)
  show "(of_int (v AND 0x7f) OR (if c then 0x80 else 0) :: u8) AND 0x80 \<noteq> 0 \<longleftrightarrow> c"
    unfolding o using high_bit [of "m + (if c then 128 else 0)"] m(2) by simp
qed

lemma get_high_tag_prefix:
  assumes "0 \<le> v" and "v < 128 ^ i" and "v \<le> MAX_INT div 128" and "i < t" and "int i < lim"
  shows "get_high_tag (put_tag_octets i t v @ more_bytes) 0 lim = get_high_tag more_bytes v (lim - int i)"
  using assms
proof (induction i arbitrary: v more_bytes)
  case (Suc i)
  let ?q = "drop_bit 7 v" and ?b = "of_int (v AND 0x7f) OR 0x80 :: u8"
  have q: "?q = v div 128" by (simp add: drop_bit_eq_div)
  have "?q < 128 ^ i" "0 \<le> ?q" "?q \<le> MAX_INT div 128"
    unfolding q using Suc.prems(1-3) by (simp_all add: div_less_iff_less_mult mult.commute MAX_INT_def)
  with Suc have "get_high_tag (put_tag_octets i t ?q @ ?b # more_bytes) 0 lim = get_high_tag (?b # more_bytes) ?q (lim - int i)"
    by simp
  moreover have "uint (?b AND 0x7f) = v mod 128" "?b AND 0x80 \<noteq> 0" using tag_octet [OF Suc.prems(1), of True] by simp_all
  moreover have "push_bit 7 ?q OR (v mod 128) = v" unfolding q by (subst or_low7) simp_all
  moreover have "\<not> drop_bit 7 MAX_INT < v" using Suc.prems(3) by (simp add: drop_bit_eq_div)
  moreover have "i \<noteq> t - 1" using Suc.prems(4) by simp
  ultimately show ?case using Suc.prems(4,5) by (simp add: Let_def algebra_simps)
next
  case 0
  then have "v = 0" by simp
  then show ?case by simp
qed

lemma get_put_tag:
  assumes "0 < v" and "v \<le> MAX_INT" and "t = shift_count 7 v" and "int t < lim"
  shows "get_high_tag (put_tag_octets t t v @ more_bytes) 0 lim = Some (v, more_bytes, lim - int t)"
proof -
  have "0 < t" using shift_count_bounds [of v 7] assms by simp
  then obtain i where i: "t = Suc i" by (cases t) auto
  let ?q = "drop_bit 7 v" and ?b = "of_int (v AND 0x7f) OR 0 :: u8"
  have q: "?q = v div 128" by (simp add: drop_bit_eq_div)
  have "v < 2 ^ (7 * t)" using shift_count_bounds [of v 7] assms by simp
  moreover have "(2 :: int) ^ (7 * t) = 128 ^ t" by (simp only: power_mult) simp
  ultimately have "v < 128 ^ i * 128" by (simp add: i mult.commute)
  then have "?q < 128 ^ i" "0 \<le> ?q" "?q \<le> MAX_INT div 128"
    unfolding q using assms(1,2) by (simp_all add: div_less_iff_less_mult zdiv_mono1)
  then have "get_high_tag (put_tag_octets i t ?q @ ?b # more_bytes) 0 lim = get_high_tag (?b # more_bytes) ?q (lim - int i)"
    using assms(4) i by (intro get_high_tag_prefix) simp_all
  moreover have "uint (?b AND 0x7f) = v mod 128" "?b AND 0x80 = 0" using tag_octet [of v False] assms(1) by simp_all
  moreover have "push_bit 7 ?q OR (v mod 128) = v" unfolding q by (subst or_low7) simp_all
  ultimately show ?thesis using assms(4) by (simp add: i Let_def algebra_simps)
qed

lemma length_put_length: "length (asn1_put_length n) = (if n > 127 then Suc (shift_count 8 n) else 1)"
  by (simp add: asn1_put_length_def Let_def)

lemma first_octet:
  assumes "c \<in> {0, V_ASN1_CONSTRUCTED}" and "x \<in> {0, 0x40, 0x80, 0xc0}"
    and b: "b = (c OR (x AND V_ASN1_PRIVATE)) OR (t AND V_ASN1_PRIMITIVE_TAG)"
  shows "b AND V_ASN1_CONSTRUCTED = c" "b AND V_ASN1_PRIVATE = x" "b AND V_ASN1_PRIMITIVE_TAG = t AND V_ASN1_PRIMITIVE_TAG"
  using assms(1,2) unfolding b
  by (auto simp: V_ASN1_CONSTRUCTED_def V_ASN1_PRIVATE_def V_ASN1_PRIMITIVE_TAG_def bit.conj_disj_distrib2 and.assoc)

text \<open>What \<open>ASN1_get_object\<close> does behind the tag.\<close>

lemma get_object_tag:
  assumes "c \<in> {0, V_ASN1_CONSTRUCTED}" and "x \<in> {0, 0x40, 0x80, 0xc0}" and "0 \<le> tag" and "tag \<le> MAX_INT"
    and "x = 0 \<longrightarrow> tag \<le> 255"
  defines "i \<equiv> c OR (x AND V_ASN1_PRIVATE)"
  defines "p \<equiv> (if tag < 31 then [i OR (of_int tag AND V_ASN1_PRIMITIVE_TAG)]
    else (i OR V_ASN1_PRIMITIVE_TAG) # put_tag_octets (shift_count 7 tag) (shift_count 7 tag) tag)"
  assumes "int (length p) < lim"
  shows "ASN1_get_object (p @ q) lim =
    (case asn1_get_length q (lim - int (length p)) of None \<Rightarrow> None
     | Some (indef, plength, r) \<Rightarrow>
         if indef \<and> c = 0 then None
         else Some ((if plength > lim - (int (length (p @ q)) - int (length r)) then c OR 0x80 else c)
           OR (if indef then 1 else 0), plength, tag, x, r))"
proof (cases "tag < 31")
  case True
  let ?b = "(c OR (x AND V_ASN1_PRIVATE)) OR (of_int tag AND V_ASN1_PRIMITIVE_TAG)"
  define n where "n = nat tag"
  have n: "tag = int n" "n < 31" using assms(3) True by (simp_all add: n_def)
  have u: "unat ((of_int tag :: u8) AND V_ASN1_PRIMITIVE_TAG) = n"
    unfolding V_ASN1_PRIMITIVE_TAG_def unat_and_1f n(1) using n(2) by (simp add: unat_of_nat_less)
  then have "uint ((of_int tag :: u8) AND V_ASN1_PRIMITIVE_TAG) = tag" by (simp add: uint_nat n(1) del: of_nat_unat)
  moreover have "(of_int tag :: u8) AND V_ASN1_PRIMITIVE_TAG \<noteq> V_ASN1_PRIMITIVE_TAG"
    using u n(2) by (auto simp: V_ASN1_PRIMITIVE_TAG_def dest: arg_cong [where f = unat])
  moreover have "p = [?b]" using True by (simp add: p_def i_def)
  moreover have "c AND V_ASN1_CONSTRUCTED = c" using assms(1) by auto
  ultimately show ?thesis using assms(5,8) first_octet [OF assms(1,2) refl, of "of_int tag"]
    by (auto simp: ASN1_get_object_def Let_def V_ASN1_UNIVERSAL_def V_ASN1_MAX_UNIVERSAL_def split: option.splits prod.splits)
next
  case False
  let ?b = "(c OR (x AND V_ASN1_PRIVATE)) OR (V_ASN1_PRIMITIVE_TAG AND V_ASN1_PRIMITIVE_TAG)"
  let ?o = "put_tag_octets (shift_count 7 tag) (shift_count 7 tag) tag"
  have p: "p = ?b # ?o" using False by (simp add: p_def i_def)
  have "get_high_tag (?o @ q) 0 (lim - 1) = Some (tag, q, lim - 1 - int (shift_count 7 tag))"
    using False assms(4,8) p by (intro get_put_tag) simp_all
  moreover have "c AND V_ASN1_CONSTRUCTED = c" using assms(1) by auto
  ultimately show ?thesis using assms(5,8) first_octet [OF assms(1,2) refl, of V_ASN1_PRIMITIVE_TAG] p
    by (auto simp: ASN1_get_object_def Let_def V_ASN1_UNIVERSAL_def V_ASN1_MAX_UNIVERSAL_def algebra_simps split: option.splits prod.splits)
qed

text \<open>C27: ASN.1 headers. \<open>ASN1_get_object\<close> takes apart what \<open>ASN1_put_object\<close> has written: for every
  class, tag number and length in range it returns the tag, the class, the length and the
  position of the contents, and \<open>ASN1_object_size\<close> is the size of the whole element. For an
  indefinite length (\<open>pc = 2\<close>) the header is read back with bit 0 set and the size counts the
  two bytes of \<open>ASN1_put_eoc\<close>.\<close>

theorem asn1_header_roundtrip:
  assumes "0 \<le> n" and "n \<le> MAX_INT div 2" and "0 \<le> tag" and "tag \<le> MAX_INT"
    and "xclass \<in> {0, 0x40, 0x80, 0xc0}" and "xclass = 0 \<longrightarrow> tag \<le> 255" and "int (length body) = n"
    and "pc \<in> {0, 1, 2}"
  defines "hdr \<equiv> ASN1_put_object pc n tag xclass"
  shows "ASN1_get_object (hdr @ body) (int (length (hdr @ body))) =
      Some (if pc = 0 then 0 else if pc = 1 then V_ASN1_CONSTRUCTED else V_ASN1_CONSTRUCTED OR 1,
            if pc = 2 then 0 else n, tag, xclass, body) \<and>
    ASN1_object_size pc n tag = int (length hdr) + n + (if pc = 2 then int (length ASN1_put_eoc) else 0)"
proof -
  let ?c = "if pc \<noteq> 0 then V_ASN1_CONSTRUCTED else 0" and ?i = "(if pc \<noteq> 0 then V_ASN1_CONSTRUCTED else 0) OR (xclass AND V_ASN1_PRIVATE)"
  let ?p = "if tag < 31 then [?i OR (of_int tag AND V_ASN1_PRIMITIVE_TAG)]
    else (?i OR V_ASN1_PRIMITIVE_TAG) # put_tag_octets (shift_count 7 tag) (shift_count 7 tag) tag"
  let ?l = "if pc = 2 then [0x80] else asn1_put_length n"
  have hdr: "hdr = ?p @ ?l" by (simp add: hdr_def ASN1_put_object_def Let_def)
  have c: "?c \<in> {0, V_ASN1_CONSTRUCTED}" by simp
  have "int (length ?p) < int (length (hdr @ body))" by (simp add: hdr length_put_length)
  note g = get_object_tag [OF c assms(5,3,4,6) this, of "?l @ body"]
  have "asn1_get_length (?l @ body) (int (length (hdr @ body)) - int (length ?p)) = Some (pc = 2, if pc = 2 then 0 else n, body)"
  proof (cases "pc = 2")
    case True
    then show ?thesis by (simp add: hdr asn1_get_length_def)
  next
    case False
    then show ?thesis using get_put_length [OF assms(1,2), of "int (length (?l @ body))" body] by (simp add: hdr)
  qed
  then have "ASN1_get_object (hdr @ body) (int (length (hdr @ body))) =
      Some (if pc = 0 then 0 else if pc = 1 then V_ASN1_CONSTRUCTED else V_ASN1_CONSTRUCTED OR 1,
            if pc = 2 then 0 else n, tag, xclass, body)"
    using g assms(7,8) by (auto simp: hdr V_ASN1_CONSTRUCTED_def)
  moreover have "shift_count 7 tag \<le> 5" "shift_count 8 n \<le> 4"
    using assms(1-4) by (simp_all add: shift_count_le MAX_INT_def)
  then have "ASN1_object_size pc n tag = int (length hdr) + n + (if pc = 2 then int (length ASN1_put_eoc) else 0)"
    using assms(1,2) by (auto simp: ASN1_object_size_def Let_def hdr length_put_length ASN1_put_eoc_def MAX_INT_def)
  ultimately show ?thesis by blast
qed

theorem asn1_header_roundtrip_witness:
  "ASN1_get_object (ASN1_put_object 1 3 5000 0x80 @ [1, 2, 3]) (int (length (ASN1_put_object 1 3 5000 0x80 @ [1, 2, 3]))) =
     Some (V_ASN1_CONSTRUCTED, 3, 5000, 0x80, [1, 2, 3]) \<and>
   ASN1_object_size 1 3 5000 = int (length (ASN1_put_object 1 3 5000 0x80)) + 3"
  using asn1_header_roundtrip [of 3 5000 "0x80" "[1, 2, 3]" 1] by (simp add: MAX_INT_def)

section \<open>String lemmas\<close>

text \<open>The length is within the buffer; the contents are the bytes up to the length.\<close>

definition wf_string :: "asn1_string \<Rightarrow> bool" where
  "wf_string s =
     (0 \<le> slen s \<and> slen s < MAX_INT \<and>
      (case sdata s of None \<Rightarrow> slen s = 0 | Some b \<Rightarrow> nat (slen s) \<le> length b))"

definition string_bytes :: "asn1_string \<Rightarrow> bytes" where
  "string_bytes s = (case sdata s of None \<Rightarrow> [] | Some b \<Rightarrow> take (nat (slen s)) b)"

lemma int_malloc_length:
  "0 \<le> n \<Longrightarrow> n < MAX_INT \<Longrightarrow> OPENSSL_malloc env (nat (n + 1)) = Some b \<Longrightarrow> length b = nat (n + 1)"
  by (rule OPENSSL_malloc_length(1)) (simp_all add: SIZE_LIMIT_def OPENSSL_MALLOC_PREFIX_def MAX_INT_def nat_less_iff)

lemma int_realloc_length:
  "0 \<le> n \<Longrightarrow> n < MAX_INT \<Longrightarrow> OPENSSL_realloc env c (nat (n + 1)) = Some b \<Longrightarrow> length b = nat (n + 1)"
  using OPENSSL_realloc_prefix [of env c "nat (n + 1)" b]
  by (simp add: SIZE_LIMIT_def OPENSSL_MALLOC_PREFIX_def MAX_INT_def nat_less_iff)

text \<open>A successful \<open>ASN1_STRING_set\<close> holds the data and a zero byte behind it; a failed one changes nothing.\<close>

lemma ASN1_STRING_set_effect:
  assumes "wf_string s" and "0 \<le> n" and "n < MAX_INT" and "ASN1_STRING_set env s data n = (ok, s')"
    and "\<And>d. data = Some d \<Longrightarrow> nat n \<le> length d"
  shows "wf_string s' \<and> stype s' = stype s \<and> sflags s' = sflags s \<and> (\<not> ok \<longrightarrow> s' = s) \<and>
    (ok \<longrightarrow> slen s' = n \<and> sdata s' \<noteq> None \<and>
      (\<forall>d. data = Some d \<longrightarrow> string_bytes s' = take (nat n) d \<and> the (sdata s') ! nat n = 0))"
proof -
  let ?b = "if slen s \<le> n \<or> sdata s = None
    then (case sdata s of None \<Rightarrow> OPENSSL_malloc env (nat (n + 1)) | Some c \<Rightarrow> OPENSSL_realloc env c (nat (n + 1))) else sdata s"
  show ?thesis
  proof (cases ?b)
    case None
    then show ?thesis using assms by (auto simp: ASN1_STRING_set_def)
  next
    case (Some b)
    have len: "nat n < length b"
      using Some assms(1-3) int_malloc_length [of n env b] int_realloc_length [of n env _ b]
      by (auto simp: wf_string_def split: if_splits option.splits)
    have "ok" "s' = s\<lparr>slen := n, sdata := Some (case data of None \<Rightarrow> b
        | Some d \<Rightarrow> (take (nat n) d @ drop (nat n) b)[nat n := 0])\<rparr>"
      using assms(2,4) Some by (auto simp: ASN1_STRING_set_def)
    then show ?thesis using len assms(2,3,5)
      by (auto simp: wf_string_def string_bytes_def nth_list_update split: option.splits)
  qed
qed

lemma ASN1_STRING_cmp_zero:
  assumes "wf_string a" and "wf_string b"
  shows "ASN1_STRING_cmp a b = 0 \<longleftrightarrow> stype a = stype b \<and> string_bytes a = string_bytes b"
proof (cases "slen a = slen b")
  case True
  then show ?thesis using assms
    by (auto simp: ASN1_STRING_cmp_def wf_string_def string_bytes_def OPENSSL_memcmp_def libc_memcmp_zero Let_def split: option.splits)
next
  case False
  have l: "length (string_bytes s) = nat (slen s)" if "wf_string s" for s
    using that by (auto simp: wf_string_def string_bytes_def split: option.splits)
  have "length (string_bytes a) \<noteq> length (string_bytes b)"
    using False assms l by (auto simp: wf_string_def)
  then show ?thesis using False by (auto simp: ASN1_STRING_cmp_def)
qed

text \<open>C28: copies of strings. A duplicate that was made is a well-formed string with the same type,
  flags and contents, with a zero byte behind them when there are contents to copy, and it
  compares equal; and \<open>ASN1_STRING_cmp\<close> returns zero exactly for strings with equal type and
  contents.\<close>

theorem asn1_string_dup_equal:
  assumes "wf_string s" and "ASN1_STRING_dup env (Some s) = Some t" and "wf_string u"
  shows "wf_string t \<and> stype t = stype s \<and> sflags t = sflags s \<and> string_bytes t = string_bytes s \<and>
    (sdata s \<noteq> None \<longrightarrow> the (sdata t) ! length (string_bytes s) = 0) \<and> ASN1_STRING_cmp t s = 0 \<and>
    (ASN1_STRING_cmp u s = 0 \<longleftrightarrow> stype u = stype s \<and> string_bytes u = string_bytes s)"
proof -
  let ?new = "\<lparr>slen = 0, stype = stype s, sdata = None, sflags = 0\<rparr>"
  obtain r where r: "ASN1_STRING_set env ?new (sdata s) (slen s) = (True, r)" and t: "t = r\<lparr>sflags := sflags s\<rparr>"
    using assms(2) by (auto simp: ASN1_STRING_dup_def ASN1_STRING_new_def ASN1_STRING_type_new_def ASN1_STRING_copy_def
        split: option.splits prod.splits if_splits)
  have "wf_string ?new" by (simp add: wf_string_def MAX_INT_def)
  moreover have "0 \<le> slen s" "slen s < MAX_INT" "\<And>d. sdata s = Some d \<Longrightarrow> nat (slen s) \<le> length d"
    using assms(1) by (auto simp: wf_string_def)
  ultimately have e: "wf_string r" "stype r = stype s" "slen r = slen s" "sdata r \<noteq> None"
    "\<And>d. sdata s = Some d \<Longrightarrow> string_bytes r = take (nat (slen s)) d \<and> the (sdata r) ! nat (slen s) = 0"
    using ASN1_STRING_set_effect [OF _ _ _ r] by auto
  have same: "string_bytes t = string_bytes r" "wf_string t" using e(1) by (simp_all add: t string_bytes_def wf_string_def split: option.splits)
  have bytes: "string_bytes t = string_bytes s"
    using e assms(1) unfolding same by (cases "sdata s") (auto simp: string_bytes_def wf_string_def)
  moreover have "the (sdata t) ! length (string_bytes s) = 0" if "sdata s \<noteq> None"
    using that e(5) assms(1) by (auto simp: t string_bytes_def wf_string_def min_def)
  ultimately show ?thesis
    using same(2) ASN1_STRING_cmp_zero [OF same(2) assms(1)] ASN1_STRING_cmp_zero [OF assms(3,1)] e(2) by (simp add: t)
qed

theorem asn1_string_dup_equal_witness:
  "let s = \<lparr>slen = 2, stype = 12, sdata = Some [7, 8, 9], sflags = 0\<rparr> in
   \<exists>t. ASN1_STRING_dup roomy_env (Some s) = Some t \<and> string_bytes t = [7, 8] \<and> ASN1_STRING_cmp t s = 0"
proof -
  let ?s = "\<lparr>slen = 2, stype = 12, sdata = Some [7, 8, 9], sflags = 0\<rparr>"
  have w: "wf_string ?s" by (simp add: wf_string_def MAX_INT_def)
  have "\<exists>t. ASN1_STRING_dup roomy_env (Some ?s) = Some t"
    by (simp add: ASN1_STRING_dup_def ASN1_STRING_new_def ASN1_STRING_type_new_def ASN1_STRING_copy_def ASN1_STRING_set_def
        roomy_malloc PTRDIFF_LIMIT_def OPENSSL_MALLOC_PREFIX_def sizeof_ASN1_STRING_def)
  then obtain t where "ASN1_STRING_dup roomy_env (Some ?s) = Some t" by blast
  moreover have "string_bytes ?s = [7, 8]" by (simp add: string_bytes_def)
  ultimately show ?thesis using asn1_string_dup_equal [OF w _ w] by (simp add: Let_def)
qed

end
