(* ===== verification/ASN1_Time.thy ===== *)
theory ASN1_Time
  imports Calendar ASN1_String
begin

text \<open>
  \<open>crypto/asn1/a_utctm.c\<close>, \<open>a_gentm.c\<close> and \<open>a_time.c\<close>: the time strings of ASN.1. A parser works on
  the buffer \<open>a\<close> with an index \<open>n\<close> (the \<open>o\<close> of the source) and reads up to the zero byte behind the
  contents. The \<open>struct tm\<close> to fill may be a null pointer, which only checks the string; a
  failed call leaves it half filled, and no caller looks at it then. \<open>gmtime\<close> stands for
  \<open>gmtime_r\<close> and is an argument. Characters: 48 to 57 the digits, 43 plus, 45 minus, 46 the
  point, 90 the letter Z.
\<close>

section \<open>UTCTime\<close>

definition V_ASN1_UTCTIME :: int where
  "V_ASN1_UTCTIME = 23"

definition V_ASN1_GENERALIZEDTIME :: int where
  "V_ASN1_GENERALIZEDTIME = 24"

definition is_digit :: "u8 \<Rightarrow> bool" where
  "is_digit c \<longleftrightarrow> \<not> (c < 48 \<or> c > 57)"

definition digits2 :: "u8 \<Rightarrow> u8 \<Rightarrow> int" where
  "digits2 c d = (uint c - 48) * 10 + uint d - 48"

definition utc_min :: "int list" where
  "utc_min = [0, 1, 1, 0, 0, 0, 0, 0]"

definition utc_max :: "int list" where
  "utc_max = [99, 12, 31, 23, 59, 59, 12, 59]"

definition utc_field :: "nat \<Rightarrow> int \<Rightarrow> tm \<Rightarrow> tm" where
  "utc_field i v tm =
     (if i = 0 then tm\<lparr>tm_year := (if v < 50 then v + 100 else v)\<rparr>
      else if i = 1 then tm\<lparr>tm_mon := v - 1\<rparr>
      else if i = 2 then tm\<lparr>tm_mday := v\<rparr>
      else if i = 3 then tm\<lparr>tm_hour := v\<rparr>
      else if i = 4 then tm\<lparr>tm_min := v\<rparr>
      else if i = 5 then tm\<lparr>tm_sec := v\<rparr>
      else tm)"

text \<open>The loop over the two-digit fields; the seconds may be missing.\<close>

function utctime_fields :: "bytes \<Rightarrow> int \<Rightarrow> nat \<Rightarrow> nat \<Rightarrow> tm option \<Rightarrow> (nat \<times> tm option) option" where
  "utctime_fields a l i n tm =
     (if \<not> i < 6 then Some (n, tm)
      else if i = 5 \<and> (a ! n = 90 \<or> a ! n = 43 \<or> a ! n = 45) then Some (n, map_option (\<lambda>tm. tm\<lparr>tm_sec := 0\<rparr>) tm)
      else if \<not> is_digit (a ! n) then None
      else if int (n + 1) > l then None
      else if \<not> is_digit (a ! (n + 1)) then None
      else if int (n + 2) > l then None
      else let v = digits2 (a ! n) (a ! (n + 1)) in
           if v < utc_min ! i \<or> v > utc_max ! i then None
           else utctime_fields a l (Suc i) (n + 2) (map_option (utc_field i v) tm))"
  by pat_completeness auto
termination
  by (relation "measure (\<lambda>(a, l, i, n, tm). 6 - i)") auto

declare utctime_fields.simps [simp del]

text \<open>
  The hours and minutes of the offset of a time zone, whose limits stand at \<open>first\<close> and behind it
  in the tables.
\<close>

fun zone_fields :: "int list \<Rightarrow> int list \<Rightarrow> nat \<Rightarrow> bytes \<Rightarrow> nat list \<Rightarrow> nat \<Rightarrow> bool \<Rightarrow> int \<Rightarrow> (nat \<times> int) option" where
  "zone_fields mins maxs first a [] n have_tm offset = Some (n, offset)"
| "zone_fields mins maxs first a (i # is) n have_tm offset =
     (if \<not> is_digit (a ! n) then None
      else if \<not> is_digit (a ! (n + 1)) then None
      else let v = digits2 (a ! n) (a ! (n + 1)) in
           if v < mins ! i \<or> v > maxs ! i then None
           else zone_fields mins maxs first a is (n + 2) have_tm
                  (if \<not> have_tm then offset else if i = first then v * 3600 else offset + v * 60))"

definition utctime_zone :: "bytes \<Rightarrow> int \<Rightarrow> nat \<Rightarrow> tm option \<Rightarrow> (nat \<times> tm option) option" where
  "utctime_zone a l n tm =
     (let offsign = (if a ! n = 45 then 1 else - 1) in
      if int (n + 1 + 4) > l then None
      else case zone_fields utc_min utc_max 6 a [6, 7] (n + 1) (tm \<noteq> None) 0 of
             None \<Rightarrow> None
           | Some (n, offset) \<Rightarrow>
               if offset \<noteq> 0
               then (case Option.bind tm (\<lambda>tm. OPENSSL_gmtime_adj tm 0 (offset * offsign)) of
                       None \<Rightarrow> None
                     | Some tm \<Rightarrow> Some (n, Some tm))
               else Some (n, tm))"

text \<open>The memory of a string; a null pointer has no memory to read.\<close>

definition c_data :: "asn1_string \<Rightarrow> bytes" where
  "c_data d = (case sdata d of None \<Rightarrow> [] | Some a \<Rightarrow> a)"

definition asn1_utctime_to_tm :: "tm option \<Rightarrow> asn1_string \<Rightarrow> tm option option" where
  "asn1_utctime_to_tm tm d =
     (if stype d \<noteq> V_ASN1_UTCTIME then None
      else let l = slen d; a = c_data d in
           if l < 11 then None
           else case utctime_fields a l 0 0 tm of
                  None \<Rightarrow> None
                | Some (n, tm) \<Rightarrow>
                    (case (if a ! n = 90 then Some (n + 1, tm)
                           else if a ! n = 43 \<or> a ! n = 45 then utctime_zone a l n tm
                           else Some (n, tm)) of
                       None \<Rightarrow> None
                     | Some (n, tm) \<Rightarrow> if int n = l then Some tm else None))"

definition ASN1_UTCTIME_check :: "asn1_string \<Rightarrow> bool" where
  "ASN1_UTCTIME_check d \<longleftrightarrow> asn1_utctime_to_tm None d \<noteq> None"

text \<open>The string object on the stack that wraps a C string.\<close>

definition c_string_time :: "int \<Rightarrow> bytes \<Rightarrow> asn1_string" where
  "c_string_time type str = \<lparr>slen = int_of_size (c_strlen str), stype = type, sdata = Some str, sflags = 0\<rparr>"

definition ASN1_UTCTIME_set_string :: "mem_env \<Rightarrow> asn1_string option \<Rightarrow> bytes \<Rightarrow> bool \<times> asn1_string option" where
  "ASN1_UTCTIME_set_string env s str =
     (let t = c_string_time V_ASN1_UTCTIME str in
      if ASN1_UTCTIME_check t
      then (case s of
              None \<Rightarrow> (True, None)
            | Some s \<Rightarrow>
                let (ok, s) = ASN1_STRING_set env s (Some str) (slen t) in
                if \<not> ok then (False, Some s) else (True, Some (s\<lparr>stype := V_ASN1_UTCTIME\<rparr>)))
      else (False, s))"

text \<open>The buffer for the text: the one of the string when it is known to hold 20 bytes.\<close>

definition time_buffer :: "mem_env \<Rightarrow> asn1_string \<Rightarrow> bytes option" where
  "time_buffer env s =
     (case sdata s of
        None \<Rightarrow> OPENSSL_malloc env 20
      | Some p \<Rightarrow> if 0 \<le> slen s \<and> slen s < 20 then OPENSSL_malloc env 20 else Some p)"

definition offset_tm :: "(int \<Rightarrow> tm option) \<Rightarrow> int \<Rightarrow> int \<Rightarrow> int \<Rightarrow> tm option" where
  "offset_tm gmtime t offset_day offset_sec =
     (case gmtime t of
        None \<Rightarrow> None
      | Some ts \<Rightarrow> if offset_day \<noteq> 0 \<or> offset_sec \<noteq> 0 then OPENSSL_gmtime_adj ts offset_day offset_sec else Some ts)"

definition clock_text :: "tm \<Rightarrow> bytes" where
  "clock_text ts =
     fmt_dec 2 (tm_mon ts + 1) @ fmt_dec 2 (tm_mday ts) @ fmt_dec 2 (tm_hour ts) @ fmt_dec 2 (tm_min ts) @
     fmt_dec 2 (tm_sec ts) @ [90]"

definition ASN1_UTCTIME_adj ::
    "mem_env \<Rightarrow> (int \<Rightarrow> tm option) \<Rightarrow> asn1_string option \<Rightarrow> int \<Rightarrow> int \<Rightarrow> int \<Rightarrow> asn1_string option" where
  "ASN1_UTCTIME_adj env gmtime s t offset_day offset_sec =
     (case (case s of None \<Rightarrow> ASN1_STRING_type_new env V_ASN1_UTCTIME | Some s \<Rightarrow> Some s) of
        None \<Rightarrow> None
      | Some s \<Rightarrow>
          (case offset_tm gmtime t offset_day offset_sec of
             None \<Rightarrow> None
           | Some ts \<Rightarrow>
               if tm_year ts < 50 \<or> tm_year ts \<ge> 150 then None
               else case time_buffer env s of
                      None \<Rightarrow> None
                    | Some p \<Rightarrow>
                        let p = BIO_snprintf p 20 (fmt_dec 2 (tm_year ts smod 100) @ clock_text ts)
                        in Some (s\<lparr>sdata := Some p, slen := int_of_size (c_strlen p), stype := V_ASN1_UTCTIME\<rparr>)))"

definition ASN1_UTCTIME_set :: "mem_env \<Rightarrow> (int \<Rightarrow> tm option) \<Rightarrow> asn1_string option \<Rightarrow> int \<Rightarrow> asn1_string option" where
  "ASN1_UTCTIME_set env gmtime s t = ASN1_UTCTIME_adj env gmtime s t 0 0"

definition ASN1_UTCTIME_cmp_time_t :: "(int \<Rightarrow> tm option) \<Rightarrow> tm \<Rightarrow> asn1_string \<Rightarrow> int \<Rightarrow> int" where
  "ASN1_UTCTIME_cmp_time_t gmtime uninit s t =
     (case asn1_utctime_to_tm (Some uninit) s of
        Some (Some stm) \<Rightarrow>
          (case gmtime t of
             None \<Rightarrow> - 2
           | Some ttm \<Rightarrow>
               (case OPENSSL_gmtime_diff ttm stm of
                  None \<Rightarrow> - 2
                | Some (day, sec) \<Rightarrow>
                    if day > 0 then 1 else if day < 0 then - 1 else if sec > 0 then 1 else if sec < 0 then - 1 else 0))
      | _ \<Rightarrow> - 2)"

section \<open>GeneralizedTime\<close>

definition gen_min :: "int list" where
  "gen_min = [0, 0, 1, 1, 0, 0, 0, 0, 0]"

definition gen_max :: "int list" where
  "gen_max = [99, 99, 12, 31, 23, 59, 59, 12, 59]"

definition gen_field :: "nat \<Rightarrow> int \<Rightarrow> tm \<Rightarrow> tm" where
  "gen_field i v tm =
     (if i = 0 then tm\<lparr>tm_year := v * 100 - 1900\<rparr>
      else if i = 1 then tm\<lparr>tm_year := tm_year tm + v\<rparr>
      else if i = 2 then tm\<lparr>tm_mon := v - 1\<rparr>
      else if i = 3 then tm\<lparr>tm_mday := v\<rparr>
      else if i = 4 then tm\<lparr>tm_hour := v\<rparr>
      else if i = 5 then tm\<lparr>tm_min := v\<rparr>
      else if i = 6 then tm\<lparr>tm_sec := v\<rparr>
      else tm)"

function generalizedtime_fields :: "bytes \<Rightarrow> int \<Rightarrow> nat \<Rightarrow> nat \<Rightarrow> tm option \<Rightarrow> (nat \<times> tm option) option" where
  "generalizedtime_fields a l i n tm =
     (if \<not> i < 7 then Some (n, tm)
      else if i = 6 \<and> (a ! n = 90 \<or> a ! n = 43 \<or> a ! n = 45) then Some (n, map_option (\<lambda>tm. tm\<lparr>tm_sec := 0\<rparr>) tm)
      else if \<not> is_digit (a ! n) then None
      else if int (n + 1) > l then None
      else if \<not> is_digit (a ! (n + 1)) then None
      else if int (n + 2) > l then None
      else let v = digits2 (a ! n) (a ! (n + 1)) in
           if v < gen_min ! i \<or> v > gen_max ! i then None
           else generalizedtime_fields a l (Suc i) (n + 2) (map_option (gen_field i v) tm))"
  by pat_completeness auto
termination
  by (relation "measure (\<lambda>(a, l, i, n, tm). 7 - i)") auto

declare generalizedtime_fields.simps [simp del]

text \<open>The digits of fractional seconds are passed over.\<close>

function skip_digits :: "bytes \<Rightarrow> int \<Rightarrow> nat \<Rightarrow> nat" where
  "skip_digits a l n = (if is_digit (a ! n) \<and> int n \<le> l then skip_digits a l (n + 1) else n)"
  by pat_completeness auto
termination
  by (relation "measure (\<lambda>(a, l, n). nat (l + 1 - int n))") auto

declare skip_digits.simps [simp del]

definition fraction :: "bytes \<Rightarrow> int \<Rightarrow> nat \<Rightarrow> nat option" where
  "fraction a l n =
     (if a ! n = 46
      then if int (n + 1) > l then None
           else let k = skip_digits a l (n + 1) in if k = n + 1 then None else Some k
      else Some n)"

definition generalizedtime_zone :: "bytes \<Rightarrow> int \<Rightarrow> nat \<Rightarrow> tm option \<Rightarrow> (nat \<times> tm option) option" where
  "generalizedtime_zone a l n tm =
     (let offsign = (if a ! n = 45 then 1 else - 1) in
      if int (n + 1 + 4) > l then None
      else case zone_fields gen_min gen_max 7 a [7, 8] (n + 1) (tm \<noteq> None) 0 of
             None \<Rightarrow> None
           | Some (n, offset) \<Rightarrow>
               if offset \<noteq> 0
               then (case Option.bind tm (\<lambda>tm. OPENSSL_gmtime_adj tm 0 (offset * offsign)) of
                       None \<Rightarrow> None
                     | Some tm \<Rightarrow> Some (n, Some tm))
               else Some (n, tm))"

definition asn1_generalizedtime_to_tm :: "tm option \<Rightarrow> asn1_string \<Rightarrow> tm option option" where
  "asn1_generalizedtime_to_tm tm d =
     (if stype d \<noteq> V_ASN1_GENERALIZEDTIME then None
      else let l = slen d; a = c_data d in
           if l < 13 then None
           else case generalizedtime_fields a l 0 0 tm of
                  None \<Rightarrow> None
                | Some (n, tm) \<Rightarrow>
                    (case fraction a l n of
                       None \<Rightarrow> None
                     | Some n \<Rightarrow>
                         (case (if a ! n = 90 then Some (n + 1, tm)
                                else if a ! n = 43 \<or> a ! n = 45 then generalizedtime_zone a l n tm
                                else if a ! n \<noteq> 0 then None
                                else Some (n, tm)) of
                            None \<Rightarrow> None
                          | Some (n, tm) \<Rightarrow> if int n = l then Some tm else None)))"

definition ASN1_GENERALIZEDTIME_check :: "asn1_string \<Rightarrow> bool" where
  "ASN1_GENERALIZEDTIME_check d \<longleftrightarrow> asn1_generalizedtime_to_tm None d \<noteq> None"

definition ASN1_GENERALIZEDTIME_set_string :: "mem_env \<Rightarrow> asn1_string option \<Rightarrow> bytes \<Rightarrow> bool \<times> asn1_string option" where
  "ASN1_GENERALIZEDTIME_set_string env s str =
     (let t = c_string_time V_ASN1_GENERALIZEDTIME str in
      if ASN1_GENERALIZEDTIME_check t
      then (case s of
              None \<Rightarrow> (True, None)
            | Some s \<Rightarrow>
                let (ok, s) = ASN1_STRING_set env s (Some str) (slen t) in
                if \<not> ok then (False, Some s) else (True, Some (s\<lparr>stype := V_ASN1_GENERALIZEDTIME\<rparr>)))
      else (False, s))"

definition ASN1_GENERALIZEDTIME_adj ::
    "mem_env \<Rightarrow> (int \<Rightarrow> tm option) \<Rightarrow> asn1_string option \<Rightarrow> int \<Rightarrow> int \<Rightarrow> int \<Rightarrow> asn1_string option" where
  "ASN1_GENERALIZEDTIME_adj env gmtime s t offset_day offset_sec =
     (case (case s of None \<Rightarrow> ASN1_STRING_type_new env V_ASN1_GENERALIZEDTIME | Some s \<Rightarrow> Some s) of
        None \<Rightarrow> None
      | Some tmps \<Rightarrow>
          (case offset_tm gmtime t offset_day offset_sec of
             None \<Rightarrow> None
           | Some ts \<Rightarrow>
               (case time_buffer env tmps of
                  None \<Rightarrow> None
                | Some p \<Rightarrow>
                    let p = BIO_snprintf p 20 (fmt_dec 4 (tm_year ts + 1900) @ clock_text ts)
                    in Some (tmps\<lparr>sdata := Some p, slen := int_of_size (c_strlen p), stype := V_ASN1_GENERALIZEDTIME\<rparr>))))"

definition ASN1_GENERALIZEDTIME_set ::
    "mem_env \<Rightarrow> (int \<Rightarrow> tm option) \<Rightarrow> asn1_string option \<Rightarrow> int \<Rightarrow> asn1_string option" where
  "ASN1_GENERALIZEDTIME_set env gmtime s t = ASN1_GENERALIZEDTIME_adj env gmtime s t 0 0"

section \<open>Time\<close>

definition ASN1_TIME_adj ::
    "mem_env \<Rightarrow> (int \<Rightarrow> tm option) \<Rightarrow> asn1_string option \<Rightarrow> int \<Rightarrow> int \<Rightarrow> int \<Rightarrow> asn1_string option" where
  "ASN1_TIME_adj env gmtime s t offset_day offset_sec =
     (case offset_tm gmtime t offset_day offset_sec of
        None \<Rightarrow> None
      | Some ts \<Rightarrow>
          if tm_year ts \<ge> 50 \<and> tm_year ts < 150 then ASN1_UTCTIME_adj env gmtime s t offset_day offset_sec
          else ASN1_GENERALIZEDTIME_adj env gmtime s t offset_day offset_sec)"

definition ASN1_TIME_set :: "mem_env \<Rightarrow> (int \<Rightarrow> tm option) \<Rightarrow> asn1_string option \<Rightarrow> int \<Rightarrow> asn1_string option" where
  "ASN1_TIME_set env gmtime s t = ASN1_TIME_adj env gmtime s t 0 0"

definition ASN1_TIME_check :: "asn1_string \<Rightarrow> bool" where
  "ASN1_TIME_check t =
     (if stype t = V_ASN1_GENERALIZEDTIME then ASN1_GENERALIZEDTIME_check t
      else if stype t = V_ASN1_UTCTIME then ASN1_UTCTIME_check t
      else False)"


definition ASN1_TIME_set_string :: "mem_env \<Rightarrow> asn1_string option \<Rightarrow> bytes \<Rightarrow> bool \<times> asn1_string option" where
  "ASN1_TIME_set_string env s str =
     (let t = c_string_time V_ASN1_UTCTIME str;
          t = (if \<not> ASN1_TIME_check t then t\<lparr>stype := V_ASN1_GENERALIZEDTIME\<rparr> else t)
      in if \<not> ASN1_TIME_check t then (False, s)
         else case s of
                None \<Rightarrow> (True, None)
              | Some s \<Rightarrow> let (ok, s) = ASN1_STRING_copy env s (Some t) in (ok, Some s))"

text \<open>A null pointer is the current time, \<open>now\<close>.\<close>

definition asn1_time_to_tm :: "(int \<Rightarrow> tm option) \<Rightarrow> int \<Rightarrow> tm \<Rightarrow> asn1_string option \<Rightarrow> tm option" where
  "asn1_time_to_tm gmtime now uninit t =
     (case t of
        None \<Rightarrow> gmtime now
      | Some t \<Rightarrow>
          if stype t = V_ASN1_UTCTIME then Option.bind (asn1_utctime_to_tm (Some uninit) t) id
          else if stype t = V_ASN1_GENERALIZEDTIME then Option.bind (asn1_generalizedtime_to_tm (Some uninit) t) id
          else None)"

definition ASN1_TIME_diff ::
    "(int \<Rightarrow> tm option) \<Rightarrow> int \<Rightarrow> tm \<Rightarrow> asn1_string option \<Rightarrow> asn1_string option \<Rightarrow> (int \<times> int) option" where
  "ASN1_TIME_diff gmtime now uninit from_time to_time =
     (case asn1_time_to_tm gmtime now uninit from_time of
        None \<Rightarrow> None
      | Some tm_from \<Rightarrow>
          (case asn1_time_to_tm gmtime now uninit to_time of
             None \<Rightarrow> None
           | Some tm_to \<Rightarrow> OPENSSL_gmtime_diff tm_from tm_to))"

section \<open>Digits\<close>

definition dchar :: "int \<Rightarrow> u8" where
  "dchar k = 48 + of_nat (nat k)"

definition pair :: "int \<Rightarrow> bytes" where
  "pair v = [dchar (v div 10), dchar (v mod 10)]"

lemma uint_dchar: "0 \<le> k \<Longrightarrow> k < 10 \<Longrightarrow> uint (dchar k) = 48 + k"
proof -
  assume "0 \<le> k" "k < 10"
  then have "k \<in> {0, 1, 2, 3, 4, 5, 6, 7, 8, 9}" by (simp only: insert_iff empty_iff) presburger
  then show ?thesis unfolding dchar_def by (elim insertE emptyE) simp_all
qed

lemma is_digit_uint: "is_digit c \<longleftrightarrow> 48 \<le> uint c \<and> uint c \<le> 57"
  by (auto simp: is_digit_def word_less_def)

lemma digits2_pair:
  assumes "0 \<le> v" and "v < 100"
  shows "is_digit (dchar (v div 10))" "is_digit (dchar (v mod 10))" "digits2 (dchar (v div 10)) (dchar (v mod 10)) = v"
proof -
  have d: "0 \<le> v div 10" "v div 10 < 10" "0 \<le> v mod 10" "v mod 10 < 10" using assms by auto
  then show "is_digit (dchar (v div 10))" "is_digit (dchar (v mod 10))" by (simp_all add: is_digit_uint uint_dchar)
  show "digits2 (dchar (v div 10)) (dchar (v mod 10)) = v" by (simp only: digits2_def uint_dchar [OF d(1,2)] uint_dchar [OF d(3,4)]) simp
qed

lemma digit_marks: "is_digit c \<Longrightarrow> c \<noteq> 0 \<and> c \<noteq> 90 \<and> c \<noteq> 43 \<and> c \<noteq> 45 \<and> c \<noteq> 46"
  by (auto simp: is_digit_def)

text \<open>The last digit of a zero-filled number; hence numbers of two and of four digits.\<close>

lemma zero_fill_last: "0 < w \<Longrightarrow> zero_fill (Suc w) (dec_digits n) = zero_fill w (dec_digits (n div 10)) @ [dchar (int (n mod 10))]"
proof (cases "n < 10")
  case True
  assume "0 < w"
  then obtain k where w: "w = Suc k" by (cases w) auto
  have "replicate k (48 :: u8) @ [48] = replicate (Suc k) 48" by (simp add: replicate_append_same)
  then show ?thesis using True
    by (simp add: zero_fill_def dec_digits.simps [of n] dec_digits.simps [of 0] dchar_def w)
next
  case False
  then show ?thesis by (simp add: zero_fill_def dec_digits.simps [of n] dchar_def)
qed

lemma zero_fill_1: "n < 10 \<Longrightarrow> zero_fill (Suc 0) (dec_digits n) = [dchar (int n)]"
  by (simp add: zero_fill_def dec_digits.simps [of n] dchar_def)

lemma fmt_dec_2:
  assumes "0 \<le> v" and "v < 100"
  shows "fmt_dec 2 v = pair v"
proof -
  have "zero_fill 2 (dec_digits (nat v)) = zero_fill (Suc 0) (dec_digits (nat v div 10)) @ [dchar (int (nat v mod 10))]"
    using zero_fill_last [of 1 "nat v"] by (simp add: numeral_2_eq_2)
  moreover have "nat v div 10 < 10" using assms by auto
  ultimately have "zero_fill 2 (dec_digits (nat v)) = [dchar (int (nat v div 10)), dchar (int (nat v mod 10))]"
    by (simp add: zero_fill_1)
  then show ?thesis using assms by (simp add: fmt_dec_def pair_def zdiv_int zmod_int)
qed

lemma fmt_dec_4:
  assumes "0 \<le> v" and "v < 10000"
  shows "fmt_dec 4 v = pair (v div 100) @ pair (v mod 100)"
proof -
  define n where "n = nat v"
  have n: "n < 10000" "v = int n" using assms by (auto simp: n_def)
  have "zero_fill 4 (dec_digits n) =
    zero_fill (Suc 0) (dec_digits (n div 10 div 10 div 10)) @ [dchar (int (n div 10 div 10 mod 10))] @ [dchar (int (n div 10 mod 10))] @ [dchar (int (n mod 10))]"
  proof -
    have "zero_fill 4 (dec_digits n) = zero_fill 3 (dec_digits (n div 10)) @ [dchar (int (n mod 10))]"
      using zero_fill_last [of 3 n] by simp
    moreover have "zero_fill 3 (dec_digits (n div 10)) = zero_fill 2 (dec_digits (n div 10 div 10)) @ [dchar (int (n div 10 mod 10))]"
      using zero_fill_last [of 2 "n div 10"] by simp
    moreover have "zero_fill 2 (dec_digits (n div 10 div 10)) =
        zero_fill (Suc 0) (dec_digits (n div 10 div 10 div 10)) @ [dchar (int (n div 10 div 10 mod 10))]"
      using zero_fill_last [of "Suc 0" "n div 10 div 10"] unfolding numeral_2_eq_2 by simp
    ultimately show ?thesis by (simp only: append_assoc)
  qed
  moreover have "n div 10 div 10 div 10 < 10" using n(1) by (simp add: div_mult2_eq [symmetric])
  moreover have "n div 10 div 10 = n div 100" using div_mult2_eq [of n 10 10] by simp
  moreover have "n div 10 mod 10 = n mod 100 div 10"
  proof -
    have "n mod 100 = 10 * (n div 10 mod 10) + n mod 10" using mod_mult2_eq [of n 10 10] by simp
    then show ?thesis by simp
  qed
  moreover have "n mod 10 = n mod 100 mod 10" by (simp add: mod_mod_cancel)
  ultimately show ?thesis unfolding n(2)
    by (simp add: fmt_dec_def pair_def zero_fill_1 del: of_nat_mod of_nat_div) (simp add: zdiv_int zmod_int)
qed

lemma pair_nonzero: "0 \<le> v \<Longrightarrow> v < 100 \<Longrightarrow> 0 \<notin> set (pair v)"
  using digits2_pair [of v] digit_marks by (auto simp: pair_def)

section \<open>The text of a time\<close>

lemma utc_step:
  assumes "i < 6" and "0 \<le> v" and "v < 100" and "a ! n = dchar (v div 10)" and "a ! (n + 1) = dchar (v mod 10)"
    and "int (n + 2) \<le> l" and "utc_min ! i \<le> v" and "v \<le> utc_max ! i"
  shows "utctime_fields a l i n tm = utctime_fields a l (Suc i) (n + 2) (map_option (utc_field i v) tm)"
  using assms digits2_pair [OF assms(2,3)] digit_marks [OF digits2_pair(1) [OF assms(2,3)]]
  by (subst utctime_fields.simps) (simp add: Let_def)

lemma gen_step:
  assumes "i < 7" and "0 \<le> v" and "v < 100" and "a ! n = dchar (v div 10)" and "a ! (n + 1) = dchar (v mod 10)"
    and "int (n + 2) \<le> l" and "gen_min ! i \<le> v" and "v \<le> gen_max ! i"
  shows "generalizedtime_fields a l i n tm = generalizedtime_fields a l (Suc i) (n + 2) (map_option (gen_field i v) tm)"
  using assms digits2_pair [OF assms(2,3)] digit_marks [OF digits2_pair(1) [OF assms(2,3)]]
  by (subst generalizedtime_fields.simps) (simp add: Let_def)

lemma valid_tm_bounds:
  assumes "valid_tm t"
  shows "1 \<le> tm_mon t + 1" "tm_mon t + 1 \<le> 12" "1 \<le> tm_mday t" "tm_mday t \<le> 31" "0 \<le> tm_hour t" "tm_hour t \<le> 23"
    "0 \<le> tm_min t" "tm_min t \<le> 59" "0 \<le> tm_sec t" "tm_sec t \<le> 59"
  using assms by (auto simp: valid_tm_def valid_date_def days_in_month_def split: if_splits)

definition clock_pairs :: "tm \<Rightarrow> bytes" where
  "clock_pairs t = pair (tm_mon t + 1) @ pair (tm_mday t) @ pair (tm_hour t) @ pair (tm_min t) @ pair (tm_sec t) @ [90]"

lemma clock_text_pairs: "valid_tm t \<Longrightarrow> clock_text t = clock_pairs t"
  using valid_tm_bounds [of t] by (simp add: clock_text_def clock_pairs_def fmt_dec_2)

lemma mod_if_100: "50 \<le> y \<Longrightarrow> y < 150 \<Longrightarrow> y mod 100 = (if y < 100 then y else y - 100)" for y :: int
  using mod_pos_pos_trivial [of "y - 100" 100] by (cases "y < 100") (simp_all add: mod_pos_pos_trivial)

lemma utctime_parse:
  assumes "valid_tm t" and "50 \<le> tm_year t" and "tm_year t < 150" and "stype d = V_ASN1_UTCTIME" and "slen d = 13"
    and "sdata d = Some (pair (tm_year t smod 100) @ clock_pairs t @ 0 # rest)"
  shows "asn1_utctime_to_tm None d = Some None" "asn1_utctime_to_tm (Some u) d = Some (Some t)"
proof -
  define y where "y = tm_year t smod 100"
  define a where "a = pair y @ clock_pairs t @ 0 # rest"
  note b = valid_tm_bounds [OF assms(1)]
  have "y = tm_year t mod 100" using assms(2) by (simp add: y_def smod_pos)
  then have y: "0 \<le> y" "y < 100" "(if y < 50 then y + 100 else y) = tm_year t"
    using assms(2,3) by (auto simp: mod_if_100)
  have f: "utctime_fields a 13 0 0 tm = Some (12, map_option (\<lambda>_. t) tm)" for tm
  proof -
    note d = a_def pair_def clock_pairs_def utc_min_def utc_max_def
    have "utctime_fields a 13 0 0 tm = utctime_fields a 13 (Suc 0) 2 (map_option (utc_field 0 y) tm)" for tm
      using utc_step [of 0 y a 0 13 tm] y by (simp add: d flip: numeral_2_eq_2)
    moreover have "utctime_fields a 13 (Suc 0) 2 tm = utctime_fields a 13 2 4 (map_option (utc_field (Suc 0) (tm_mon t + 1)) tm)" for tm
      using utc_step [of "Suc 0" "tm_mon t + 1" a 2 13 tm] b by (simp add: d flip: numeral_2_eq_2)
    moreover have "utctime_fields a 13 2 4 tm = utctime_fields a 13 3 6 (map_option (utc_field 2 (tm_mday t)) tm)" for tm
      using utc_step [of 2 "tm_mday t" a 4 13 tm] b by (simp add: d)
    moreover have "utctime_fields a 13 3 6 tm = utctime_fields a 13 4 8 (map_option (utc_field 3 (tm_hour t)) tm)" for tm
      using utc_step [of 3 "tm_hour t" a 6 13 tm] b by (simp add: d)
    moreover have "utctime_fields a 13 4 8 tm = utctime_fields a 13 5 10 (map_option (utc_field 4 (tm_min t)) tm)" for tm
      using utc_step [of 4 "tm_min t" a 8 13 tm] b by (simp add: d)
    moreover have "utctime_fields a 13 5 10 tm = utctime_fields a 13 6 12 (map_option (utc_field 5 (tm_sec t)) tm)" for tm
      using utc_step [of 5 "tm_sec t" a 10 13 tm] b by (simp add: d)
    moreover have "utctime_fields a 13 6 12 tm = Some (12, tm)" for tm by (simp add: utctime_fields.simps)
    ultimately show ?thesis using y(3) by (cases tm) (simp_all add: utc_field_def)
  qed
  show "asn1_utctime_to_tm None d = Some None" "asn1_utctime_to_tm (Some u) d = Some (Some t)"
    using assms(4-6) f by (simp_all add: asn1_utctime_to_tm_def c_data_def y_def [symmetric] a_def [symmetric] Let_def)
      (simp_all add: a_def pair_def clock_pairs_def)
qed

lemma skip_point: "a ! n \<noteq> 46 \<Longrightarrow> fraction a l n = Some n"
  by (simp add: fraction_def)

lemma generalizedtime_parse:
  assumes "valid_tm t" and "0 \<le> tm_year t + 1900" and "tm_year t + 1900 < 10000" and "stype d = V_ASN1_GENERALIZEDTIME"
    and "slen d = 15" and "sdata d = Some (pair ((tm_year t + 1900) div 100) @ pair ((tm_year t + 1900) mod 100) @ clock_pairs t @ 0 # rest)"
  shows "asn1_generalizedtime_to_tm None d = Some None" "asn1_generalizedtime_to_tm (Some u) d = Some (Some t)"
proof -
  define c where "c = (tm_year t + 1900) div 100"
  define y where "y = (tm_year t + 1900) mod 100"
  define a where "a = pair c @ pair y @ clock_pairs t @ 0 # rest"
  note b = valid_tm_bounds [OF assms(1)]
  have "c * 100 + y = tm_year t + 1900" unfolding c_def y_def by (rule div_mult_mod_eq)
  moreover have "0 \<le> y" "y < 100" "0 \<le> c" "c < 100" using assms(2,3) by (auto simp: y_def c_def)
  ultimately have y: "0 \<le> y" "y < 100" "0 \<le> c" "c < 100" "c * 100 - 1900 + y = tm_year t" by linarith+
  have f: "generalizedtime_fields a 15 0 0 tm = Some (14, map_option (\<lambda>_. t) tm)" for tm
  proof -
    note d = a_def pair_def clock_pairs_def gen_min_def gen_max_def
    have "generalizedtime_fields a 15 0 0 tm = generalizedtime_fields a 15 (Suc 0) 2 (map_option (gen_field 0 c) tm)" for tm
      using gen_step [of 0 c a 0 15 tm] y by (simp add: d flip: numeral_2_eq_2)
    moreover have "generalizedtime_fields a 15 (Suc 0) 2 tm = generalizedtime_fields a 15 2 4 (map_option (gen_field (Suc 0) y) tm)" for tm
      using gen_step [of "Suc 0" y a 2 15 tm] y by (simp add: d flip: numeral_2_eq_2)
    moreover have "generalizedtime_fields a 15 2 4 tm = generalizedtime_fields a 15 3 6 (map_option (gen_field 2 (tm_mon t + 1)) tm)" for tm
      using gen_step [of 2 "tm_mon t + 1" a 4 15 tm] b by (simp add: d)
    moreover have "generalizedtime_fields a 15 3 6 tm = generalizedtime_fields a 15 4 8 (map_option (gen_field 3 (tm_mday t)) tm)" for tm
      using gen_step [of 3 "tm_mday t" a 6 15 tm] b by (simp add: d)
    moreover have "generalizedtime_fields a 15 4 8 tm = generalizedtime_fields a 15 5 10 (map_option (gen_field 4 (tm_hour t)) tm)" for tm
      using gen_step [of 4 "tm_hour t" a 8 15 tm] b by (simp add: d)
    moreover have "generalizedtime_fields a 15 5 10 tm = generalizedtime_fields a 15 6 12 (map_option (gen_field 5 (tm_min t)) tm)" for tm
      using gen_step [of 5 "tm_min t" a 10 15 tm] b by (simp add: d)
    moreover have "generalizedtime_fields a 15 6 12 tm = generalizedtime_fields a 15 7 14 (map_option (gen_field 6 (tm_sec t)) tm)" for tm
      using gen_step [of 6 "tm_sec t" a 12 15 tm] b by (simp add: d)
    moreover have "generalizedtime_fields a 15 7 14 tm = Some (14, tm)" for tm by (simp add: generalizedtime_fields.simps)
    ultimately show ?thesis using y(5) by (cases tm) (simp_all add: gen_field_def)
  qed
  have z: "a ! 14 = 90" by (simp add: a_def pair_def clock_pairs_def)
  then show "asn1_generalizedtime_to_tm None d = Some None" "asn1_generalizedtime_to_tm (Some u) d = Some (Some t)"
    using assms(4-6) f skip_point [of a 14 15]
    by (simp_all add: asn1_generalizedtime_to_tm_def c_data_def y_def [symmetric] c_def [symmetric] a_def [symmetric] Let_def)
qed

section \<open>Writing a time\<close>

lemma time_buffer_length:
  assumes "wf_string s" and "time_buffer env s = Some p"
  shows "20 \<le> length p"
proof -
  have m: "length p = 20" if "OPENSSL_malloc env 20 = Some p"
    using OPENSSL_malloc_length(1) [OF _ that] by (simp add: SIZE_LIMIT_def OPENSSL_MALLOC_PREFIX_def)
  show ?thesis using assms m by (cases "sdata s") (auto simp: time_buffer_def wf_string_def split: if_splits)
qed

text \<open>A string with a zero byte behind its contents, as \<open>ASN1_STRING_set\<close> makes them.\<close>

definition terminated :: "asn1_string \<Rightarrow> bool" where
  "terminated s \<longleftrightarrow> wf_string s \<and> nat (slen s) < length (c_data s) \<and> c_data s ! nat (slen s) = 0"

lemma snprintf_string:
  assumes "wf_string s" and "time_buffer env s = Some p" and "length str < 20" and "0 \<notin> set str" and "p' = BIO_snprintf p 20 str"
    and "r = s\<lparr>sdata := Some p', slen := int_of_size (c_strlen p'), stype := ty\<rparr>"
  shows "terminated r \<and> stype r = ty \<and> slen r = int (length str) \<and> (\<exists>rest. sdata r = Some (str @ 0 # rest))"
proof -
  note f = snprintf_fits [OF assms(3) time_buffer_length [OF assms(1,2)] assms(4)]
  have "int_of_size (length str) = int (length str)" using assms(3)
    by (simp add: int_of_size_def signed_take_bit_int_eq_self)
  then show ?thesis
    using assms(3) f by (simp add: assms(5,6) terminated_def wf_string_def c_data_def MAX_INT_def)
qed

lemma clock_pairs_nonzero: "valid_tm t \<Longrightarrow> 0 \<notin> set (clock_pairs t)"
  using valid_tm_bounds [of t] by (simp add: clock_pairs_def pair_nonzero)

lemma ASN1_UTCTIME_adj_effect:
  assumes "\<And>s'. s = Some s' \<Longrightarrow> wf_string s'" and "offset_tm gmtime t od os = Some ts" and "valid_tm ts"
    and "50 \<le> tm_year ts" and "tm_year ts < 150"
  shows "case ASN1_UTCTIME_adj env gmtime s t od os of
      None \<Rightarrow> OPENSSL_malloc env 20 = None \<or> OPENSSL_malloc env sizeof_ASN1_STRING = None
    | Some r \<Rightarrow> terminated r \<and> stype r = V_ASN1_UTCTIME \<and> slen r = 13 \<and>
        (\<exists>rest. sdata r = Some (pair (tm_year ts smod 100) @ clock_pairs ts @ 0 # rest))"
proof -
  have y: "0 \<le> tm_year ts smod 100" "tm_year ts smod 100 < 100" using assms(4) by (simp_all add: smod_pos)
  let ?str = "fmt_dec 2 (tm_year ts smod 100) @ clock_text ts"
  have str: "?str = pair (tm_year ts smod 100) @ clock_pairs ts" by (simp only: fmt_dec_2 [OF y] clock_text_pairs [OF assms(3)])
  have len: "length ?str = 13" unfolding str by (simp add: pair_def clock_pairs_def)
  have nz: "0 \<notin> set ?str" unfolding str using clock_pairs_nonzero [OF assms(3)] pair_nonzero [OF y] by auto
  show ?thesis
  proof (cases "(case s of None \<Rightarrow> ASN1_STRING_type_new env V_ASN1_UTCTIME | Some s \<Rightarrow> Some s)")
    case None
    then show ?thesis by (auto simp: ASN1_UTCTIME_adj_def ASN1_STRING_type_new_def split: option.splits)
  next
    case (Some s0)
    have wf: "wf_string s0"
      using Some assms(1) by (auto simp: ASN1_STRING_type_new_def wf_string_def MAX_INT_def split: option.splits)
    show ?thesis
    proof (cases "time_buffer env s0")
      case None
      then show ?thesis using Some assms(2,4,5)
        by (auto simp: ASN1_UTCTIME_adj_def time_buffer_def split: option.splits if_splits)
    next
      case p: (Some p)
      define r where "r = s0\<lparr>sdata := Some (BIO_snprintf p 20 ?str),
          slen := int_of_size (c_strlen (BIO_snprintf p 20 ?str)), stype := V_ASN1_UTCTIME\<rparr>"
      have adj: "ASN1_UTCTIME_adj env gmtime s t od os = Some r"
        using Some p assms(2,4,5) by (simp add: ASN1_UTCTIME_adj_def Let_def r_def)
      have "terminated r \<and> stype r = V_ASN1_UTCTIME \<and> slen r = int (length ?str) \<and> (\<exists>rest. sdata r = Some (?str @ 0 # rest))"
        by (rule snprintf_string [OF wf p _ nz refl r_def]) (simp only: len)
      then show ?thesis unfolding adj len by (simp add: str)
    qed
  qed
qed

lemma ASN1_GENERALIZEDTIME_adj_effect:
  assumes "\<And>s'. s = Some s' \<Longrightarrow> wf_string s'" and "offset_tm gmtime t od os = Some ts" and "valid_tm ts"
    and "0 \<le> tm_year ts + 1900" and "tm_year ts + 1900 < 10000"
  shows "case ASN1_GENERALIZEDTIME_adj env gmtime s t od os of
      None \<Rightarrow> OPENSSL_malloc env 20 = None \<or> OPENSSL_malloc env sizeof_ASN1_STRING = None
    | Some r \<Rightarrow> terminated r \<and> stype r = V_ASN1_GENERALIZEDTIME \<and> slen r = 15 \<and>
        (\<exists>rest. sdata r = Some (pair ((tm_year ts + 1900) div 100) @ pair ((tm_year ts + 1900) mod 100) @ clock_pairs ts @ 0 # rest))"
proof -
  let ?c = "(tm_year ts + 1900) div 100" and ?y = "(tm_year ts + 1900) mod 100"
  have y: "0 \<le> ?c" "?c < 100" "0 \<le> ?y" "?y < 100" using assms(4,5) by auto
  let ?str = "fmt_dec 4 (tm_year ts + 1900) @ clock_text ts"
  have str: "?str = pair ?c @ pair ?y @ clock_pairs ts"
    by (simp only: fmt_dec_4 [OF assms(4,5)] clock_text_pairs [OF assms(3)] append_assoc)
  have len: "length ?str = 15" unfolding str by (simp add: pair_def clock_pairs_def)
  have nz: "0 \<notin> set ?str"
    unfolding str using clock_pairs_nonzero [OF assms(3)] pair_nonzero [OF y(1,2)] pair_nonzero [OF y(3,4)] by auto
  show ?thesis
  proof (cases "(case s of None \<Rightarrow> ASN1_STRING_type_new env V_ASN1_GENERALIZEDTIME | Some s \<Rightarrow> Some s)")
    case None
    then show ?thesis by (auto simp: ASN1_GENERALIZEDTIME_adj_def ASN1_STRING_type_new_def split: option.splits)
  next
    case (Some s0)
    have wf: "wf_string s0"
      using Some assms(1) by (auto simp: ASN1_STRING_type_new_def wf_string_def MAX_INT_def split: option.splits)
    show ?thesis
    proof (cases "time_buffer env s0")
      case None
      then show ?thesis using Some assms(2)
        by (auto simp: ASN1_GENERALIZEDTIME_adj_def time_buffer_def split: option.splits if_splits)
    next
      case p: (Some p)
      define r where "r = s0\<lparr>sdata := Some (BIO_snprintf p 20 ?str),
          slen := int_of_size (c_strlen (BIO_snprintf p 20 ?str)), stype := V_ASN1_GENERALIZEDTIME\<rparr>"
      have adj: "ASN1_GENERALIZEDTIME_adj env gmtime s t od os = Some r"
        using Some p assms(2) by (simp add: ASN1_GENERALIZEDTIME_adj_def Let_def r_def)
      have "terminated r \<and> stype r = V_ASN1_GENERALIZEDTIME \<and> slen r = int (length ?str) \<and> (\<exists>rest. sdata r = Some (?str @ 0 # rest))"
        by (rule snprintf_string [OF wf p _ nz refl r_def]) (simp only: len)
      then show ?thesis unfolding adj len by (simp add: str)
    qed
  qed
qed

text \<open>What POSIX says of \<open>gmtime_r\<close>: it breaks a number of seconds down into the time it stands for.\<close>

definition gmtime_law :: "(int \<Rightarrow> tm option) \<Rightarrow> bool" where
  "gmtime_law gmtime \<longleftrightarrow> (\<forall>t u. gmtime t = Some u \<longrightarrow> valid_tm u \<and> tm_seconds u = t)"

section \<open>The longer form of a UTCTime\<close>












lemma strlen_zero_end: "0 \<notin> set s \<Longrightarrow> libc_strlen (s @ 0 # r) = Some (length s)"
  by (induction s) auto













text \<open>A \<open>gmtime_r\<close> that satisfies the law, for concrete instances.\<close>

definition epoch :: tm where
  "epoch = \<lparr>tm_sec = 0, tm_min = 0, tm_hour = 0, tm_mday = 1, tm_mon = 0, tm_year = 70\<rparr>"

definition posix_gmtime :: "int \<Rightarrow> tm option" where
  "posix_gmtime t = OPENSSL_gmtime_adj epoch (t div 86400) (t mod 86400)"

lemma posix_gmtime_law: "gmtime_law posix_gmtime"
proof -
  have "valid_tm epoch" "tm_seconds epoch = 0" by code_simp+
  then have "valid_tm u \<and> tm_seconds u = t" if "posix_gmtime t = Some u" for t u
    using gmtime_adj_effect [of epoch "t div 86400" "t mod 86400"] that by (simp add: posix_gmtime_def)
  then show ?thesis by (simp add: gmtime_law_def)
qed

text \<open>The fields are not checked together: 31 February passes the check and is no date.\<close>

lemma impossible_date_accepted:
  fixes d defines "d \<equiv> c_string_time V_ASN1_UTCTIME [50, 52, 48, 50, 51, 49, 48, 48, 48, 48, 48, 48, 90, 0]"
  shows "ASN1_TIME_check d" "\<exists>t. asn1_utctime_to_tm (Some epoch) d = Some (Some t) \<and> \<not> valid_tm t"
proof -
  show "ASN1_TIME_check d" unfolding d_def by code_simp
  have "asn1_utctime_to_tm (Some epoch) d = Some (Some (epoch\<lparr>tm_year := 124, tm_mon := 1, tm_mday := 31\<rparr>))"
    unfolding d_def by code_simp
  moreover have "\<not> valid_tm (epoch\<lparr>tm_year := 124, tm_mon := 1, tm_mday := 31\<rparr>)" by code_simp
  ultimately show "\<exists>t. asn1_utctime_to_tm (Some epoch) d = Some (Some t) \<and> \<not> valid_tm t" by blast
qed

text \<open>
  Without an offset the year is not checked: for a lawful \<open>gmtime_r\<close> at the first second of the year
  10000 the text has a year of five digits, and the string fails its own check.
\<close>

lemma five_digit_year_rejected:
  defines "late_gmtime \<equiv> (\<lambda>t. if t = 253402300800 then Some (epoch\<lparr>tm_year := 8100\<rparr>) else None)"
  shows "gmtime_law late_gmtime"
    and "\<exists>r. ASN1_TIME_adj roomy_env late_gmtime None 253402300800 0 0 = Some r \<and> \<not> ASN1_TIME_check r"
proof -
  have "valid_tm (epoch\<lparr>tm_year := 8100\<rparr>)" "tm_seconds (epoch\<lparr>tm_year := 8100\<rparr>) = 253402300800" by code_simp+
  then show "gmtime_law late_gmtime" by (auto simp: gmtime_law_def late_gmtime_def split: if_splits)
  have "case ASN1_TIME_adj roomy_env late_gmtime None 253402300800 0 0 of None \<Rightarrow> False | Some r \<Rightarrow> \<not> ASN1_TIME_check r"
    unfolding late_gmtime_def by code_simp
  then show "\<exists>r. ASN1_TIME_adj roomy_env late_gmtime None 253402300800 0 0 = Some r \<and> \<not> ASN1_TIME_check r"
    by (auto split: option.splits)
qed

section \<open>Properties\<close>

text \<open>C34: times survive their text. Let \<open>gmtime_r\<close> be right, and let the time it gives be in the bounds of
  the calendar arithmetic and, where no offset is added, in the years 0 to 9999 (without an offset the
  code does not check the year). When \<open>ASN1_TIME_adj\<close> makes a string of a time and an offset, the string
  passes \<open>ASN1_TIME_check\<close>, ends in a zero byte, is a UTCTime exactly for the years 1950 to 2049, and
  \<open>asn1_time_to_tm\<close> reads exactly that time with the offset added; it fails only when \<open>gmtime_r\<close> or an
  allocation fails or no time of the years 1900 to 9999 is meant.\<close>

theorem time_adj_roundtrip:
  assumes "gmtime_law gmtime" and "\<And>s'. s = Some s' \<Longrightarrow> wf_string s'"
    and "\<And>ts. gmtime t = Some ts \<Longrightarrow> in_bounds ts od os \<and>
      (od = 0 \<and> os = 0 \<longrightarrow> 0 \<le> tm_year ts + 1900 \<and> tm_year ts + 1900 < 10000)"
  shows "case ASN1_TIME_adj env gmtime s t od os of
      Some r \<Rightarrow> terminated r \<and> ASN1_TIME_check r \<and> (\<exists>u. asn1_time_to_tm gmtime now uninit (Some r) = Some u \<and> valid_tm u \<and>
        tm_seconds u = t + 86400 * od + os \<and> stype r = (if 1950 \<le> tm_year u + 1900 \<and> tm_year u + 1900 < 2050 then V_ASN1_UTCTIME else V_ASN1_GENERALIZEDTIME))
    | None \<Rightarrow> gmtime t = None \<or> OPENSSL_malloc env 20 = None \<or> OPENSSL_malloc env sizeof_ASN1_STRING = None \<or>
        (\<nexists>u. valid_tm u \<and> 0 \<le> tm_year u \<and> tm_year u \<le> 8099 \<and> tm_seconds u = t + 86400 * od + os)"
proof (cases "offset_tm gmtime t od os")
  case None
  show ?thesis
  proof (cases "gmtime t")
    case None
    then show ?thesis by (simp add: ASN1_TIME_adj_def offset_tm_def)
  next
    case (Some ts)
    then have "OPENSSL_gmtime_adj ts od os = None" using None by (simp add: offset_tm_def split: if_splits)
    moreover have "valid_tm ts" "tm_seconds ts = t" using assms(1) Some by (simp_all add: gmtime_law_def)
    ultimately show ?thesis using gmtime_adj_effect [of ts od os] None by (simp add: ASN1_TIME_adj_def)
  qed
next
  case (Some ts)
  obtain t0 where t0: "gmtime t = Some t0" using Some by (auto simp: offset_tm_def split: option.splits)
  have v0: "valid_tm t0" "tm_seconds t0 = t" using assms(1) t0 by (simp_all add: gmtime_law_def)
  have ts: "valid_tm ts" "0 \<le> tm_year ts + 1900" "tm_year ts + 1900 < 10000" "tm_seconds ts = t + 86400 * od + os"
    using Some t0 gmtime_adj_effect [OF v0(1), of od os] v0 assms(3) [OF t0]
    by (auto simp: offset_tm_def split: if_splits option.splits)
  show ?thesis
  proof (cases "50 \<le> tm_year ts \<and> tm_year ts < 150")
    case True
    then have e: "ASN1_TIME_adj env gmtime s t od os = ASN1_UTCTIME_adj env gmtime s t od os"
      using Some by (simp add: ASN1_TIME_adj_def)
    show ?thesis
      using ASN1_UTCTIME_adj_effect [OF assms(2) Some ts(1), of s env] True ts utctime_parse [OF ts(1)]
      unfolding e by (auto split: option.splits simp: ASN1_TIME_check_def ASN1_UTCTIME_check_def asn1_time_to_tm_def V_ASN1_UTCTIME_def V_ASN1_GENERALIZEDTIME_def)
  next
    case False
    then have e: "ASN1_TIME_adj env gmtime s t od os = ASN1_GENERALIZEDTIME_adj env gmtime s t od os"
      using Some by (auto simp: ASN1_TIME_adj_def)
    show ?thesis
      using ASN1_GENERALIZEDTIME_adj_effect [OF assms(2) Some ts(1-3), of s env] False ts generalizedtime_parse [OF ts(1-3)]
      unfolding e by (auto split: option.splits simp: ASN1_TIME_check_def ASN1_GENERALIZEDTIME_check_def asn1_time_to_tm_def V_ASN1_UTCTIME_def V_ASN1_GENERALIZEDTIME_def)
  qed
qed

theorem time_adj_roundtrip_witness:
  "\<exists>r u. ASN1_TIME_adj roomy_env posix_gmtime None 1000000000 1 (- 3600) = Some r \<and> ASN1_TIME_check r \<and>
     asn1_time_to_tm posix_gmtime 0 epoch (Some r) = Some u \<and> tm_seconds u = 1000082800"
proof -
  have y: "posix_gmtime 1000000000 = Some \<lparr>tm_sec = 40, tm_min = 46, tm_hour = 1, tm_mday = 9, tm_mon = 8, tm_year = 101\<rparr>"
    by code_simp
  have "case ASN1_TIME_adj roomy_env posix_gmtime None 1000000000 1 (- 3600) of
      Some r \<Rightarrow> terminated r \<and> ASN1_TIME_check r \<and> (\<exists>u. asn1_time_to_tm posix_gmtime 0 epoch (Some r) = Some u \<and> valid_tm u \<and>
        tm_seconds u = 1000000000 + 86400 * 1 + - 3600 \<and> stype r = (if 1950 \<le> tm_year u + 1900 \<and> tm_year u + 1900 < 2050 then V_ASN1_UTCTIME else V_ASN1_GENERALIZEDTIME))
    | None \<Rightarrow> posix_gmtime 1000000000 = None \<or> OPENSSL_malloc roomy_env 20 = None \<or> OPENSSL_malloc roomy_env sizeof_ASN1_STRING = None \<or>
        (\<nexists>u. valid_tm u \<and> 0 \<le> tm_year u \<and> tm_year u \<le> 8099 \<and> tm_seconds u = 1000000000 + 86400 * 1 + - 3600)"
    by (rule time_adj_roundtrip [OF posix_gmtime_law]) (auto simp: y in_bounds_def)
  moreover have "ASN1_TIME_adj roomy_env posix_gmtime None 1000000000 1 (- 3600) \<noteq> None" by code_simp
  ultimately show ?thesis by (auto split: option.splits)
qed



end
