(* ===== verification/MBString.thy ===== *)
theory MBString
  imports Unicode ASN1_String
begin

text \<open>
  \<open>crypto/asn1/a_mbstr.c\<close>: a text in one of four encodings is checked, the smallest permitted
  string type that can hold it is chosen, and the text is converted to the encoding of that
  type. The pair of function pointers \<open>decode_func\<close>, \<open>encode_func\<close> of the code is the form they
  belong to, and the variable \<open>mask\<close> of the code is \<open>types\<close> here.
\<close>

unbundle bit_operations_syntax

section \<open>Constants\<close>

definition B_ASN1_PRINTABLESTRING :: u64 where "B_ASN1_PRINTABLESTRING = 0x0002"
definition B_ASN1_T61STRING :: u64 where "B_ASN1_T61STRING = 0x0004"
definition B_ASN1_IA5STRING :: u64 where "B_ASN1_IA5STRING = 0x0010"
definition B_ASN1_UNIVERSALSTRING :: u64 where "B_ASN1_UNIVERSALSTRING = 0x0100"
definition B_ASN1_BMPSTRING :: u64 where "B_ASN1_BMPSTRING = 0x0800"
definition B_ASN1_UTF8STRING :: u64 where "B_ASN1_UTF8STRING = 0x2000"

definition DIRSTRING_TYPE :: u64 where
  "DIRSTRING_TYPE = B_ASN1_PRINTABLESTRING OR B_ASN1_T61STRING OR B_ASN1_BMPSTRING OR B_ASN1_UTF8STRING"

definition V_ASN1_UTF8STRING :: int where "V_ASN1_UTF8STRING = 12"
definition V_ASN1_PRINTABLESTRING :: int where "V_ASN1_PRINTABLESTRING = 19"
definition V_ASN1_T61STRING :: int where "V_ASN1_T61STRING = 20"
definition V_ASN1_IA5STRING :: int where "V_ASN1_IA5STRING = 22"
definition V_ASN1_UNIVERSALSTRING :: int where "V_ASN1_UNIVERSALSTRING = 28"
definition V_ASN1_BMPSTRING :: int where "V_ASN1_BMPSTRING = 30"

definition MBSTRING_FLAG :: int where "MBSTRING_FLAG = 0x1000"
definition MBSTRING_UTF8 :: int where "MBSTRING_UTF8 = MBSTRING_FLAG"
definition MBSTRING_ASC :: int where "MBSTRING_ASC = MBSTRING_FLAG + 1"
definition MBSTRING_BMP :: int where "MBSTRING_BMP = MBSTRING_FLAG + 2"
definition MBSTRING_UNIV :: int where "MBSTRING_UNIV = MBSTRING_FLAG + 4"

section \<open>The code\<close>

definition is_printable :: "u32 \<Rightarrow> bool" where
  "is_printable value =
     (if value > 0x7f then False
      else let ch = uint value in
        (97 \<le> ch \<and> ch \<le> 122) \<or> (65 \<le> ch \<and> ch \<le> 90) \<or> (48 \<le> ch \<and> ch \<le> 57) \<or>
        ch = 32 \<or> ch \<in> {39, 40, 41, 43, 44, 45, 46, 47, 58, 61, 63, 0})"

datatype mb_form = Form_BMP | Form_UNIV | Form_UTF8 | Form_ASC

definition mb_form_of :: "int \<Rightarrow> mb_form option" where
  "mb_form_of inform =
     (if inform = MBSTRING_BMP then Some Form_BMP
      else if inform = MBSTRING_UNIV then Some Form_UNIV
      else if inform = MBSTRING_UTF8 then Some Form_UTF8
      else if inform = MBSTRING_ASC then Some Form_ASC
      else None)"

fun decode_func :: "mb_form \<Rightarrow> cbs_st \<Rightarrow> (u32, cbs_st) outcome" where
  "decode_func Form_BMP = cbs_get_ucs2_be"
| "decode_func Form_UNIV = cbs_get_utf32_be"
| "decode_func Form_UTF8 = cbs_get_utf8"
| "decode_func Form_ASC = cbs_get_latin1"

fun encode_func :: "mb_form \<Rightarrow> mem_env \<Rightarrow> nat \<Rightarrow> u32 \<Rightarrow> cbb_state \<Rightarrow> (unit, cbb_state) outcome" where
  "encode_func Form_BMP = cbb_add_ucs2_be"
| "encode_func Form_UNIV = cbb_add_utf32_be"
| "encode_func Form_UTF8 = cbb_add_utf8"
| "encode_func Form_ASC = cbb_add_latin1"

definition mb_filter :: "u32 \<Rightarrow> u64 \<Rightarrow> u64" where
  "mb_filter c types =
     (let types = (if types AND B_ASN1_PRINTABLESTRING \<noteq> 0 \<and> \<not> is_printable c
                   then types AND NOT B_ASN1_PRINTABLESTRING else types);
          types = (if types AND B_ASN1_IA5STRING \<noteq> 0 \<and> c > 127 then types AND NOT B_ASN1_IA5STRING else types);
          types = (if types AND B_ASN1_T61STRING \<noteq> 0 \<and> c > 0xff then types AND NOT B_ASN1_T61STRING else types);
          types = (if types AND B_ASN1_BMPSTRING \<noteq> 0 \<and> c > 0xffff then types AND NOT B_ASN1_BMPSTRING else types)
      in types)"

text \<open>Every reader that succeeds moves forward, so both loops end.\<close>

lemma utf8_tail_len: "utf8_tail c v n = (Some w, c') \<Longrightarrow> cbs_len c' \<le> cbs_len c"
proof (induction n arbitrary: c v)
  case (Suc n)
  then obtain b where "CBS_get_u8 c = (Some b, advance c 1)"
    "utf8_tail (advance c 1) (push_bit 6 v OR ucast (b AND BOTTOM_BITS 6)) n = (Some w, c')"
    by (auto simp: and_then_Some CBS_get_u8_advance split: if_splits)
  with Suc.IH [OF this(2)] show ?case by simp
qed simp

lemma decode_func_shrinks: "decode_func f c = (Some u, c') \<Longrightarrow> cbs_len c' < cbs_len c"
  by (cases f) (auto simp: cbs_get_latin1_def cbs_get_ucs2_be_def cbs_get_utf32_be_def cbs_get_utf8_eq CBS_get_u16_def
      CBS_get_u32_def CBS_get_u8_advance cbs_get_u_eq and_then_Some Let_def split: if_splits option.splits
      dest!: utf8_tail_len)

function mb_scan :: "mb_form \<Rightarrow> cbs_st \<Rightarrow> nat \<Rightarrow> u64 \<Rightarrow> nat \<Rightarrow> (nat \<times> u64 \<times> nat) option" where
  "mb_scan inform c nchar types utf8_len =
     (if CBS_len c = 0 then Some (nchar, types, utf8_len)
      else case decode_func inform c of
        (None, _) \<Rightarrow> None
      | (Some u, c) \<Rightarrow>
          if nchar = 0 \<and> (inform = Form_BMP \<or> inform = Form_UNIV) \<and> u = 0xfeff then None
          else let types = mb_filter u types in
            if types = 0 then None
            else mb_scan inform c (nchar + 1) types (utf8_len + cbb_get_utf8_len u))"
  by pat_completeness auto
termination
  by (relation "measure (\<lambda>(_, c, _). cbs_len c)") (auto dest!: sym [of _ "decode_func _ _"] decode_func_shrinks)

function mb_transcode :: "mem_env \<Rightarrow> mb_form \<Rightarrow> mb_form \<Rightarrow> cbs_st \<Rightarrow> cbb_state \<Rightarrow> (unit, cbb_state) outcome" where
  "mb_transcode env inform outform c s =
     (if CBS_len c = 0 then (Some (), s)
      else case decode_func inform c of
        (None, _) \<Rightarrow> (None, s)
      | (Some u, c) \<Rightarrow> and_then (encode_func outform env 0 u s) (\<lambda>_ s. mb_transcode env inform outform c s))"
  by pat_completeness auto
termination
  by (relation "measure (\<lambda>(_, _, _, c, _). cbs_len c)") (auto dest!: sym [of _ "decode_func _ _"] decode_func_shrinks)

declare mb_scan.simps [simp del] mb_transcode.simps [simp del]

text \<open>The type, its encoding and the estimated size.\<close>

definition mb_choose :: "u64 \<Rightarrow> nat \<Rightarrow> nat \<Rightarrow> int \<times> mb_form \<times> nat" where
  "mb_choose types nchar utf8_len =
     (if types AND B_ASN1_PRINTABLESTRING \<noteq> 0 then (V_ASN1_PRINTABLESTRING, Form_ASC, nchar)
      else if types AND B_ASN1_IA5STRING \<noteq> 0 then (V_ASN1_IA5STRING, Form_ASC, nchar)
      else if types AND B_ASN1_T61STRING \<noteq> 0 then (V_ASN1_T61STRING, Form_ASC, nchar)
      else if types AND B_ASN1_BMPSTRING \<noteq> 0 then (V_ASN1_BMPSTRING, Form_BMP, size_mul 2 nchar)
      else if types AND B_ASN1_UNIVERSALSTRING \<noteq> 0 then (V_ASN1_UNIVERSALSTRING, Form_UNIV, size_mul 4 nchar)
      else (V_ASN1_UTF8STRING, Form_UTF8, utf8_len))"

text \<open>The converted text with a zero byte at its end: the buffer and its valid length.\<close>

definition mb_convert :: "mem_env \<Rightarrow> mb_form \<Rightarrow> mb_form \<Rightarrow> bytes \<Rightarrow> nat \<Rightarrow> nat \<Rightarrow> (bytes \<times> nat) option" where
  "mb_convert env inform outform inp n size_estimate =
     (case and_then (CBB_init env (size_add size_estimate 1)) (\<lambda>_ s.
           and_then (mb_transcode env inform outform (CBS_init inp n) s) (\<lambda>_ s.
           and_then (CBB_add_u8 env 0 0 s) (\<lambda>_ s. CBB_finish env 0 True True s))) of
        (Some (Some data, Some k), _) \<Rightarrow> if k < 1 \<or> int k > MAX_INT then None else Some (data, k)
      | _ \<Rightarrow> None)"

text \<open>
  The argument \<open>out\<close> is \<^const>\<open>None\<close> for a null pointer, else what \<open>*out\<close> points to. After the call
  \<open>*out\<close> may also point to an object that has been freed.
\<close>

datatype mb_out = No_out | Null_string | Live_string asn1_string | Freed_string

definition mb_unchanged :: "asn1_string option option \<Rightarrow> mb_out" where
  "mb_unchanged out =
     (case out of None \<Rightarrow> No_out | Some None \<Rightarrow> Null_string | Some (Some s) \<Rightarrow> Live_string s)"

definition size_of_int :: "int \<Rightarrow> nat" where
  "size_of_int n = nat (n mod 2 ^ 64)"

definition ASN1_mbstring_ncopy ::
  "mem_env \<Rightarrow> asn1_string option option \<Rightarrow> bytes \<Rightarrow> int \<Rightarrow> int \<Rightarrow> u64 \<Rightarrow> int \<Rightarrow> int \<Rightarrow> int \<times> mb_out" where
  "ASN1_mbstring_ncopy env out inp n inform types minsize maxsize =
     (let n = (if n = - 1 then int_of_size (c_strlen inp) else n);
          types = (if types = 0 then DIRSTRING_TYPE else types) in
      case mb_form_of inform of
        None \<Rightarrow> (- 1, mb_unchanged out)
      | Some inform \<Rightarrow>
      case mb_scan inform (CBS_init inp (size_of_int n)) 0 types 0 of
        None \<Rightarrow> (- 1, mb_unchanged out)
      | Some (nchar, types, utf8_len) \<Rightarrow>
      if minsize > 0 \<and> nchar < nat minsize then (- 1, mb_unchanged out)
      else if maxsize > 0 \<and> nchar > nat maxsize then (- 1, mb_unchanged out)
      else let (str_type, outform, size_estimate) = mb_choose types nchar utf8_len in
      case out of
        None \<Rightarrow> (str_type, No_out)
      | Some target \<Rightarrow>
          (case (case target of
                   Some dest \<Rightarrow>
                     Some ((if sdata dest \<noteq> None then dest\<lparr>slen := 0, sdata := None\<rparr> else dest)\<lparr>stype := str_type\<rparr>)
                 | None \<Rightarrow> ASN1_STRING_type_new env str_type) of
             None \<Rightarrow> (- 1, Null_string)
           | Some dest \<Rightarrow>
               if inform = outform
               then let (ok, dest) = ASN1_STRING_set env dest (Some inp) n
                    in (if ok then str_type else - 1, Live_string dest)
               else (case mb_convert env inform outform inp (size_of_int n) size_estimate of
                       None \<Rightarrow> (- 1, if target = None then Freed_string else Live_string dest)
                     | Some (data, k) \<Rightarrow>
                         (str_type, Live_string (dest\<lparr>slen := int k - 1, sdata := Some data\<rparr>)))))"

definition ASN1_mbstring_copy ::
  "mem_env \<Rightarrow> asn1_string option option \<Rightarrow> bytes \<Rightarrow> int \<Rightarrow> int \<Rightarrow> u64 \<Rightarrow> int \<times> mb_out" where
  "ASN1_mbstring_copy env out inp n inform types = ASN1_mbstring_ncopy env out inp n inform types 0 0"

section \<open>Texts\<close>

text \<open>The encoding of a form, and the texts that it can hold.\<close>

fun form_enc :: "mb_form \<Rightarrow> u32 \<Rightarrow> bytes" where
  "form_enc Form_BMP u = be_bytes 2 (unat u)"
| "form_enc Form_UNIV u = be_bytes 4 (unat u)"
| "form_enc Form_UTF8 u = utf8 (unat u)"
| "form_enc Form_ASC u = [of_nat (unat u)]"

fun form_valid :: "mb_form \<Rightarrow> u32 \<Rightarrow> bool" where
  "form_valid Form_BMP u = (unat u < 65536 \<and> unicode_character (unat u))"
| "form_valid Form_UNIV u = unicode_character (unat u)"
| "form_valid Form_UTF8 u = unicode_character (unat u)"
| "form_valid Form_ASC u = (unat u < 256)"

definition text_bytes :: "mb_form \<Rightarrow> u32 list \<Rightarrow> bytes" where
  "text_bytes f us = concat (map (form_enc f) us)"

lemma text_bytes_simps [simp]:
  "text_bytes f [] = []" "text_bytes f (u # us) = form_enc f u @ text_bytes f us"
  by (simp_all add: text_bytes_def)

interpretation form: text_form "decode_func f" "form_enc f" "form_valid f" "encode_func f" for f
proof (cases f)
  case Form_BMP
  have "form_enc Form_BMP = (\<lambda>u. be_bytes 2 (unat u))" "form_valid Form_BMP = (\<lambda>u. unat u < 65536 \<and> is_valid_code_point u)"
    by (intro ext, simp add: is_valid_code_point_iff)+
  then show "text_form (decode_func f) (form_enc f) (form_valid f) (encode_func f)"
    using ucs2.text_form_axioms Form_BMP by simp
next
  case Form_UNIV
  have "form_enc Form_UNIV = (\<lambda>u. be_bytes 4 (unat u))" "form_valid Form_UNIV = is_valid_code_point"
    by (intro ext, simp add: is_valid_code_point_iff)+
  then show "text_form (decode_func f) (form_enc f) (form_valid f) (encode_func f)"
    using utf32.text_form_axioms Form_UNIV by simp
next
  case Form_UTF8
  have "form_enc Form_UTF8 = (\<lambda>u. utf8 (unat u))" "form_valid Form_UTF8 = is_valid_code_point"
    by (intro ext, simp add: is_valid_code_point_iff)+
  then show "text_form (decode_func f) (form_enc f) (form_valid f) (encode_func f)"
    using utf8.text_form_axioms Form_UTF8 by simp
next
  case Form_ASC
  have "form_enc Form_ASC = (\<lambda>u. [of_nat (unat u)])" "form_valid Form_ASC = (\<lambda>u. unat u < 256)"
    by (intro ext, simp)+
  then show "text_form (decode_func f) (form_enc f) (form_valid f) (encode_func f)"
    using latin1.text_form_axioms Form_ASC by simp
qed

text \<open>Reading one code point of a text.\<close>

lemma decode_text:
  assumes "wf_cbs c" and "decode_func f c = (Some u, c')"
  shows "wf_cbs c'" "form_valid f u" "cbs_bytes c = form_enc f u @ cbs_bytes c'"
proof -
  note r = assms(2) [unfolded form.reads_iff [OF assms(1)]]
  then show "form_valid f u" "cbs_bytes c = form_enc f u @ cbs_bytes c'" by blast+
  then have "length (form_enc f u) \<le> length (cbs_bytes c)" by (metis le_add1 length_append)
  then have "length (form_enc f u) \<le> cbs_len c" using assms(1) by simp
  then show "wf_cbs c'" using r assms(1) by simp
qed

lemma text_nonempty: "text_bytes f us = [] \<longleftrightarrow> us = []"
  using form.enc_some by (cases us) auto

lemma text_step:
  assumes "wf_cbs c" and "cbs_len c \<noteq> 0"
  shows "(\<exists>us. cbs_bytes c = text_bytes f us \<and> list_all (form_valid f) us \<and> P us) \<longleftrightarrow>
    (case decode_func f c of
       (None, _) \<Rightarrow> False
     | (Some u, c') \<Rightarrow> \<exists>us. cbs_bytes c' = text_bytes f us \<and> list_all (form_valid f) us \<and> P (u # us))"
    (is "?l \<longleftrightarrow> ?r")
proof
  assume ?l
  then obtain us where us: "cbs_bytes c = text_bytes f us" "list_all (form_valid f) us" "P us" by blast
  have "cbs_bytes c \<noteq> []" using assms length_cbs_bytes [of c] by (metis list.size(3))
  then obtain u vs where v: "us = u # vs" using us(1) text_nonempty [of f us] by (cases us) auto
  have e: "cbs_bytes c = form_enc f u @ text_bytes f vs" "form_valid f u" using us(1,2) v by simp_all
  obtain c' where d: "decode_func f c = (Some u, c')" using form.complete [OF assms(1) e(2,1)] by blast
  have "form_enc f u @ cbs_bytes c' = form_enc f u @ text_bytes f vs" using decode_text(3) [OF assms(1) d] e(1) by (rule trans [OF sym])
  then have "cbs_bytes c' = text_bytes f vs" by (rule same_append_eq [THEN iffD1])
  then show ?r using us(2,3) v by (auto simp: d)
next
  assume r: ?r
  obtain x c' where d: "decode_func f c = (x, c')" by fastforce
  with r obtain u us where u: "x = Some u" "cbs_bytes c' = text_bytes f us" "list_all (form_valid f) us" "P (u # us)"
    by (auto split: option.splits)
  note t = decode_text [OF assms(1) d [unfolded u(1)]]
  show ?l using t u by (intro exI [of _ "u # us"]) simp
qed

definition starts_with_bom :: "mb_form \<Rightarrow> u32 list \<Rightarrow> bool" where
  "starts_with_bom f us = ((f = Form_BMP \<or> f = Form_UNIV) \<and> us \<noteq> [] \<and> hd us = 0xfeff)"

lemma mb_filter_zero [simp]: "mb_filter u 0 = 0"
  by (simp add: mb_filter_def)

lemma fold_mb_filter_zero [simp]: "fold mb_filter us 0 = 0"
  by (induction us) simp_all

lemma mb_scan_iff:
  assumes "wf_cbs c"
  shows "mb_scan f c k types l = Some r \<longleftrightarrow>
    (\<exists>us. cbs_bytes c = text_bytes f us \<and> list_all (form_valid f) us \<and>
      \<not> (k = 0 \<and> starts_with_bom f us) \<and> (us \<noteq> [] \<longrightarrow> fold mb_filter us types \<noteq> 0) \<and>
      r = (k + length us, fold mb_filter us types, l + sum_list (map cbb_get_utf8_len us)))"
  using assms
proof (induction f c k types l rule: mb_scan.induct)
  case (1 f c k types l)
  show ?case
  proof (cases "cbs_len c = 0")
    case True
    then have "cbs_bytes c = []" using "1.prems" length_cbs_bytes [of c] by (metis length_0_conv)
    moreover have "[] = text_bytes f us \<longleftrightarrow> us = []" for us using text_nonempty [of f us] by metis
    ultimately show ?thesis using True by (auto simp: mb_scan.simps [of f c] CBS_len_def starts_with_bom_def)
  next
    case False
    then have len: "CBS_len c \<noteq> 0" by (simp add: CBS_len_def)
    obtain x c' where d: "decode_func f c = (x, c')" by fastforce
    show ?thesis
    proof (cases x)
      case None
      then show ?thesis unfolding text_step [OF "1.prems" False] using d len
        by (simp add: mb_scan.simps [of f c])
    next
      case (Some u)
      have w: "wf_cbs c'" using decode_text(1) [OF "1.prems" d [unfolded Some]] .
      let ?t = "mb_filter u types"
      have step: "mb_scan f c k types l =
        (if k = 0 \<and> (f = Form_BMP \<or> f = Form_UNIV) \<and> u = 0xfeff then None
         else if ?t = 0 then None else mb_scan f c' (k + 1) ?t (l + cbb_get_utf8_len u))"
        using d Some len by (simp add: mb_scan.simps [of f c] Let_def)
      have IH: "mb_scan f c' (k + 1) ?t (l + cbb_get_utf8_len u) = Some r \<longleftrightarrow>
        (\<exists>us. cbs_bytes c' = text_bytes f us \<and> list_all (form_valid f) us \<and>
          \<not> (k + 1 = 0 \<and> starts_with_bom f us) \<and> (us \<noteq> [] \<longrightarrow> fold mb_filter us ?t \<noteq> 0) \<and>
          r = (k + 1 + length us, fold mb_filter us ?t, l + cbb_get_utf8_len u + sum_list (map cbb_get_utf8_len us)))"
        if "\<not> (k = 0 \<and> (f = Form_BMP \<or> f = Form_UNIV) \<and> u = 0xfeff)" "?t \<noteq> 0"
        using "1.IH" [OF len d [symmetric] Some that(1) refl that(2) w] .
      show ?thesis unfolding text_step [OF "1.prems" False] d Some
        using IH by (auto simp: step starts_with_bom_def)
    qed
  qed
qed

section \<open>Conversion\<close>

fun write_text :: "mem_env \<Rightarrow> mb_form \<Rightarrow> u32 list \<Rightarrow> cbb_state \<Rightarrow> (unit, cbb_state) outcome" where
  "write_text env g [] s = (Some (), s)"
| "write_text env g (u # us) s = and_then (encode_func g env 0 u s) (\<lambda>_. write_text env g us)"

lemma mb_transcode_eq:
  assumes "wf_cbs c" and "cbs_bytes c = text_bytes f us" and "list_all (form_valid f) us"
  shows "mb_transcode env f g c s = write_text env g us s"
  using assms
proof (induction us arbitrary: c s)
  case Nil
  then have "cbs_len c = 0" using length_cbs_bytes [of c] by simp
  then show ?case by (simp add: mb_transcode.simps [of env f g c] CBS_len_def)
next
  case (Cons u us)
  have e: "cbs_bytes c = form_enc f u @ text_bytes f us" "form_valid f u" using Cons.prems(2,3) by simp_all
  obtain c' where d: "decode_func f c = (Some u, c')" using form.complete [OF Cons.prems(1) e(2,1)] by blast
  have "form_enc f u @ cbs_bytes c' = form_enc f u @ text_bytes f us"
    using decode_text(3) [OF Cons.prems(1) d] e(1) by (rule trans [OF sym])
  then have b: "cbs_bytes c' = text_bytes f us" by (rule same_append_eq [THEN iffD1])
  have "cbs_len c \<noteq> 0" using decode_func_shrinks [OF d] by simp
  then have "mb_transcode env f g c s = and_then (encode_func g env 0 u s) (\<lambda>_. mb_transcode env f g c')"
    using d by (simp add: mb_transcode.simps [of env f g c] CBS_len_def)
  also have "\<dots> = write_text env g (u # us) s"
    using Cons.IH [OF decode_text(1) [OF Cons.prems(1) d] b] Cons.prems(3) by (auto intro: and_then_cong)
  finally show ?case .
qed

lemma write_text_call:
  "list_all (form_valid g) us \<Longrightarrow>
   builder_call (\<lambda>s. and_then (write_text env g us s) (\<lambda>_. CBB_add_u8 env 0 0)) (append_option 0 (Some (text_bytes g us @ [0]))) 0"
proof (induction us)
  case Nil
  then show ?case using u8_call by simp
next
  case (Cons u us)
  have "builder_call (\<lambda>s. and_then (encode_func g env 0 u s) (\<lambda>_ s. and_then (write_text env g us s) (\<lambda>_. CBB_add_u8 env 0 0)))
      (\<lambda>ls. Option.bind (append_option 0 (Some (form_enc g u)) ls) (append_option 0 (Some (text_bytes g us @ [0])))) 0"
    by (rule call_sequence [OF form.writes Cons.IH]) (use Cons.prems in \<open>auto dest: append_option_length\<close>)
  moreover have "Option.bind (append_option 0 (Some (form_enc g u)) ls) (append_option 0 (Some (text_bytes g us @ [0]))) =
      append_option 0 (Some (text_bytes g (u # us) @ [0])) ls" for ls
    using append_append [of 0 "form_enc g u" ls] by (simp add: append_option_def [abs_def])
  ultimately show ?case by (simp add: and_then_assoc)
qed

lemma write_text_refuses: "\<not> list_all (form_valid g) us \<Longrightarrow> fst (write_text env g us s) = None"
proof (induction us arbitrary: s)
  case (Cons u us)
  then show ?case
  proof (cases "form_valid g u")
    case True
    then have "\<not> list_all (form_valid g) us" using Cons.prems by simp
    then show ?thesis using Cons.IH by (cases "(encode_func g env 0 u s, \<lambda>_ :: unit. write_text env g us)" rule: and_then.cases) simp_all
  next
    case False
    then show ?thesis using form.refuses [of g u env 0 s] by simp
  qed
qed simp

lemma mb_convert_iff:
  assumes t: "wf_cbs (CBS_init inp n)" "cbs_bytes (CBS_init inp n) = text_bytes f us" "list_all (form_valid f) us"
    and est: "est + 1 < PTRDIFF_LIMIT"
  shows "mb_convert env f g inp n est = Some (data, k) \<Longrightarrow>
      list_all (form_valid g) us \<and> take k data = text_bytes g us @ [0] \<and> k = length (text_bytes g us) + 1 \<and>
      k \<le> length data \<and> int k \<le> MAX_INT"
    and "list_all (form_valid g) us \<Longrightarrow> length (text_bytes g us) \<le> est \<Longrightarrow> int (length (text_bytes g us)) < MAX_INT \<Longrightarrow>
      fst (CBB_init env (est + 1)) \<noteq> None \<Longrightarrow> mb_convert env f g inp n est \<noteq> None"
proof -
  have n: "size_add est 1 = est + 1" using est by (intro size_add_small) (simp add: PTRDIFF_LIMIT_def SIZE_LIMIT_def)
  let ?c = "\<lambda>s. and_then (write_text env g us s) (\<lambda>_. CBB_add_u8 env 0 0)"
  have eq: "mb_convert env f g inp n est =
    (case and_then (CBB_init env (est + 1)) (\<lambda>_ s. and_then (?c s) (\<lambda>_ s. CBB_finish env 0 True True s)) of
       (Some (Some data, Some k), _) \<Rightarrow> if k < 1 \<or> int k > MAX_INT then None else Some (data, k) | _ \<Rightarrow> None)"
    unfolding mb_convert_def n mb_transcode_eq [OF t] and_then_assoc ..
  show "list_all (form_valid g) us \<and> take k data = text_bytes g us @ [0] \<and> k = length (text_bytes g us) + 1 \<and>
      k \<le> length data \<and> int k \<le> MAX_INT" if r: "mb_convert env f g inp n est = Some (data, k)"
  proof -
    obtain s t u where s: "CBB_init env (est + 1) = (Some (), s)" and c: "?c s = (Some (), t)"
      and fin: "CBB_finish env 0 True True t = (Some (Some data, Some k), u)" and k: "int k \<le> MAX_INT"
      using r unfolding eq by (auto simp: and_then_Some split: option.splits prod.splits if_splits)
    have v: "list_all (form_valid g) us"
      using c write_text_refuses [of g us env s] by (cases "list_all (form_valid g) us") (auto simp: and_then_Some)
    from one_string(1) [OF write_text_call [OF v] s est c fin] v k show ?thesis
      by (metis Suc_eq_plus1 length_append_singleton)
  qed
  assume v: "list_all (form_valid g) us" and len: "length (text_bytes g us) \<le> est" "int (length (text_bytes g us)) < MAX_INT"
    and i: "fst (CBB_init env (est + 1)) \<noteq> None"
  then obtain s where s: "CBB_init env (est + 1) = (Some (), s)" by (metis not_None_eq old.unit.exhaust prod.collapse)
  from one_string(2) [OF write_text_call [OF v, of env] s est] len(1) obtain t data u where
    "?c s = (Some (), t)" "CBB_finish env 0 True True t = (Some (Some data, Some (length (text_bytes g us @ [0]))), u)" by auto
  then show "mb_convert env f g inp n est \<noteq> None" unfolding eq s using len(2) by simp
qed

section \<open>The choice of the type\<close>

text \<open>The characters of a \<open>PrintableString\<close>, as the table of X.680 lists them; the code lets NUL through as well.\<close>

definition printable_character :: "nat \<Rightarrow> bool" where
  "printable_character n \<longleftrightarrow> n < 128 \<and> char_of n \<in>
     set ''ABCDEFGHIJKLMNOPQRSTUVWXYZabcdefghijklmnopqrstuvwxyz0123456789 '()+,-./:=?''"

lemma is_printable_iff: "is_printable u \<longleftrightarrow> u = 0 \<or> printable_character (unat u)"
proof (cases "unat u < 128")
  case True
  have "\<forall>n \<in> set [0..<128]. is_printable (of_nat n) = (n = 0 \<or> printable_character n)" by code_simp
  then have "is_printable (of_nat (unat u)) = (unat u = 0 \<or> printable_character (unat u))" using True by (auto simp del: of_nat_unat)
  then show ?thesis by (simp add: unat_eq_zero)
next
  case False
  then show ?thesis by (auto simp: is_printable_def printable_character_def word_less_nat_alt)
qed

text \<open>Which of the type bits can hold a text; other bits are not restricted by the text.\<close>

definition can_hold :: "nat \<Rightarrow> u32 list \<Rightarrow> bool" where
  "can_hold i us =
     ((i = 1 \<longrightarrow> list_all (\<lambda>u. u = 0 \<or> printable_character (unat u)) us) \<and> (i = 4 \<longrightarrow> list_all (\<lambda>u. u \<le> 127) us) \<and>
      (i = 2 \<longrightarrow> list_all (\<lambda>u. u \<le> 0xff) us) \<and> (i = 11 \<longrightarrow> list_all (\<lambda>u. u \<le> 0xffff) us))"

definition type_bits :: "(nat \<times> int) list" where
  "type_bits = [(1, V_ASN1_PRINTABLESTRING), (4, V_ASN1_IA5STRING), (2, V_ASN1_T61STRING), (11, V_ASN1_BMPSTRING),
     (8, V_ASN1_UNIVERSALSTRING)]"

text \<open>The first type of the list whose bit is set and which can hold the text, else a UTF-8 string.\<close>

definition best_type :: "u64 \<Rightarrow> u32 list \<Rightarrow> int" where
  "best_type types us =
     (case find (\<lambda>(i, _). bit types i \<and> can_hold i us) type_bits of
        None \<Rightarrow> V_ASN1_UTF8STRING | Some (_, t) \<Rightarrow> t)"

definition type_form :: "int \<Rightarrow> mb_form" where
  "type_form t =
     (if t = V_ASN1_BMPSTRING then Form_BMP else if t = V_ASN1_UNIVERSALSTRING then Form_UNIV
      else if t = V_ASN1_UTF8STRING then Form_UTF8 else Form_ASC)"

lemma type_bit_values:
  "B_ASN1_PRINTABLESTRING = 2 ^ 1" "B_ASN1_T61STRING = 2 ^ 2" "B_ASN1_IA5STRING = 2 ^ 4" "B_ASN1_UNIVERSALSTRING = 2 ^ 8"
  "B_ASN1_BMPSTRING = 2 ^ 11"
  by (simp_all add: B_ASN1_PRINTABLESTRING_def B_ASN1_T61STRING_def B_ASN1_IA5STRING_def B_ASN1_UNIVERSALSTRING_def
      B_ASN1_BMPSTRING_def)

lemma and_power_bit: "(w :: u64) AND 2 ^ k \<noteq> 0 \<longleftrightarrow> bit w k"
  using and_exp_eq_0_iff_not_bit [of w k] by simp

definition clear_bit :: "nat \<Rightarrow> bool \<Rightarrow> u64 \<Rightarrow> u64" where
  "clear_bit k c w = (if w AND 2 ^ k \<noteq> 0 \<and> c then w AND NOT (2 ^ k) else w)"

lemma bit_clear: "bit (clear_bit k c w) i \<longleftrightarrow> bit w i \<and> (i = k \<longrightarrow> \<not> c)"
  unfolding clear_bit_def and_power_bit by (auto simp: bit_simps dest: bit_imp_le_length)

lemma mb_filter_bits:
  "mb_filter u types =
     clear_bit 11 (u > 0xffff) (clear_bit 2 (u > 0xff) (clear_bit 4 (u > 127) (clear_bit 1 (\<not> is_printable u) types)))"
  by (simp only: mb_filter_def Let_def clear_bit_def type_bit_values)

lemma bit_mb_filter: "bit (mb_filter u types) i \<longleftrightarrow> bit types i \<and> can_hold i [u]"
  unfolding mb_filter_bits bit_clear by (auto simp: can_hold_def is_printable_iff not_le)

lemma can_hold_Cons: "can_hold i (u # us) \<longleftrightarrow> can_hold i [u] \<and> can_hold i us"
  by (auto simp: can_hold_def)

lemma bit_fold_mb_filter: "bit (fold mb_filter us types) i \<longleftrightarrow> bit types i \<and> can_hold i us"
proof (induction us arbitrary: types)
  case (Cons u us)
  then show ?case using can_hold_Cons [of i u us] by (auto simp: bit_mb_filter)
qed (simp add: can_hold_def)

lemma mb_choose_type:
  "mb_choose (fold mb_filter us types) k l =
     (best_type types us, type_form (best_type types us),
      case type_form (best_type types us) of Form_ASC \<Rightarrow> k | Form_BMP \<Rightarrow> size_mul 2 k | Form_UNIV \<Rightarrow> size_mul 4 k | Form_UTF8 \<Rightarrow> l)"
proof -
  define P where "P i = (bit types i \<and> can_hold i us)" for i
  note P = P_def [symmetric]
  have c: "mb_choose (fold mb_filter us types) k l =
    (if P 1 then (V_ASN1_PRINTABLESTRING, Form_ASC, k) else if P 4 then (V_ASN1_IA5STRING, Form_ASC, k)
     else if P 2 then (V_ASN1_T61STRING, Form_ASC, k) else if P 11 then (V_ASN1_BMPSTRING, Form_BMP, size_mul 2 k)
     else if P 8 then (V_ASN1_UNIVERSALSTRING, Form_UNIV, size_mul 4 k) else (V_ASN1_UTF8STRING, Form_UTF8, l))"
    unfolding mb_choose_def type_bit_values and_power_bit bit_fold_mb_filter P ..
  have b: "best_type types us = (if P 1 then V_ASN1_PRINTABLESTRING else if P 4 then V_ASN1_IA5STRING
     else if P 2 then V_ASN1_T61STRING else if P 11 then V_ASN1_BMPSTRING
     else if P 8 then V_ASN1_UNIVERSALSTRING else V_ASN1_UTF8STRING)"
    unfolding best_type_def type_bits_def P by simp
  have f: "type_form V_ASN1_PRINTABLESTRING = Form_ASC" "type_form V_ASN1_IA5STRING = Form_ASC" "type_form V_ASN1_T61STRING = Form_ASC"
    "type_form V_ASN1_BMPSTRING = Form_BMP" "type_form V_ASN1_UNIVERSALSTRING = Form_UNIV" "type_form V_ASN1_UTF8STRING = Form_UTF8"
    by code_simp+
  show ?thesis unfolding b c by (simp add: f)
qed

lemma best_type_pos: "best_type types us \<noteq> - 1"
  by (simp add: best_type_def type_bits_def V_ASN1_BMPSTRING_def V_ASN1_UNIVERSALSTRING_def V_ASN1_UTF8STRING_def
      V_ASN1_PRINTABLESTRING_def V_ASN1_IA5STRING_def V_ASN1_T61STRING_def)

text \<open>The whole check: the input is a text of its form, permitted by the types and the sizes.\<close>

definition mb_accepts :: "bytes \<Rightarrow> int \<Rightarrow> u64 \<Rightarrow> int \<Rightarrow> int \<Rightarrow> mb_form \<Rightarrow> u32 list \<Rightarrow> bool" where
  "mb_accepts bs inform types minsize maxsize f us =
     (mb_form_of inform = Some f \<and> bs = text_bytes f us \<and> list_all (form_valid f) us \<and> \<not> starts_with_bom f us \<and>
      (\<exists>i. bit types i \<and> can_hold i us) \<and> (minsize > 0 \<longrightarrow> minsize \<le> int (length us)) \<and>
      (maxsize > 0 \<longrightarrow> int (length us) \<le> maxsize))"

definition default_types :: "u64 \<Rightarrow> u64" where
  "default_types types = (if types = 0 then DIRSTRING_TYPE else types)"

lemma default_types_some: "\<exists>i. bit (default_types types) i"
proof -
  have "default_types types \<noteq> 0"
    by (simp add: default_types_def DIRSTRING_TYPE_def B_ASN1_PRINTABLESTRING_def B_ASN1_T61STRING_def B_ASN1_BMPSTRING_def B_ASN1_UTF8STRING_def)
  then show ?thesis by (metis bit_eq_iff bit_0_eq bot_apply bot_bool_def)
qed

lemma mb_form_values [simp]:
  "mb_form_of MBSTRING_BMP = Some Form_BMP" "mb_form_of MBSTRING_UNIV = Some Form_UNIV"
  "mb_form_of MBSTRING_UTF8 = Some Form_UTF8" "mb_form_of MBSTRING_ASC = Some Form_ASC"
  by (simp_all add: mb_form_of_def MBSTRING_BMP_def MBSTRING_UNIV_def MBSTRING_UTF8_def MBSTRING_ASC_def MBSTRING_FLAG_def)

text \<open>The scan and the size checks as a whole: what an accepted text goes on with.\<close>

definition mb_checked :: "bytes \<Rightarrow> int \<Rightarrow> u64 \<Rightarrow> int \<Rightarrow> int \<Rightarrow> mb_form \<Rightarrow> (nat \<times> u64 \<times> nat) option" where
  "mb_checked inp n types minsize maxsize f =
     (case mb_scan f (CBS_init inp (size_of_int n)) 0 (default_types types) 0 of
        None \<Rightarrow> None
      | Some (k, t, l) \<Rightarrow> if (minsize > 0 \<and> k < nat minsize) \<or> (maxsize > 0 \<and> k > nat maxsize) then None else Some (k, t, l))"

lemma input_cbs:
  assumes "n \<le> length inp \<and> length inp < SIZE_LIMIT" and "int n < MAX_INT"
  shows "size_of_int (int n) = n" "wf_cbs (CBS_init inp n)" "cbs_bytes (CBS_init inp n) = take n inp"
  using assms by (simp_all add: size_of_int_def MAX_INT_def wf_cbs_def SIZE_LIMIT_def nat_mod_distrib)

lemma fold_filter_nonzero: "fold mb_filter us ts \<noteq> 0 \<longleftrightarrow> (\<exists>i. bit ts i \<and> can_hold i us)"
proof -
  have "w = 0 \<longleftrightarrow> (\<forall>i. \<not> bit w i)" for w :: u64 by (auto intro: bit_eqI)
  then show ?thesis unfolding bit_fold_mb_filter [symmetric] by blast
qed

lemma mb_checked_iff:
  assumes "n \<le> length inp \<and> length inp < SIZE_LIMIT" and "int n < MAX_INT" and "mb_form_of inform = Some f"
  shows "mb_checked inp (int n) types minsize maxsize f = Some r \<longleftrightarrow>
    (\<exists>us. mb_accepts (take n inp) inform (default_types types) minsize maxsize f us \<and>
      r = (length us, fold mb_filter us (default_types types), sum_list (map cbb_get_utf8_len us)))"
proof -
  note i = input_cbs [OF assms(1,2)]
  let ?ts = "default_types types"
  have e: "us = [] \<Longrightarrow> fold mb_filter us ?ts \<noteq> 0" for us
    using default_types_some [of types] by auto
  have "mb_scan f (CBS_init inp n) 0 ?ts 0 = Some r \<longleftrightarrow>
    (\<exists>us. take n inp = text_bytes f us \<and> list_all (form_valid f) us \<and> \<not> starts_with_bom f us \<and>
      (\<exists>i. bit ?ts i \<and> can_hold i us) \<and> r = (length us, fold mb_filter us ?ts, sum_list (map cbb_get_utf8_len us)))"
    unfolding mb_scan_iff [OF i(2)] i(3) fold_filter_nonzero [symmetric] using e by (simp, blast)
  then show ?thesis
    by (auto simp: mb_checked_def i(1) mb_accepts_def assms(3) not_less nat_le_iff le_nat_iff split: option.splits)
qed

text \<open>The string that is filled with an accepted text.\<close>

definition mb_store :: "mem_env \<Rightarrow> asn1_string option \<Rightarrow> bytes \<Rightarrow> int \<Rightarrow> mb_form \<Rightarrow> int \<Rightarrow> mb_form \<Rightarrow> nat \<Rightarrow> int \<times> mb_out" where
  "mb_store env target inp n f t g est =
     (case (case target of
              Some dest \<Rightarrow> Some ((if sdata dest \<noteq> None then dest\<lparr>slen := 0, sdata := None\<rparr> else dest)\<lparr>stype := t\<rparr>)
            | None \<Rightarrow> ASN1_STRING_type_new env t) of
        None \<Rightarrow> (- 1, Null_string)
      | Some dest \<Rightarrow>
          if f = g
          then let (ok, dest) = ASN1_STRING_set env dest (Some inp) n in (if ok then t else - 1, Live_string dest)
          else (case mb_convert env f g inp (size_of_int n) est of
                  None \<Rightarrow> (- 1, if target = None then Freed_string else Live_string dest)
                | Some (data, k) \<Rightarrow> (t, Live_string (dest\<lparr>slen := int k - 1, sdata := Some data\<rparr>))))"

lemma ncopy_eq:
  assumes "n \<noteq> - 1"
  shows "ASN1_mbstring_ncopy env out inp n inform types minsize maxsize =
    (case mb_form_of inform of None \<Rightarrow> (- 1, mb_unchanged out)
     | Some f \<Rightarrow>
     case mb_checked inp n types minsize maxsize f of None \<Rightarrow> (- 1, mb_unchanged out)
     | Some (k, ts, l) \<Rightarrow>
         case mb_choose ts k l of (t, g, est) \<Rightarrow>
         case out of None \<Rightarrow> (t, No_out) | Some target \<Rightarrow> mb_store env target inp n f t g est)"
proof (cases "mb_form_of inform")
  case None
  then show ?thesis by (simp add: ASN1_mbstring_ncopy_def Let_def)
next
  case f: (Some f)
  show ?thesis
  proof (cases "mb_scan f (CBS_init inp (size_of_int n)) 0 (default_types types) 0")
    case None
    then show ?thesis using assms f by (simp add: ASN1_mbstring_ncopy_def mb_checked_def default_types_def)
  next
    case (Some r)
    obtain k ts l where r: "r = (k, ts, l)" by (metis prod_cases3)
    obtain t g est where c: "mb_choose ts k l = (t, g, est)" by (metis prod_cases3)
    have sc: "mb_scan f (CBS_init inp (size_of_int n)) 0 (if types = 0 then DIRSTRING_TYPE else types) 0 = Some (k, ts, l)"
      using Some r by (simp only: default_types_def)
    define A where "A = (0 < minsize \<and> k < nat minsize)"
    define B where "B = (0 < maxsize \<and> nat maxsize < k)"
    note fold = A_def [symmetric] B_def [symmetric]
    show ?thesis
      unfolding ASN1_mbstring_ncopy_def mb_checked_def default_types_def Let_def mb_store_def if_not_P [OF assms] f sc option.case prod.case fold
      by (cases A; cases B; simp only: if_True if_False option.case prod.case c simp_thms)
  qed
qed

fun mb_estimate :: "mb_form \<Rightarrow> nat \<Rightarrow> nat \<Rightarrow> nat" where
  "mb_estimate Form_ASC k l = k"
| "mb_estimate Form_BMP k l = size_mul 2 k"
| "mb_estimate Form_UNIV k l = size_mul 4 k"
| "mb_estimate Form_UTF8 k l = l"

text \<open>The call as a function of the text that is accepted, if there is one.\<close>

lemma ncopy_accepts:
  assumes "n \<le> length inp \<and> length inp < SIZE_LIMIT" and "int n < MAX_INT" and "mb_accepts (take n inp) inform (default_types types) minsize maxsize f us"
  defines "t \<equiv> best_type (default_types types) us"
  shows "ASN1_mbstring_ncopy env out inp (int n) inform types minsize maxsize =
    (case out of None \<Rightarrow> (t, No_out)
     | Some target \<Rightarrow> mb_store env target inp (int n) f t (type_form t)
         (mb_estimate (type_form t) (length us) (sum_list (map cbb_get_utf8_len us))))"
proof -
  have f: "mb_form_of inform = Some f" using assms(3) by (simp add: mb_accepts_def)
  have c: "mb_checked inp (int n) types minsize maxsize f =
      Some (length us, fold mb_filter us (default_types types), sum_list (map cbb_get_utf8_len us))"
    using mb_checked_iff [OF assms(1,2) f] assms(3) by blast
  have e: "(case g of Form_ASC \<Rightarrow> k | Form_BMP \<Rightarrow> size_mul 2 k | Form_UNIV \<Rightarrow> size_mul 4 k | Form_UTF8 \<Rightarrow> l) = mb_estimate g k l" for g k l
    by (cases g) simp_all
  have "int n \<noteq> - 1" by simp
  note eq = ncopy_eq [OF this, of env out inp inform types minsize maxsize]
  show ?thesis unfolding eq f option.case c prod.case mb_choose_type t_def e ..
qed

lemma ncopy_rejects:
  assumes "n \<le> length inp \<and> length inp < SIZE_LIMIT" and "int n < MAX_INT" and "\<And>f us. \<not> mb_accepts (take n inp) inform (default_types types) minsize maxsize f us"
  shows "ASN1_mbstring_ncopy env out inp (int n) inform types minsize maxsize = (- 1, mb_unchanged out)"
proof (cases "mb_form_of inform")
  case (Some f)
  have "mb_checked inp (int n) types minsize maxsize f = None"
    using mb_checked_iff [OF assms(1,2) Some] assms(3) by (meson not_Some_eq)
  then show ?thesis using ncopy_eq [of "int n" env out inp inform types minsize maxsize] Some by simp
qed (simp add: ncopy_eq)

lemma form_valid_point: "form_valid f u \<Longrightarrow> unicode_character (unat u)"
  by (cases f) (auto simp: unicode_character_def surrogate_def noncharacter_def)

lemma best_type_cases:
  obtains "can_hold 1 us" "type_form (best_type ts us) = Form_ASC" | "can_hold 4 us" "type_form (best_type ts us) = Form_ASC"
  | "can_hold 2 us" "type_form (best_type ts us) = Form_ASC" | "can_hold 11 us" "type_form (best_type ts us) = Form_BMP"
  | "type_form (best_type ts us) = Form_UNIV" | "type_form (best_type ts us) = Form_UTF8"
proof -
  define P where "P i = (bit ts i \<and> can_hold i us)" for i
  note fold = P_def [symmetric]
  have b: "best_type ts us = (if P 1 then V_ASN1_PRINTABLESTRING else if P 4 then V_ASN1_IA5STRING
     else if P 2 then V_ASN1_T61STRING else if P 11 then V_ASN1_BMPSTRING
     else if P 8 then V_ASN1_UNIVERSALSTRING else V_ASN1_UTF8STRING)"
    unfolding best_type_def type_bits_def fold by simp
  have f: "type_form V_ASN1_PRINTABLESTRING = Form_ASC" "type_form V_ASN1_IA5STRING = Form_ASC" "type_form V_ASN1_T61STRING = Form_ASC"
    "type_form V_ASN1_BMPSTRING = Form_BMP" "type_form V_ASN1_UNIVERSALSTRING = Form_UNIV" "type_form V_ASN1_UTF8STRING = Form_UTF8"
    by code_simp+
  show thesis
    by (cases "P 1"; cases "P 4"; cases "P 2"; cases "P 11"; cases "P 8") (use that f in \<open>simp_all add: b P_def\<close>)
qed

lemma best_type_holds:
  assumes "list_all (form_valid f) us"
  shows "list_all (form_valid (type_form (best_type ts us))) us"
proof -
  have v: "list_all (\<lambda>u. unicode_character (unat u)) us" using assms form_valid_point by (auto simp: list_all_iff)
  have p: "unat u < 256" if "u = 0 \<or> printable_character (unat u)" for u :: u32
    using that by (auto simp: printable_character_def)
  show ?thesis
    by (rule best_type_cases [of us ts])
      (use v p in \<open>auto simp: can_hold_def list_all_iff word_le_nat_alt\<close>)
qed

lemma text_length: "length us \<le> length (text_bytes f us)"
proof (induction us)
  case (Cons u us)
  moreover have "1 \<le> length (form_enc f u)" using form.enc_length [of f u] by linarith
  ultimately show ?case by simp
qed simp

lemma utf8_lens: "sum_list (map cbb_get_utf8_len us) \<le> 4 * length us"
  by (induction us) (simp_all add: cbb_get_utf8_len_def)

lemma estimate:
  assumes "list_all (form_valid g) us" and "int (length us) < MAX_INT"
  shows "mb_estimate g (length us) (sum_list (map cbb_get_utf8_len us)) = length (text_bytes g us) \<and>
    length (text_bytes g us) \<le> 4 * length us"
proof -
  have m: "size_mul k (length us) = k * length us" if "k \<le> 4" for k
  proof (rule size_mul_small)
    have "4 * length us < SIZE_LIMIT" using assms(2) by (simp add: SIZE_LIMIT_def MAX_INT_def)
    with mult_le_mono1 [OF that] show "k * length us < SIZE_LIMIT" by (rule le_less_trans)
  qed
  have "length (text_bytes Form_ASC us) = length us" "length (text_bytes Form_BMP us) = 2 * length us"
    "length (text_bytes Form_UNIV us) = 4 * length us" by (induction us) simp_all
  moreover have "list_all (form_valid Form_UTF8) us \<Longrightarrow> sum_list (map cbb_get_utf8_len us) = length (text_bytes Form_UTF8 us)"
    by (induction us) (simp_all add: utf8_length is_valid_code_point_iff)
  ultimately show ?thesis using assms(1) utf8_lens [of us] by (cases g) (simp_all add: m)
qed

lemma accepted:
  assumes "n \<le> length inp \<and> length inp < SIZE_LIMIT" and "int n < MAX_INT"
    and "mb_accepts (take n inp) inform ts minsize maxsize f us"
  defines "g \<equiv> type_form (best_type ts us)"
  defines "est \<equiv> mb_estimate g (length us) (sum_list (map cbb_get_utf8_len us))"
  shows "cbs_bytes (CBS_init inp n) = text_bytes f us" "list_all (form_valid f) us" "list_all (form_valid g) us"
    "est = length (text_bytes g us)" "est + 1 < PTRDIFF_LIMIT" "length us \<le> n"
proof -
  show t: "cbs_bytes (CBS_init inp n) = text_bytes f us" and v: "list_all (form_valid f) us"
    using assms(3) input_cbs(3) [OF assms(1,2)] by (simp_all add: mb_accepts_def)
  show g: "list_all (form_valid g) us" unfolding g_def by (rule best_type_holds [OF v])
  have "length (text_bytes f us) = n" using t assms(1) by (simp add: input_cbs(3) [OF assms(1,2)] flip: t)
  then show k: "length us \<le> n" using text_length [of us f] by simp
  then have "int (length us) < MAX_INT" using assms(2) by simp
  from estimate [OF g this] k assms(2) show "est = length (text_bytes g us)" "est + 1 < PTRDIFF_LIMIT"
    by (simp_all add: est_def PTRDIFF_LIMIT_def MAX_INT_def)
qed

text \<open>With an allocator that does not run out, an accepted text is stored.\<close>

lemma roomy_init: "n < 2 ^ 40 \<Longrightarrow> fst (CBB_init roomy_env (Suc n)) = Some ()"
  by (simp add: CBB_init_def cbb_init_def roomy_malloc PTRDIFF_LIMIT_def OPENSSL_MALLOC_PREFIX_def sizeof_cbb_buffer_def)

lemma roomy_set:
  assumes "sdata s = None" and "0 \<le> n" and "n < MAX_INT"
  shows "fst (ASN1_STRING_set roomy_env s (Some d) n)"
  using assms by (simp add: ASN1_STRING_set_def roomy_malloc PTRDIFF_LIMIT_def OPENSSL_MALLOC_PREFIX_def MAX_INT_def nat_less_iff)

lemma ncopy_succeeds:
  assumes "n \<le> length inp \<and> length inp < SIZE_LIMIT" and "int n < MAX_INT div 4"
    and a: "mb_accepts (take n inp) inform (default_types types) minsize maxsize f us"
  shows "fst (ASN1_mbstring_ncopy roomy_env (Some None) inp (int n) inform types minsize maxsize) =
    best_type (default_types types) us"
proof -
  have n: "int n < MAX_INT" using assms(2) by (simp add: MAX_INT_def)
  let ?t = "best_type (default_types types) us"
  let ?g = "type_form ?t"
  let ?est = "mb_estimate ?g (length us) (sum_list (map cbb_get_utf8_len us))"
  note acc = accepted [OF assms(1) n a] and inp = input_cbs [OF assms(1) n]
  have new: "ASN1_STRING_type_new roomy_env ?t = Some \<lparr>slen = 0, stype = ?t, sdata = None, sflags = 0\<rparr>"
    by (simp add: ASN1_STRING_type_new_def roomy_malloc PTRDIFF_LIMIT_def OPENSSL_MALLOC_PREFIX_def sizeof_ASN1_STRING_def)
  have k: "int (length us) < MAX_INT div 4" using acc(6) assms(2) by linarith
  then have "length (text_bytes ?g us) \<le> 4 * length us" using estimate [OF acc(3)] by (simp add: MAX_INT_def)
  then have len: "int (length (text_bytes ?g us)) < MAX_INT" "?est < 2 ^ 40"
    using k acc(4) by (simp_all add: MAX_INT_def)
  have "fst (CBB_init roomy_env (?est + 1)) \<noteq> None" using roomy_init [OF len(2)] by simp
  then obtain data m where "mb_convert roomy_env f ?g inp n ?est = Some (data, m)"
    using mb_convert_iff(2) [OF inp(2) acc(1,2,5,3) _ len(1), of roomy_env] acc(4) by auto
  moreover have "fst (ASN1_STRING_set roomy_env \<lparr>slen = 0, stype = ?t, sdata = None, sflags = 0\<rparr> (Some inp) (int n))"
    by (rule roomy_set) (use n in simp_all)
  ultimately have "fst (mb_store roomy_env None inp (int n) f ?t ?g ?est) = ?t"
    unfolding mb_store_def option.case new inp(1) by (auto split: prod.splits)
  then show ?thesis using ncopy_accepts [OF assms(1) n a, of roomy_env "Some None"] by simp
qed

lemma e_acute_accepted:
  "mb_accepts (take 2 [0xc3, 0xa9]) MBSTRING_UTF8 (default_types 0) 0 0 Form_UTF8 [0xe9]"
proof -
  have "take 2 [0xc3, 0xa9] = text_bytes Form_UTF8 [0xe9]" "list_all (form_valid Form_UTF8) [0xe9]"
    "\<not> starts_with_bom Form_UTF8 [0xe9]" "bit (default_types 0) 2 \<and> can_hold 2 [0xe9]"
    by code_simp+
  then show ?thesis unfolding mb_accepts_def mb_form_values
    by (intro conjI) (assumption | rule refl | blast | simp)+
qed

text \<open>
  Two facts that the code does not intend. \<open>strchr\<close> also finds the zero byte at the end of its
  string, so that NUL counts as printable; and a conversion that runs out of memory after the
  string was allocated frees it but leaves \<open>*out\<close> pointing to it.
\<close>

lemma nul_is_printable: "is_printable 0"
  by (simp add: is_printable_def Let_def)

lemma store_leaves_freed:
  "f \<noteq> g \<Longrightarrow> mb_convert env f g inp (size_of_int n) est = None \<Longrightarrow> ASN1_STRING_type_new env t \<noteq> None \<Longrightarrow>
   mb_store env None inp n f t g est = (- 1, Freed_string)"
  by (auto simp: mb_store_def)

section \<open>Properties\<close>

text \<open>C29: the type of a string. With a null \<open>out\<close> and the length of the input given (below \<open>INT_MAX\<close>),
  \<open>ASN1_mbstring_ncopy\<close> fails exactly when the input is not a text of its encoding, begins with a
  byte-order mark, cannot be held by any permitted type or breaks a size limit; otherwise it returns
  the first of PrintableString, IA5String, T61String, BMPString, UniversalString that is permitted and
  holds every code point, and UTF8String when none does. A PrintableString holds the letters, the
  digits, space and the punctuation of the table of X.680, and here also NUL, which the code takes for
  a character of that table by mistake.\<close>

theorem mbstring_type:
  assumes "n \<le> length inp \<and> length inp < SIZE_LIMIT" and "int n < MAX_INT"
  shows "fst (ASN1_mbstring_ncopy env None inp (int n) inform types minsize maxsize) = t \<and> t \<noteq> - 1 \<longleftrightarrow>
    (\<exists>f us. mb_accepts (take n inp) inform (default_types types) minsize maxsize f us \<and> t = best_type (default_types types) us)"
proof (cases "\<exists>f us. mb_accepts (take n inp) inform (default_types types) minsize maxsize f us")
  case True
  then obtain f us where a: "mb_accepts (take n inp) inform (default_types types) minsize maxsize f us" by blast
  have same: "best_type (default_types types) us' = best_type (default_types types) us"
    if "mb_accepts (take n inp) inform (default_types types) minsize maxsize f' us'" for f' us'
    using ncopy_accepts [OF assms a, of env None] ncopy_accepts [OF assms that, of env None] by simp
  have b: "fst (ASN1_mbstring_ncopy env None inp (int n) inform types minsize maxsize) = best_type (default_types types) us"
    using ncopy_accepts [OF assms a, of env None] by simp
  show ?thesis unfolding b using a same best_type_pos by metis
next
  case False
  then have "fst (ASN1_mbstring_ncopy env None inp (int n) inform types minsize maxsize) = - 1"
    using ncopy_rejects [OF assms, of inform types minsize maxsize env None] by simp
  then show ?thesis using False by metis
qed

theorem mbstring_type_witness:
  "fst (ASN1_mbstring_ncopy roomy_env None [0xc3, 0xa9] (int 2) MBSTRING_UTF8 0 0 0) = V_ASN1_T61STRING"
proof -
  have s: "2 \<le> length [0xc3, 0xa9 :: u8] \<and> length [0xc3, 0xa9 :: u8] < SIZE_LIMIT" "int 2 < MAX_INT" by code_simp+
  note e_acute_accepted
  moreover have "best_type (default_types 0) [0xe9] = V_ASN1_T61STRING" by code_simp
  ultimately show ?thesis using mbstring_type [OF s, of roomy_env MBSTRING_UTF8 0 0 0 V_ASN1_T61STRING] by metis
qed

text \<open>C30: the contents of the string. When the call succeeds, \<open>*out\<close> is a well-formed string of the
  returned type, whose contents are the code points of the input, re-encoded for that type, and
  are followed by a zero byte.\<close>

theorem mbstring_content:
  assumes "n \<le> length inp \<and> length inp < SIZE_LIMIT" and "int n < MAX_INT" and "target = None \<or> wf_string (the target)"
    and "ASN1_mbstring_ncopy env (Some target) inp (int n) inform types minsize maxsize = (t, r)" and "t \<noteq> - 1"
  shows "\<exists>f us s. mb_accepts (take n inp) inform (default_types types) minsize maxsize f us \<and>
    t = best_type (default_types types) us \<and> r = Live_string s \<and> stype s = t \<and> wf_string s \<and>
    string_bytes s = text_bytes (type_form t) us \<and> list_all (form_valid (type_form t)) us \<and> the (sdata s) ! nat (slen s) = 0"
proof -
  obtain f us where a: "mb_accepts (take n inp) inform (default_types types) minsize maxsize f us"
    using ncopy_rejects [OF assms(1,2), of inform types minsize maxsize env "Some target"] assms(4,5) by auto
  let ?t = "best_type (default_types types) us"
  let ?g = "type_form ?t"
  let ?est = "mb_estimate ?g (length us) (sum_list (map cbb_get_utf8_len us))"
  note acc = accepted [OF assms(1,2) a] and inp = input_cbs [OF assms(1,2)]
  have st: "mb_store env target inp (int n) f ?t ?g ?est = (t, r)" using ncopy_accepts [OF assms(1,2) a, of env "Some target"] assms(4) by simp
  obtain dest where dest: "(case target of Some dest \<Rightarrow> Some ((if sdata dest \<noteq> None then dest\<lparr>slen := 0, sdata := None\<rparr> else dest)\<lparr>stype := ?t\<rparr>)
      | None \<Rightarrow> ASN1_STRING_type_new env ?t) = Some dest"
    using st assms(5) unfolding mb_store_def by (auto split: option.splits)
  have dw: "wf_string dest" "stype dest = ?t" "sdata dest = None"
    using dest assms(3) by (auto simp: ASN1_STRING_type_new_def wf_string_def MAX_INT_def split: option.splits if_splits)
  show ?thesis
  proof (cases "f = ?g")
    case True
    obtain ok s where s: "ASN1_STRING_set env dest (Some inp) (int n) = (ok, s)" by fastforce
    have ok: "ok" "t = ?t" "r = Live_string s"
      using st assms(5) s True dest unfolding mb_store_def by (auto split: if_splits)
    have "wf_string s" "stype s = ?t" "slen s = int n" "string_bytes s = take n inp" "the (sdata s) ! n = 0"
      using ASN1_STRING_set_effect [OF dw(1) _ assms(2) s] assms(1) dw(2) ok(1) by auto
    then show ?thesis using a ok acc inp True by (intro exI [of _ f] exI [of _ us] exI [of _ s]) simp
  next
    case False
    obtain data k where c: "mb_convert env f ?g inp n ?est = Some (data, k)"
      using st assms(5) False dest inp(1) unfolding mb_store_def by (auto split: option.splits)
    then have r: "t = ?t" "r = Live_string (dest\<lparr>slen := int k - 1, sdata := Some data\<rparr>)"
      using st False dest inp(1) unfolding mb_store_def by auto
    have o: "take k data = text_bytes ?g us @ [0]"
      "k = length (text_bytes ?g us) + 1" "k \<le> length data" "int k \<le> MAX_INT"
      using mb_convert_iff(1) [OF inp(2) acc(1,2,5) c] by blast+
    have "take (length (text_bytes ?g us)) data = take (length (text_bytes ?g us)) (take k data)" using o(2) by simp
    then have b: "take (length (text_bytes ?g us)) data = text_bytes ?g us" by (simp add: o(1))
    have z: "data ! length (text_bytes ?g us) = 0"
    proof -
      have "take k data ! length (text_bytes ?g us) = 0" by (simp only: o(1) nth_append_length)
      then show ?thesis using nth_take [of "length (text_bytes ?g us)" k data] o(2) by (metis less_add_one)
    qed
    show ?thesis using a r acc(3) o b z dw(2)
      by (intro exI [of _ f] exI [of _ us] exI [of _ "dest\<lparr>slen := int k - 1, sdata := Some data\<rparr>"])
        (simp add: wf_string_def string_bytes_def)
  qed
qed

theorem mbstring_content_witness:
  "\<exists>f us s. ASN1_mbstring_ncopy roomy_env (Some None) [0xc3, 0xa9] (int 2) MBSTRING_UTF8 0 0 0 = (V_ASN1_T61STRING, Live_string s) \<and>
     text_bytes f us = [0xc3, 0xa9] \<and> string_bytes s = text_bytes Form_ASC us"
proof -
  have s: "2 \<le> length [0xc3, 0xa9 :: u8] \<and> length [0xc3, 0xa9 :: u8] < SIZE_LIMIT" "int 2 < MAX_INT" "int 2 < MAX_INT div 4"
    by code_simp+
  have b: "best_type (default_types 0) [0xe9] = V_ASN1_T61STRING" "type_form V_ASN1_T61STRING = Form_ASC"
    "V_ASN1_T61STRING \<noteq> - 1" by code_simp+
  obtain r where r: "ASN1_mbstring_ncopy roomy_env (Some None) [0xc3, 0xa9] (int 2) MBSTRING_UTF8 0 0 0 = (V_ASN1_T61STRING, r)"
    using ncopy_succeeds [OF s(1,3) e_acute_accepted] b(1) by (metis prod.collapse)
  obtain f us s where m: "mb_accepts (take 2 [0xc3, 0xa9]) MBSTRING_UTF8 (default_types 0) 0 0 f us" "r = Live_string s"
    "string_bytes s = text_bytes (type_form V_ASN1_T61STRING) us"
    using mbstring_content [OF s(1,2) _ r b(3)] by auto
  have "take 2 [0xc3, 0xa9] = text_bytes f us" using m(1) unfolding mb_accepts_def by blast
  then show ?thesis using r m(2,3) b(2) by (intro exI [of _ f] exI [of _ us] exI [of _ s]) simp
qed

end
