(* ===== verification/Constant_Time.thy ===== *)
theory Constant_Time
  imports Prelude
begin

text \<open>
  The branch-free comparisons and selections of \<open>crypto/internal.h\<close> on
  \<open>crypto_word_t\<close> (64 bits). \<open>value_barrier_w\<close> only restricts the compiler; it returns its
  argument. The \<open>ct\<close> lemmas replace every helper by the comparison it stands for.
\<close>

unbundle bit_operations_syntax

named_theorems ct \<open>the constant-time helpers as plain comparisons\<close>

definition value_barrier_w :: "u64 \<Rightarrow> u64" where
  "value_barrier_w a = a"

definition constant_time_msb_w :: "u64 \<Rightarrow> u64" where
  "constant_time_msb_w a = 0 - drop_bit (8 * 8 - 1) a"

definition constant_time_lt_w :: "u64 \<Rightarrow> u64 \<Rightarrow> u64" where
  "constant_time_lt_w a b = constant_time_msb_w (a XOR ((a XOR b) OR ((a - b) XOR a)))"

definition constant_time_lt_8 :: "u64 \<Rightarrow> u64 \<Rightarrow> u8" where
  "constant_time_lt_8 a b = ucast (constant_time_lt_w a b)"

definition constant_time_ge_w :: "u64 \<Rightarrow> u64 \<Rightarrow> u64" where
  "constant_time_ge_w a b = NOT (constant_time_lt_w a b)"

definition constant_time_ge_8 :: "u64 \<Rightarrow> u64 \<Rightarrow> u8" where
  "constant_time_ge_8 a b = ucast (constant_time_ge_w a b)"

definition constant_time_is_zero_w :: "u64 \<Rightarrow> u64" where
  "constant_time_is_zero_w a = constant_time_msb_w (NOT a AND (a - 1))"

definition constant_time_is_zero_8 :: "u64 \<Rightarrow> u8" where
  "constant_time_is_zero_8 a = ucast (constant_time_is_zero_w a)"

definition constant_time_eq_w :: "u64 \<Rightarrow> u64 \<Rightarrow> u64" where
  "constant_time_eq_w a b = constant_time_is_zero_w (a XOR b)"

definition constant_time_eq_8 :: "u64 \<Rightarrow> u64 \<Rightarrow> u8" where
  "constant_time_eq_8 a b = ucast (constant_time_eq_w a b)"

definition constant_time_eq_int :: "32 word \<Rightarrow> 32 word \<Rightarrow> u64" where
  "constant_time_eq_int a b = constant_time_eq_w (scast a) (scast b)"

definition constant_time_eq_int_8 :: "32 word \<Rightarrow> 32 word \<Rightarrow> u8" where
  "constant_time_eq_int_8 a b = constant_time_eq_8 (scast a) (scast b)"

definition constant_time_select_w :: "u64 \<Rightarrow> u64 \<Rightarrow> u64 \<Rightarrow> u64" where
  "constant_time_select_w m a b = (value_barrier_w m AND a) OR (value_barrier_w (NOT m) AND b)"

definition constant_time_select_8 :: "u8 \<Rightarrow> u8 \<Rightarrow> u8 \<Rightarrow> u8" where
  "constant_time_select_8 m a b = ucast (constant_time_select_w (ucast m) (ucast a) (ucast b))"

definition constant_time_select_int :: "u64 \<Rightarrow> 32 word \<Rightarrow> 32 word \<Rightarrow> 32 word" where
  "constant_time_select_int m a b = ucast (constant_time_select_w m (scast a) (scast b))"

section \<open>What the masks mean\<close>

lemma bit63: "bit (a :: u64) 63 \<longleftrightarrow> 2 ^ 63 \<le> unat a"
proof -
  have "unat a < 2 ^ 64" using unsigned_less [of a, where ?'a = nat] by simp
  then have "unat a div 2 ^ 63 = (if 2 ^ 63 \<le> unat a then 1 else 0)" by (auto simp: div_nat_eqI)
  then show ?thesis by (simp only: bit_unat) simp
qed

lemma constant_time_msb_w_eq [ct]: "constant_time_msb_w a = (if bit a 63 then - 1 else 0)"
proof -
  have "drop_bit 63 a = (if bit a 63 then 1 else 0)"
  proof (rule bit_word_eqI)
    fix n
    show "bit (drop_bit 63 a) n = bit (if bit a 63 then 1 else 0 :: u64) n"
      by (cases "n = 0") (auto simp: bit_simps bit_1_iff dest: bit_imp_le_length)
  qed
  then show ?thesis by (simp add: constant_time_msb_w_def)
qed

lemma constant_time_lt_w_eq [ct]: "constant_time_lt_w a b = (if a < b then - 1 else 0)"
proof -
  have lim: "unat a < 2 ^ 64" "unat b < 2 ^ 64"
    using unsigned_less [of b, where ?'a = nat] unsigned_less [of a, where ?'a = nat] by simp_all
  have "bit (a XOR ((a XOR b) OR ((a - b) XOR a))) 63 \<longleftrightarrow>
      (if bit a 63 = bit b 63 then bit (a - b) 63 else bit b 63)"
    by (auto simp: bit_simps)
  also have "\<dots> \<longleftrightarrow> unat a < unat b"
    using lim by (auto simp: bit63 unat_sub_if')
  finally show ?thesis by (simp add: constant_time_lt_w_def ct word_less_nat_alt)
qed

lemma constant_time_ge_w_eq [ct]: "constant_time_ge_w a b = (if b \<le> a then - 1 else 0)"
  by (auto simp: constant_time_ge_w_def ct)

lemma constant_time_is_zero_w_eq [ct]: "constant_time_is_zero_w a = (if a = 0 then - 1 else 0)"
proof -
  have "unat a < 2 ^ 64" using unsigned_less [of a, where ?'a = nat] by simp
  moreover have "unat a = 0 \<longleftrightarrow> a = 0" by (simp add: unat_eq_zero)
  moreover have "bit (NOT a AND (a - 1)) 63 \<longleftrightarrow> \<not> 2 ^ 63 \<le> unat a \<and> 2 ^ 63 \<le> unat (a - 1)"
    unfolding bit63 [symmetric] by (auto simp: bit_simps)
  ultimately have "bit (NOT a AND (a - 1)) 63 \<longleftrightarrow> a = 0"
    by (auto simp: unat_sub_if' [of a 1])
  then show ?thesis by (simp add: constant_time_is_zero_w_def ct)
qed

lemma constant_time_eq_w_eq [ct]: "constant_time_eq_w a b = (if a = b then - 1 else 0)"
  by (simp add: constant_time_eq_w_def ct xor_eq_0_word)

lemma ucast_minus_1: "ucast (- 1 :: u64) = (- 1 :: u8)"
  by (rule bit_word_eqI) (simp add: bit_simps)

lemma ucast_scast: "ucast (scast a :: u64) = (a :: 32 word)"
  by (rule bit_word_eqI) (auto simp: bit_simps)

lemma constant_time_8 [ct]:
  "constant_time_lt_8 a b = (if a < b then - 1 else 0)"
  "constant_time_ge_8 a b = (if b \<le> a then - 1 else 0)"
  "constant_time_is_zero_8 a = (if a = 0 then - 1 else 0)"
  "constant_time_eq_8 a b = (if a = b then - 1 else 0)"
  by (simp_all add: constant_time_lt_8_def constant_time_ge_8_def constant_time_is_zero_8_def
      constant_time_eq_8_def ct ucast_minus_1)

lemma scast_inj: "scast (a :: 32 word) = (scast b :: u64) \<longleftrightarrow> a = b"
  by (metis ucast_scast)

lemma constant_time_eq_int_eq [ct]:
  "constant_time_eq_int a b = (if a = b then - 1 else 0)"
  "constant_time_eq_int_8 a b = (if a = b then - 1 else 0)"
  by (simp_all add: constant_time_eq_int_def constant_time_eq_int_8_def ct scast_inj)

lemma constant_time_select_w_eq [ct]:
  "constant_time_select_w (if c then - 1 else 0) a b = (if c then a else b)"
  by (simp add: constant_time_select_w_def value_barrier_w_def)

lemma constant_time_select_8_eq [ct]:
  "constant_time_select_8 (if c then - 1 else 0) a b = (if c then a else b)"
proof -
  have "constant_time_select_8 m a b = (m AND a) OR (NOT m AND b)" for m
    by (rule bit_word_eqI)
      (auto simp: constant_time_select_8_def constant_time_select_w_def value_barrier_w_def bit_simps
        dest: bit_imp_le_length)
  then show ?thesis by simp
qed

lemma constant_time_select_int_eq [ct]:
  "constant_time_select_int (if c then - 1 else 0) a b = (if c then a else b)"
  by (simp add: constant_time_select_int_def constant_time_select_w_eq ucast_scast)

text \<open>C19: The branch-free helpers compute what their comments say: every comparison mask, of a whole
  word or of 8 bits (\<open>lt\<close>, \<open>ge\<close>, \<open>is_zero\<close>, \<open>eq\<close> and \<open>eq_int\<close>), is all ones exactly when the comparison
  of the unsigned (or \<open>int\<close>) values holds and zero otherwise, and a selection with a mask of ones or
  zeros is the conditional expression.\<close>

theorem constant_time_masks:
  "constant_time_lt_w a b = (if a < b then - 1 else 0) \<and> constant_time_lt_8 a b = (if a < b then - 1 else 0) \<and>
   constant_time_ge_w a b = (if a \<ge> b then - 1 else 0) \<and> constant_time_ge_8 a b = (if a \<ge> b then - 1 else 0) \<and>
   constant_time_is_zero_w a = (if a = 0 then - 1 else 0) \<and> constant_time_is_zero_8 a = (if a = 0 then - 1 else 0) \<and>
   constant_time_eq_w a b = (if a = b then - 1 else 0) \<and> constant_time_eq_8 a b = (if a = b then - 1 else 0) \<and>
   constant_time_eq_int i j = (if i = j then - 1 else 0) \<and> constant_time_eq_int_8 i j = (if i = j then - 1 else 0) \<and>
   constant_time_select_w (if p then - 1 else 0) x y = (if p then x else y) \<and>
   constant_time_select_8 (if p then - 1 else 0) u v = (if p then u else v) \<and>
   constant_time_select_int (if p then - 1 else 0) i j = (if p then i else j)"
  by (simp only: ct simp_thms)

end
