(* ===== verification/Base64.thy ===== *)
theory Base64
  imports Mem Constant_Time "HOL-Library.Monad_Syntax"
begin

text \<open>
  \<open>crypto/base64/base64.c\<close>: base64 in one call and as a stream of lines of 64 characters, and
  the streaming and one-shot decoders. An output buffer is the memory from the pointer to the
  end of its object; \<open>poke\<close> stores bytes at an offset and is \<^const>\<open>None\<close> when they do not
  fit, so that a function that returns \<^const>\<open>None\<close> has written outside the buffer it was
  given. An input is the memory behind the pointer, with the length argument beside it.
\<close>

unbundle bit_operations_syntax

definition poke :: "bytes \<Rightarrow> nat \<Rightarrow> bytes \<Rightarrow> bytes option" where
  "poke mem i bs =
     (if i + length bs \<le> length mem then Some (take i mem @ bs @ drop (i + length bs) mem) else None)"

definition INT_MAX :: nat where
  "INT_MAX = 2 ^ 31 - 1"

section \<open>Characters\<close>

definition constant_time_lt_args_8 :: "u8 \<Rightarrow> u8 \<Rightarrow> u8" where
  "constant_time_lt_args_8 a b = (let aw = ucast a; bw = ucast b in ucast (constant_time_msb_w (aw - bw)))"

definition constant_time_in_range_8 :: "u8 \<Rightarrow> u8 \<Rightarrow> u8 \<Rightarrow> u8" where
  "constant_time_in_range_8 a lo hi = (let a = a - lo in constant_time_lt_args_8 a (hi - lo + 1))"

definition conv_bin2ascii :: "u8 \<Rightarrow> u8" where
  "conv_bin2ascii a =
     (let a = a AND 0x3f;
          ret = constant_time_select_8 (constant_time_eq_8 (ucast a) 62) 43 47;
          ret = constant_time_select_8 (constant_time_lt_args_8 a 62) (a - 52 + 48) ret;
          ret = constant_time_select_8 (constant_time_lt_args_8 a 52) (a - 26 + 97) ret;
          ret = constant_time_select_8 (constant_time_lt_args_8 a 26) (a + 65) ret
      in ret)"

definition base64_ascii_to_bin :: "u8 \<Rightarrow> u8" where
  "base64_ascii_to_bin a =
     (let is_upper = constant_time_in_range_8 a 65 90;
          is_lower = constant_time_in_range_8 a 97 122;
          is_digit = constant_time_in_range_8 a 48 57;
          is_plus = constant_time_eq_8 (ucast a) 43;
          is_slash = constant_time_eq_8 (ucast a) 47;
          is_equals = constant_time_eq_8 (ucast a) 61;
          ret = 0xff;
          ret = constant_time_select_8 is_upper (a - 65) ret;
          ret = constant_time_select_8 is_lower (a - 97 + 26) ret;
          ret = constant_time_select_8 is_digit (a - 48 + 52) ret;
          ret = constant_time_select_8 is_plus 62 ret;
          ret = constant_time_select_8 is_slash 63 ret;
          ret = constant_time_select_8 is_equals 0 ret
      in ret)"

section \<open>Encoding\<close>

definition EVP_EncodedLength :: "nat \<Rightarrow> nat option" where
  "EVP_EncodedLength n =
     (if size_add n 2 < n then None
      else let n = size_add n 2 div 3
           in if size_mul n 4 div 4 \<noteq> n then None
              else let n = size_mul n 4
                   in if size_add n 1 < n then None else Some (size_add n 1))"

function encode_block_loop :: "bytes \<Rightarrow> nat \<Rightarrow> bytes \<Rightarrow> nat \<Rightarrow> nat \<Rightarrow> (nat \<times> bytes) option" where
  "encode_block_loop mem dst src remaining ret =
     (if remaining = 0 then do { mem \<leftarrow> poke mem dst [0]; Some (ret, mem) }
      else if 3 \<le> remaining
      then let l = push_bit 16 (ucast (src ! 0)) OR push_bit 8 (ucast (src ! 1)) OR ucast (src ! 2) :: u32
           in do {
             mem \<leftarrow> poke mem dst
               [conv_bin2ascii (ucast (drop_bit 18 l)), conv_bin2ascii (ucast (drop_bit 12 l)),
                conv_bin2ascii (ucast (drop_bit 6 l)), conv_bin2ascii (ucast l)];
             encode_block_loop mem (dst + 4) (drop 3 src) (remaining - 3) (size_add ret 4) }
      else let l = push_bit 16 (ucast (src ! 0)) :: u32;
               l = (if remaining = 2 then l OR push_bit 8 (ucast (src ! 1)) else l)
           in do {
             mem \<leftarrow> poke mem dst
               [conv_bin2ascii (ucast (drop_bit 18 l)), conv_bin2ascii (ucast (drop_bit 12 l)),
                if remaining = 1 then 61 else conv_bin2ascii (ucast (drop_bit 6 l)), 61];
             encode_block_loop mem (dst + 4) (drop 3 src) 0 (size_add ret 4) })"
  by pat_completeness auto
termination
  by (relation "measure (\<lambda>(mem, dst, src, remaining, ret). remaining)") auto

declare encode_block_loop.simps [simp del]

definition EVP_EncodeBlock :: "bytes \<Rightarrow> nat \<Rightarrow> bytes \<Rightarrow> nat \<Rightarrow> (nat \<times> bytes) option" where
  "EVP_EncodeBlock mem dst src src_len = encode_block_loop mem dst src src_len 0"

record evp_encode_ctx_st =
  data_used :: nat
  ctx_data :: bytes
  eof_seen :: bool
  error_encountered :: bool

definition EVP_EncodeInit :: evp_encode_ctx_st where
  "EVP_EncodeInit =
     \<lparr>data_used = 0, ctx_data = replicate 48 0, eof_seen = False, error_encountered = False\<rparr>"

text \<open>
  The loop over whole lines: the result is the output buffer with either \<^const>\<open>None\<close>, when
  the total length overflows and the function returns, or the rest of the input and the total.
\<close>

function encode_update_loop ::
  "bytes \<Rightarrow> nat \<Rightarrow> bytes \<Rightarrow> nat \<Rightarrow> nat \<Rightarrow> (bytes \<times> (bytes \<times> nat \<times> nat) option) option" where
  "encode_update_loop mem out inp in_len tot =
     (if 48 \<le> in_len
      then do {
        (encoded, mem) \<leftarrow> EVP_EncodeBlock mem out inp 48;
        let inp = drop 48 inp;
        let in_len = in_len - 48;
        let out = out + encoded;
        mem \<leftarrow> poke mem out [10];
        let out = out + 1;
        mem \<leftarrow> poke mem out [0];
        if size_add (size_add tot encoded) 1 < tot then Some (mem, None)
        else encode_update_loop mem out inp in_len (size_add tot (size_add encoded 1)) }
      else Some (mem, Some (inp, in_len, tot)))"
  by pat_completeness auto
termination
  by (relation "measure (\<lambda>(mem, out, inp, in_len, tot). in_len)") auto

declare encode_update_loop.simps [simp del]

text \<open>
  The result of an update is \<open>*out_len\<close>, the output buffer and the context.
  \<open>encode_update_rest\<close> is the function from the loop over whole lines to its end.
\<close>

definition encode_update_rest ::
  "evp_encode_ctx_st \<Rightarrow> bytes \<Rightarrow> nat \<Rightarrow> bytes \<Rightarrow> nat \<Rightarrow> nat \<Rightarrow> (nat \<times> bytes \<times> evp_encode_ctx_st) option" where
  "encode_update_rest ctx mem out inp in_len tot =
     do {
       (mem, rest) \<leftarrow> encode_update_loop mem out inp in_len tot;
       case rest of
         None \<Rightarrow> Some (0, mem, ctx)
       | Some (inp, in_len, tot) \<Rightarrow>
           do {
             data \<leftarrow> (if in_len \<noteq> 0 then poke (ctx_data ctx) 0 (take in_len inp) else Some (ctx_data ctx));
             Some (if tot > INT_MAX then 0 else tot, mem, ctx\<lparr>ctx_data := data, data_used := in_len\<rparr>) } }"

definition EVP_EncodeUpdate ::
  "evp_encode_ctx_st \<Rightarrow> bytes \<Rightarrow> bytes \<Rightarrow> nat \<Rightarrow> (nat \<times> bytes \<times> evp_encode_ctx_st) option" where
  "EVP_EncodeUpdate ctx mem inp in_len =
     (if in_len = 0 then Some (0, mem, ctx)
      else if 48 - data_used ctx > in_len
      then do {
        data \<leftarrow> poke (ctx_data ctx) (data_used ctx) (take in_len inp);
        Some (0, mem, ctx\<lparr>ctx_data := data, data_used := data_used ctx + in_len\<rparr>) }
      else if data_used ctx \<noteq> 0
      then do {
        let todo = 48 - data_used ctx;
        data \<leftarrow> poke (ctx_data ctx) (data_used ctx) (take todo inp);
        let inp = drop todo inp;
        let in_len = in_len - todo;
        (encoded, mem) \<leftarrow> EVP_EncodeBlock mem 0 data 48;
        let ctx = ctx\<lparr>ctx_data := data, data_used := 0\<rparr>;
        let out = encoded;
        mem \<leftarrow> poke mem out [10];
        let out = out + 1;
        mem \<leftarrow> poke mem out [0];
        encode_update_rest ctx mem out inp in_len (encoded + 1) }
      else encode_update_rest ctx mem 0 inp in_len 0)"

definition EVP_EncodeFinal ::
  "evp_encode_ctx_st \<Rightarrow> bytes \<Rightarrow> (nat \<times> bytes \<times> evp_encode_ctx_st) option" where
  "EVP_EncodeFinal ctx mem =
     (if data_used ctx = 0 then Some (0, mem, ctx)
      else do {
        (encoded, mem) \<leftarrow> EVP_EncodeBlock mem 0 (ctx_data ctx) (data_used ctx);
        mem \<leftarrow> poke mem encoded [10];
        let encoded = encoded + 1;
        mem \<leftarrow> poke mem encoded [0];
        Some (encoded, mem, ctx\<lparr>data_used := 0\<rparr>) })"

section \<open>Decoding\<close>

definition EVP_DecodedLength :: "nat \<Rightarrow> nat option" where
  "EVP_DecodedLength n = (if n mod 4 \<noteq> 0 then None else Some (n div 4 * 3))"

definition EVP_DecodeInit :: evp_encode_ctx_st where
  "EVP_DecodeInit =
     \<lparr>data_used = 0, ctx_data = replicate 48 0, eof_seen = False, error_encountered = False\<rparr>"

text \<open>The bytes stored to \<open>out\<close>; their number is \<open>*out_num_bytes\<close>. \<open>inp\<close> are the four characters.\<close>

definition base64_decode_quad :: "bytes \<Rightarrow> bytes option" where
  "base64_decode_quad inp =
     (let a = base64_ascii_to_bin (inp ! 0);
          b = base64_ascii_to_bin (inp ! 1);
          c = base64_ascii_to_bin (inp ! 2);
          d = base64_ascii_to_bin (inp ! 3)
      in if a = 0xff \<or> b = 0xff \<or> c = 0xff \<or> d = 0xff then None
         else
           let v = push_bit 18 (ucast a) OR push_bit 12 (ucast b) OR push_bit 6 (ucast c) OR ucast d :: u32;
               padding_pattern =
                 push_bit 3 (of_bool (inp ! 0 = 61)) OR push_bit 2 (of_bool (inp ! 1 = 61)) OR
                 push_bit 1 (of_bool (inp ! 2 = 61)) OR of_bool (inp ! 3 = 61) :: u32
           in if padding_pattern = 0 then Some [ucast (drop_bit 16 v), ucast (drop_bit 8 v), ucast v]
              else if padding_pattern = 1 then Some [ucast (drop_bit 16 v), ucast (drop_bit 8 v)]
              else if padding_pattern = 3 then Some [ucast (drop_bit 16 v)]
              else None)"

text \<open>
  The loop of \<open>EVP_DecodeUpdate\<close> over the remaining characters: the context, the output buffer,
  the position in it, which is also \<open>bytes_out\<close>, and whether the input was in error.
\<close>

fun decode_update_loop ::
  "evp_encode_ctx_st \<Rightarrow> bytes \<Rightarrow> nat \<Rightarrow> bytes \<Rightarrow> (evp_encode_ctx_st \<times> bytes \<times> nat \<times> bool) option" where
  "decode_update_loop ctx mem out [] = Some (ctx, mem, out, True)"
| "decode_update_loop ctx mem out (c # cs) =
     (if c = 32 \<or> c = 9 \<or> c = 13 \<or> c = 10 then decode_update_loop ctx mem out cs
      else if eof_seen ctx then Some (ctx\<lparr>error_encountered := True\<rparr>, mem, out, False)
      else do {
        data \<leftarrow> poke (ctx_data ctx) (data_used ctx) [c];
        let ctx = ctx\<lparr>ctx_data := data, data_used := data_used ctx + 1\<rparr>;
        if data_used ctx = 4
        then (case base64_decode_quad (ctx_data ctx) of
                None \<Rightarrow> Some (ctx\<lparr>error_encountered := True\<rparr>, mem, out, False)
              | Some bs \<Rightarrow>
                  do {
                    mem \<leftarrow> poke mem out bs;
                    let ctx = ctx\<lparr>data_used := 0\<rparr>;
                    let ctx = (if length bs < 3 then ctx\<lparr>eof_seen := True\<rparr> else ctx);
                    decode_update_loop ctx mem (out + length bs) cs })
        else decode_update_loop ctx mem out cs })"

text \<open>The result is the return value, \<open>*out_len\<close>, the output buffer and the context.\<close>

definition EVP_DecodeUpdate ::
  "evp_encode_ctx_st \<Rightarrow> bytes \<Rightarrow> bytes \<Rightarrow> nat \<Rightarrow> (int \<times> nat \<times> bytes \<times> evp_encode_ctx_st) option" where
  "EVP_DecodeUpdate ctx mem inp in_len =
     (if error_encountered ctx then Some (- 1, 0, mem, ctx)
      else do {
        (ctx, mem, bytes_out, ok) \<leftarrow> decode_update_loop ctx mem 0 (take in_len inp);
        if \<not> ok then Some (- 1, 0, mem, ctx)
        else if bytes_out > INT_MAX then Some (- 1, 0, mem, ctx\<lparr>error_encountered := True\<rparr>)
        else Some (if eof_seen ctx then 0 else 1, bytes_out, mem, ctx) })"

definition EVP_DecodeFinal :: "evp_encode_ctx_st \<Rightarrow> int" where
  "EVP_DecodeFinal ctx = (if error_encountered ctx \<or> data_used ctx \<noteq> 0 then - 1 else 1)"

text \<open>
  The loop of \<open>EVP_DecodeBase64\<close>: \<open>i\<close> is the position in the input, the result is \<^const>\<open>None\<close>
  inside the outer \<^const>\<open>Some\<close> when the function returns 0.
\<close>

function decode_base64_loop :: "bytes \<Rightarrow> nat \<Rightarrow> bytes \<Rightarrow> nat \<Rightarrow> nat \<Rightarrow> (nat option \<times> bytes) option" where
  "decode_base64_loop mem out inp in_len i =
     (if i < in_len
      then (case base64_decode_quad (drop i inp) of
              None \<Rightarrow> Some (None, mem)
            | Some bs \<Rightarrow>
                do {
                  mem \<leftarrow> poke mem out bs;
                  if length bs \<noteq> 3 \<and> i \<noteq> in_len - 4 then Some (None, mem)
                  else decode_base64_loop mem (out + length bs) inp in_len (i + 4) })
      else Some (Some out, mem))"
  by pat_completeness auto
termination
  by (relation "measure (\<lambda>(mem, out, inp, in_len, i). in_len - i)") auto

declare decode_base64_loop.simps [simp del]

text \<open>\<^const>\<open>None\<close> inside the outer \<^const>\<open>Some\<close> is the return value 0; otherwise \<open>*out_len\<close>.\<close>

definition EVP_DecodeBase64 :: "bytes \<Rightarrow> nat \<Rightarrow> bytes \<Rightarrow> nat \<Rightarrow> (nat option \<times> bytes) option" where
  "EVP_DecodeBase64 mem max_out inp in_len =
     (if in_len mod 4 \<noteq> 0 then Some (None, mem)
      else case EVP_DecodedLength in_len of
             None \<Rightarrow> Some (None, mem)
           | Some max_len \<Rightarrow>
               if max_out < max_len then Some (None, mem)
               else decode_base64_loop mem 0 inp in_len 0)"

fun decode_trim_front :: "bytes \<Rightarrow> nat \<Rightarrow> bytes \<times> nat" where
  "decode_trim_front src 0 = (src, 0)"
| "decode_trim_front src (Suc n) =
     (if src ! 0 \<noteq> 32 \<and> src ! 0 \<noteq> 9 then (src, Suc n) else decode_trim_front (drop 1 src) n)"

fun decode_trim_back :: "bytes \<Rightarrow> nat \<Rightarrow> nat" where
  "decode_trim_back src 0 = 0"
| "decode_trim_back src (Suc n) =
     (if src ! n = 32 \<or> src ! n = 9 \<or> src ! n = 13 \<or> src ! n = 10 then decode_trim_back src n else Suc n)"

definition EVP_DecodeBlock :: "bytes \<Rightarrow> bytes \<Rightarrow> nat \<Rightarrow> (int \<times> bytes) option" where
  "EVP_DecodeBlock mem src src_len =
     (let (src, src_len) = decode_trim_front src src_len;
          src_len = decode_trim_back src src_len
      in case EVP_DecodedLength src_len of
           None \<Rightarrow> Some (- 1, mem)
         | Some dst_len \<Rightarrow>
             if dst_len > INT_MAX then Some (- 1, mem)
             else do {
               (r, mem) \<leftarrow> EVP_DecodeBase64 mem dst_len src src_len;
               case r of
                 None \<Rightarrow> Some (- 1, mem)
               | Some dst_len \<Rightarrow>
                   do {
                     let pad = (if dst_len mod 3 = 0 then 0 else 3 - dst_len mod 3);
                     mem \<leftarrow> poke mem dst_len (replicate pad 0);
                     Some (int (dst_len + pad), mem) } })"

end
