(* ===== verification/Base64_Spec.thy ===== *)
theory Base64_Spec
  imports Base64
begin

text \<open>
  What base64 promises: \<open>b64\<close> is the encoding of RFC 4648, \<open>EVP_EncodeBlock\<close> writes it,
  the streaming encoder cuts its input into lines of 48 bytes whatever the chunks it was given,
  and both decoders read back what the encoders write.
\<close>

unbundle bit_operations_syntax

section \<open>The alphabet\<close>

text \<open>\<open>b64\<close> is the encoding of RFC 4648 over numbers.\<close>

definition b64_alphabet :: bytes where
  "b64_alphabet =
     [65, 66, 67, 68, 69, 70, 71, 72, 73, 74, 75, 76, 77, 78, 79, 80, 81, 82, 83, 84, 85, 86,
     87, 88, 89, 90, 97, 98, 99, 100, 101, 102, 103, 104, 105, 106, 107, 108, 109, 110,
     111, 112, 113, 114, 115, 116, 117, 118, 119, 120, 121, 122, 48, 49, 50, 51, 52, 53,
     54, 55, 56, 57, 43, 47]"

definition b64_char :: "nat \<Rightarrow> u8" where
  "b64_char n = b64_alphabet ! n"

fun b64 :: "bytes \<Rightarrow> bytes" where
  "b64 [] = []"
| "b64 [a] = [b64_char (unat a div 4), b64_char (unat a mod 4 * 16), 61, 61]"
| "b64 [a, b] =
     [b64_char (unat a div 4), b64_char (unat a mod 4 * 16 + unat b div 16), b64_char (unat b mod 16 * 4), 61]"
| "b64 (a # b # c # bs) =
     [b64_char (unat a div 4), b64_char (unat a mod 4 * 16 + unat b div 16),
      b64_char (unat b mod 16 * 4 + unat c div 64), b64_char (unat c mod 64)] @ b64 bs"

lemma constant_time_lt_args_8_eq [ct]: "constant_time_lt_args_8 a b = (if a < b then - 1 else 0)"
proof -
  have "bit (ucast a - ucast b :: u64) 63 \<longleftrightarrow> unat a < unat b"
    unfolding bit63 using unat_u8_less [of a] unat_u8_less [of b]
    by (auto simp: unat_sub_if' unat_ucast_up simp del: unat_u8_less)
  then show ?thesis by (simp add: constant_time_lt_args_8_def ct ucast_minus_1 word_less_nat_alt)
qed

lemma constant_time_in_range_8_eq [ct]:
  assumes "unat lo \<le> unat hi" and "unat hi - unat lo < 255"
  shows "constant_time_in_range_8 a lo hi = (if lo \<le> a \<and> a \<le> hi then - 1 else 0)"
proof -
  have "unat (hi - lo + 1) = unat hi - unat lo + 1"
    using assms by (simp add: unat_word_ariths(1) unat_sub_if')
  then have "a - lo < hi - lo + 1 \<longleftrightarrow> lo \<le> a \<and> a \<le> hi"
    using assms unat_u8_less [of a] unat_u8_less [of hi] unfolding word_less_nat_alt word_le_nat_alt
    by (auto simp: unat_sub_if' word_le_nat_alt simp del: unat_u8_less)
  then show ?thesis by (simp add: constant_time_in_range_8_def ct)
qed

lemma unat_and_3f: "unat (b AND 0x3f :: 'a::len word) = unat b mod 64"
  using unat_take [of 6 b] by (simp add: mask_eq_exp_minus_1 flip: take_mask)

lemma b64_char_cases:
  assumes "n < 64"
  shows "b64_char n = (let a = of_nat n in if a < 26 then a + 65 else if a < 52 then a - 26 + 97
    else if a < 62 then a - 52 + 48 else if a = 62 then 43 else 47)" (is "_ = ?f n")
proof -
  have "map ?f [0..<64] = b64_alphabet"
    by (simp add: b64_alphabet_def upt_conv_Cons)
  then have "b64_char n = map ?f [0..<64] ! n" by (simp only: b64_char_def)
  also have "\<dots> = ?f ([0..<64] ! n)" by (rule nth_map) (simp add: assms)
  also have "[0..<64] ! n = n" using assms by simp
  finally show ?thesis .
qed

lemma conv_bin2ascii_eq: "conv_bin2ascii a = b64_char (unat a mod 64)"
proof -
  have m: "a AND 0x3f = of_nat (unat a mod 64)"
    by (simp add: word_unat_eq_iff unat_and_3f unat_of_nat)
  have e: "(ucast (x :: u8) = (62 :: u64)) = (x = 62)" for x
    by (simp add: word_unat_eq_iff unat_ucast_up)
  have "unat a mod 64 < 64" by simp
  from b64_char_cases [OF this] show ?thesis
    unfolding conv_bin2ascii_def m by (simp only: Let_def ct e)
qed

lemma base64_ascii_to_bin_eq:
  "base64_ascii_to_bin a =
    (if a = 61 then 0 else if a = 47 then 63 else if a = 43 then 62
     else if 48 \<le> a \<and> a \<le> 57 then a - 48 + 52 else if 97 \<le> a \<and> a \<le> 122 then a - 97 + 26
     else if 65 \<le> a \<and> a \<le> 90 then a - 65 else 0xff)"
proof -
  have e: "(ucast (x :: u8) = (47 :: u64)) = (x = 47)" "(ucast x = (43 :: u64)) = (x = 43)" 
    "(ucast x = (61 :: u64)) = (x = 61)" for x
    by (simp_all add: word_unat_eq_iff unat_ucast_up)
  have r: "constant_time_in_range_8 a 65 90 = (if 65 \<le> a \<and> a \<le> 90 then - 1 else 0)"
    "constant_time_in_range_8 a 97 122 = (if 97 \<le> a \<and> a \<le> 122 then - 1 else 0)"
    "constant_time_in_range_8 a 48 57 = (if 48 \<le> a \<and> a \<le> 57 then - 1 else 0)"
    by (simp_all add: ct)
  show ?thesis unfolding base64_ascii_to_bin_def by (simp only: Let_def ct e r)
qed

lemma b64_char_value:
  assumes "n < 64"
  shows "base64_ascii_to_bin (b64_char n) = of_nat n" "b64_char n \<noteq> 61"
    "b64_char n \<notin> {32, 9, 13, 10}"
proof -
  have len: "length b64_alphabet = 64" by (simp add: b64_alphabet_def)
  have "map base64_ascii_to_bin b64_alphabet = map of_nat [0..<64]"
    by (simp add: b64_alphabet_def base64_ascii_to_bin_eq upt_conv_Cons)
  then have "map base64_ascii_to_bin b64_alphabet ! n = map of_nat [0..<64] ! n" by simp
  then show "base64_ascii_to_bin (b64_char n) = of_nat n"
    using assms len by (simp add: b64_char_def)
  have "set b64_alphabet \<inter> {61, 32, 9, 13, 10} = {}"
    by (simp add: b64_alphabet_def)
  moreover have "b64_char n \<in> set b64_alphabet" using assms len by (simp add: b64_char_def)
  ultimately show "b64_char n \<noteq> 61" "b64_char n \<notin> {32, 9, 13, 10}" by blast+
qed

section \<open>EVP_EncodeBlock\<close>

lemma poke_append:
  "length bs \<le> length rest \<Longrightarrow> poke (pre @ rest) (length pre) bs = Some (pre @ bs @ drop (length bs) rest)"
  by (simp add: poke_def)

lemma poke_0: "length bs \<le> length mem \<Longrightarrow> poke mem 0 bs = Some (bs @ drop (length bs) mem)"
  using poke_append [of bs mem "[]"] by simp

lemma unat_triple:
  "unat (push_bit 16 (ucast (a :: u8)) OR push_bit 8 (ucast (b :: u8)) OR ucast (c :: u8) :: u32) =
     unat a * 65536 + unat b * 256 + unat c"
proof -
  have lim: "unat a < 256" "unat b < 256" "unat c < 256" by simp_all
  have u: "unat (push_bit 8 (ucast b) OR ucast c :: u32) = unat b * 256 + unat c"
    using lim by (subst unat_push_or) (simp_all add: unat_ucast_up del: unat_u8_less)
  show ?thesis
    using lim by (subst unat_push_or) (simp_all add: unat_ucast_up u del: unat_u8_less)
qed

lemma unat_ucast_u8: "unat (ucast (x :: u32) :: u8) = unat x mod 256"
  by (simp add: unsigned_ucast_eq take_bit_nat_def)

lemma mod_256_64: "n mod 256 mod 64 = (n mod 64 :: nat)"
  by (rule mod_mod_cancel) simp

lemma conv_digit: "conv_bin2ascii (ucast (drop_bit n (l :: u32))) = b64_char (unat l div 2 ^ n mod 64)"
  by (simp only: conv_bin2ascii_eq unat_ucast_u8 unat_drop mod_256_64)

lemma conv_digit_0: "conv_bin2ascii (ucast (l :: u32)) = b64_char (unat l mod 64)"
  by (simp only: conv_bin2ascii_eq unat_ucast_u8 mod_256_64)

lemma base64_digits:
  fixes w x y z :: nat
  assumes "w < 64" "x < 64" "y < 64" "z < 64"
  shows "(((w * 64 + x) * 64 + y) * 64 + z) div (64 * (64 * 64)) mod 64 = w"
    "(((w * 64 + x) * 64 + y) * 64 + z) div (64 * 64) mod 64 = x"
    "(((w * 64 + x) * 64 + y) * 64 + z) div 64 mod 64 = y"
    "(((w * 64 + x) * 64 + y) * 64 + z) mod 64 = z"
proof -
  have d: "(q * 64 + z) div 64 = q" "(q * 64 + z) mod 64 = z" if "z < 64" for q z :: nat
    using that by simp_all
  show "(((w * 64 + x) * 64 + y) * 64 + z) div (64 * (64 * 64)) mod 64 = w"
    "(((w * 64 + x) * 64 + y) * 64 + z) div (64 * 64) mod 64 = x"
    "(((w * 64 + x) * 64 + y) * 64 + z) div 64 mod 64 = y"
    "(((w * 64 + x) * 64 + y) * 64 + z) mod 64 = z"
    using assms by (simp_all only: div_mult2_eq d mod_less)
qed

lemma six_bits:
  fixes a b c :: nat
  assumes "a < 256" "b < 256" "c < 256"
  shows "(a * 65536 + b * 256 + c) div 262144 mod 64 = a div 4"
    "(a * 65536 + b * 256 + c) div 4096 mod 64 = a mod 4 * 16 + b div 16"
    "(a * 65536 + b * 256 + c) div 64 mod 64 = b mod 16 * 4 + c div 64"
    "(a * 65536 + b * 256 + c) mod 64 = c mod 64"
proof -
  let ?w = "a div 4" and ?x = "a mod 4 * 16 + b div 16" and ?y = "b mod 16 * 4 + c div 64" and ?z = "c mod 64"
  have "(4 * w + r) * 65536 + (16 * q + s) * 256 + (64 * u + z) =
      ((w * 64 + (r * 16 + q)) * 64 + (s * 4 + u)) * 64 + z" for w r q s u z :: nat
    by simp
  from this [of ?w "a mod 4" "b div 16" "b mod 16" "c div 64" ?z]
  have e: "a * 65536 + b * 256 + c = ((?w * 64 + ?x) * 64 + ?y) * 64 + ?z"
    by (simp only: mult_div_mod_eq)
  have n: "(262144 :: nat) = 64 * (64 * 64)" "(4096 :: nat) = 64 * 64" by simp_all
  have l: "?w < 64" "?x < 64" "?y < 64" "?z < 64" using assms by linarith+
  show "(a * 65536 + b * 256 + c) div 262144 mod 64 = a div 4"
    "(a * 65536 + b * 256 + c) div 4096 mod 64 = a mod 4 * 16 + b div 16"
    "(a * 65536 + b * 256 + c) div 64 mod 64 = b mod 16 * 4 + c div 64"
    "(a * 65536 + b * 256 + c) mod 64 = c mod 64"
    unfolding e n by (rule base64_digits [OF l])+
qed

lemma triple_digits:
  fixes a b c :: u8
  defines "l \<equiv> push_bit 16 (ucast a) OR push_bit 8 (ucast b) OR ucast c :: u32"
  shows "conv_bin2ascii (ucast (drop_bit 18 l)) = b64_char (unat a div 4)"
    "conv_bin2ascii (ucast (drop_bit 12 l)) = b64_char (unat a mod 4 * 16 + unat b div 16)"
    "conv_bin2ascii (ucast (drop_bit 6 l)) = b64_char (unat b mod 16 * 4 + unat c div 64)"
    "conv_bin2ascii (ucast l) = b64_char (unat c mod 64)"
proof -
  have p: "(2::nat) ^ 18 = 262144" "(2::nat) ^ 12 = 4096" "(2::nat) ^ 6 = 64" by simp_all
  show "conv_bin2ascii (ucast (drop_bit 18 l)) = b64_char (unat a div 4)"
    "conv_bin2ascii (ucast (drop_bit 12 l)) = b64_char (unat a mod 4 * 16 + unat b div 16)"
    "conv_bin2ascii (ucast (drop_bit 6 l)) = b64_char (unat b mod 16 * 4 + unat c div 64)"
    "conv_bin2ascii (ucast l) = b64_char (unat c mod 64)"
    unfolding conv_digit unfolding conv_digit_0 l_def unat_triple p
    by (simp_all only: six_bits unat_u8_less)
qed

lemma length_b64: "length (b64 xs) = (length xs + 2) div 3 * 4"
proof (induction xs rule: b64.induct)
  case (4 a b c bs)
  have "(length (a # b # c # bs) + 2) div 3 = (length bs + 2) div 3 + 1" by simp
  with 4 show ?case by simp
qed simp_all

lemma encode_block_loop_done:
  "encode_block_loop mem dst src 0 ret = do { mem \<leftarrow> poke mem dst [0]; Some (ret, mem) }"
  by (subst encode_block_loop.simps) (simp only: if_True simp_thms)

lemma encode_block_loop_0:
  assumes "length q < length rest" and "dst = length pre + length q"
  shows "encode_block_loop (pre @ q @ drop (length q) rest) dst src 0 ret =
    Some (ret, pre @ q @ 0 # drop (length q + 1) rest)"
  using poke_append [of "[0]" "drop (length q) rest" "pre @ q"] assms
  by (simp add: encode_block_loop_done Suc_le_eq)

lemma encode_block_loop_eq:
  assumes "length (b64 xs) < length rest" and "ret + length (b64 xs) < SIZE_LIMIT"
    and "dst = length pre"
  shows "encode_block_loop (pre @ rest) dst (xs @ junk) (length xs) ret =
    Some (ret + length (b64 xs), pre @ b64 xs @ 0 # drop (length (b64 xs) + 1) rest)"
  using assms
proof (induction xs arbitrary: pre rest dst ret junk rule: b64.induct)
  case 1
  then show ?case using encode_block_loop_0 [of "[]" rest dst pre junk ret] by simp
next
  case (2 a)
  with triple_digits [of a 0 0] encode_block_loop_0 [of "b64 [a]" rest "dst + 4" pre _ "ret + 4"]
  show ?case by (subst encode_block_loop.simps) (simp add: poke_append size_add_small)
next
  case (3 a b)
  with triple_digits [of a b 0] encode_block_loop_0 [of "b64 [a, b]" rest "dst + 4" pre _ "ret + 4"]
  show ?case by (subst encode_block_loop.simps) (simp add: poke_append size_add_small)
next
  case (4 a b c bs)
  let ?g = "[b64_char (unat a div 4), b64_char (unat a mod 4 * 16 + unat b div 16),
      b64_char (unat b mod 16 * 4 + unat c div 64), b64_char (unat c mod 64)]"
  have "encode_block_loop ((pre @ ?g) @ drop (length ?g) rest) (dst + 4) (bs @ junk) (length bs) (ret + 4) =
    Some (ret + 4 + length (b64 bs), (pre @ ?g) @ b64 bs @ 0 # drop (length (b64 bs) + 1) (drop (length ?g) rest))"
    using "4.prems" by (intro "4.IH") simp_all
  with "4.prems" triple_digits [of a b c] show ?case
    by (subst encode_block_loop.simps) (simp add: poke_append size_add_small)
qed

lemma EVP_EncodeBlock_eq:
  assumes "n \<le> length src" and "length (b64 (take n src)) < length rest" and "length rest < SIZE_LIMIT"
  shows "EVP_EncodeBlock (pre @ rest) (length pre) src n =
    Some (length (b64 (take n src)),
      pre @ b64 (take n src) @ 0 # drop (length (b64 (take n src)) + 1) rest)"
  using encode_block_loop_eq [of "take n src" rest 0 "length pre" pre "drop n src"] assms
  by (simp add: EVP_EncodeBlock_def)

section \<open>The stream of lines\<close>

fun b64_lines :: "bytes \<Rightarrow> bytes" where
  "b64_lines xs = (if 48 \<le> length xs then b64 (take 48 xs) @ 10 # b64_lines (drop 48 xs) else [])"

fun b64_rest :: "bytes \<Rightarrow> bytes" where
  "b64_rest xs = (if 48 \<le> length xs then b64_rest (drop 48 xs) else xs)"

declare b64_lines.simps [simp del] b64_rest.simps [simp del]

definition b64_text :: "bytes \<Rightarrow> bytes" where
  "b64_text xs = b64_lines xs @ (if b64_rest xs = [] then [] else b64 (b64_rest xs) @ [10])"

lemma b64_short [simp]: "length xs < 48 \<Longrightarrow> b64_lines xs = []" "length xs < 48 \<Longrightarrow> b64_rest xs = xs"
  by (simp_all add: b64_lines.simps [of xs] b64_rest.simps [of xs])

lemma b64_line:
  assumes "length l = 48"
  shows "b64_lines (l @ xs) = b64 l @ 10 # b64_lines xs" "b64_rest (l @ xs) = b64_rest xs"
  using assms by (simp_all add: b64_lines.simps [of "l @ xs"] b64_rest.simps [of "l @ xs"])

text \<open>Induction over the lines of a string.\<close>

lemma line_induct [case_names short line]:
  assumes "\<And>xs. length xs < 48 \<Longrightarrow> P xs"
    and "\<And>l xs. length l = 48 \<Longrightarrow> P xs \<Longrightarrow> P (l @ xs)"
  shows "P (xs :: bytes)"
proof (induction xs rule: b64_lines.induct)
  case (1 xs)
  show ?case
  proof (cases "48 \<le> length xs")
    case True
    then have "P (take 48 xs @ drop 48 xs)" using "1.IH" by (intro assms(2)) simp_all
    then show ?thesis by (simp only: append_take_drop_id)
  qed (use assms(1) in simp)
qed

lemma b64_rest_short [simp]: "length (b64_rest xs) < 48"
  by (induction xs rule: line_induct) (simp_all add: b64_line)

lemma b64_lines_append:
  "b64_lines (xs @ ys) = b64_lines xs @ b64_lines (b64_rest xs @ ys) \<and> b64_rest (xs @ ys) = b64_rest (b64_rest xs @ ys)"
  by (induction xs rule: line_induct) (simp_all add: b64_line)

lemma length_b64_line: "length xs = 48 \<Longrightarrow> length (b64 xs) = 64"
  by (simp add: length_b64)

lemma length_b64_lines: "length (b64_lines xs) = length xs div 48 * 65"
proof (induction xs rule: line_induct)
  case (line l xs)
  have "(48 + length xs) div 48 = length xs div 48 + 1" by simp
  with line show ?case by (simp only: b64_line length_b64_line length_append list.size) simp
qed simp

text \<open>What a call leaves in the output buffer: nothing, or the lines and a final zero byte.\<close>

definition written :: "bytes \<Rightarrow> bytes \<Rightarrow> bytes" where
  "written out mem = (if out = [] then mem else out @ 0 # drop (length out + 1) mem)"

lemma written_Nil [simp]: "written [] mem = mem"
  by (simp add: written_def)

lemma written_append:
  assumes "out \<noteq> []"
  shows "out @ written later (0 # drop (length out + 1) mem) = written (out @ later) mem"
  using assms by (cases later) (simp_all add: written_def add.commute)

lemma take_written [simp]: "take (length out) (written out mem) = out"
  by (simp add: written_def)

text \<open>A line: the block, and the newline over its zero byte.\<close>

lemma line_step:
  assumes "length l = 48" and "65 < length rest" and "length rest < SIZE_LIMIT" and "dst = length pre"
  shows "EVP_EncodeBlock (pre @ rest) dst (l @ junk) 48 = Some (64, pre @ b64 l @ 0 # drop 65 rest)"
    "poke (pre @ b64 l @ 0 # drop 65 rest) (dst + 64) [10] = Some (pre @ b64 l @ 10 # drop 65 rest)"
    "poke (pre @ b64 l @ 10 # drop 65 rest) (dst + 64 + 1) [0] = Some ((pre @ b64 l @ [10]) @ 0 # drop 66 rest)"
proof -
  note len = length_b64_line [OF assms(1)]
  show "EVP_EncodeBlock (pre @ rest) dst (l @ junk) 48 = Some (64, pre @ b64 l @ 0 # drop 65 rest)"
    using EVP_EncodeBlock_eq [of 48 "l @ junk" rest pre] assms by (simp add: len)
  show "poke (pre @ b64 l @ 0 # drop 65 rest) (dst + 64) [10] = Some (pre @ b64 l @ 10 # drop 65 rest)"
    using poke_append [of "[10]" "0 # drop 65 rest" "pre @ b64 l"] assms(4) by (simp add: len)
  show "poke (pre @ b64 l @ 10 # drop 65 rest) (dst + 64 + 1) [0] = Some ((pre @ b64 l @ [10]) @ 0 # drop 66 rest)"
    using poke_append [of "[0]" "drop 65 rest" "pre @ b64 l @ [10]"] assms(2,4)
    by (simp add: len Suc_le_eq add.commute)
qed

lemma encode_update_loop_eq:
  assumes "b64_lines xs = [] \<or> length (b64_lines xs) < length rest" and "length rest < SIZE_LIMIT"
    and "tot + length (b64_lines xs) < SIZE_LIMIT" and "dst = length pre"
  shows "encode_update_loop (pre @ rest) dst (xs @ junk) (length xs) tot =
    Some (pre @ written (b64_lines xs) rest,
      Some (b64_rest xs @ junk, length (b64_rest xs), tot + length (b64_lines xs)))"
  using assms
proof (induction xs arbitrary: pre rest dst tot rule: line_induct)
  case (short xs)
  then show ?case by (simp add: encode_update_loop.simps [of "pre @ rest"])
next
  case (line l xs)
  note len = length_b64_line [OF line.hyps(1)] and bl = b64_line [OF line.hyps(1)]
  have room: "65 + length (b64_lines xs) < length rest" "tot + 65 + length (b64_lines xs) < SIZE_LIMIT"
    using line.prems by (simp_all add: bl len)
  note step = line_step [OF line.hyps(1) _ line.prems(2,4)]
  have "encode_update_loop (pre @ rest) dst (l @ xs @ junk) (48 + length xs) tot =
      encode_update_loop ((pre @ b64 l @ [10]) @ 0 # drop 66 rest) (dst + 64 + 1) (xs @ junk) (length xs) (tot + 65)"
    using step room line.hyps(1) by (subst encode_update_loop.simps) (simp add: size_add_small)
  also have "\<dots> = Some ((pre @ b64 l @ [10]) @ written (b64_lines xs) (0 # drop 66 rest),
      Some (b64_rest xs @ junk, length (b64_rest xs), tot + 65 + length (b64_lines xs)))"
    using room line.prems(2,4) by (intro line.IH) (auto simp: len)
  also have "(pre @ b64 l @ [10]) @ written (b64_lines xs) (0 # drop 66 rest) = pre @ written (b64_lines (l @ xs)) rest"
    using written_append [of "b64 l @ [10]" "b64_lines xs" rest] by (simp add: bl len)
  finally show ?case using line.hyps(1) by (simp add: bl len)
qed

text \<open>The encoder's state stands for the bytes of the unfinished line.\<close>

definition pending :: "evp_encode_ctx_st \<Rightarrow> bytes" where
  "pending ctx = take (data_used ctx) (ctx_data ctx)"

definition wf_encode :: "evp_encode_ctx_st \<Rightarrow> bool" where
  "wf_encode ctx = (data_used ctx < 48 \<and> length (ctx_data ctx) = 48)"

lemma length_pending [simp]: "wf_encode ctx \<Longrightarrow> length (pending ctx) = data_used ctx"
  by (simp add: wf_encode_def pending_def)

lemma fill_line:
  assumes "wf_encode ctx" and "data_used ctx + length xs \<le> 48"
  shows "\<exists>data. poke (ctx_data ctx) (data_used ctx) xs = Some data \<and> length data = 48 \<and>
    take (data_used ctx + length xs) data = pending ctx @ xs"
  using assms by (simp add: poke_def wf_encode_def pending_def)

text \<open>
  An update writes the lines completed by the new bytes and keeps the rest. When the lines are
  longer than an \<open>int\<close>, the reported length is 0.
\<close>

definition update_done ::
  "evp_encode_ctx_st \<Rightarrow> bytes \<Rightarrow> bytes \<Rightarrow> (nat \<times> bytes \<times> evp_encode_ctx_st) \<Rightarrow> bool" where
  "update_done ctx mem xs r =
     (case r of (n, mem', ctx') \<Rightarrow>
        let out = b64_lines (pending ctx @ xs)
        in n = (if length out > INT_MAX then 0 else length out) \<and> mem' = written out mem \<and>
           wf_encode ctx' \<and> pending ctx' = b64_rest (pending ctx @ xs))"

lemma encode_update_rest_eq:
  assumes "wf_encode ctx" and "b64_lines xs = [] \<or> length (b64_lines xs) < length rest"
    and "length rest < SIZE_LIMIT" and "tot + length (b64_lines xs) < SIZE_LIMIT"
    and "dst = length pre" and "inp = xs @ junk" and "n = length xs"
  shows "\<exists>ctx'. encode_update_rest ctx (pre @ rest) dst inp n tot =
      Some (if tot + length (b64_lines xs) > INT_MAX then 0 else tot + length (b64_lines xs),
        pre @ written (b64_lines xs) rest, ctx') \<and> wf_encode ctx' \<and> pending ctx' = b64_rest xs"
proof -
  let ?r = "b64_rest xs"
  have short: "length ?r < 48" by (rule b64_rest_short)
  obtain data where "(if length ?r \<noteq> 0 then poke (ctx_data ctx) 0 ?r else Some (ctx_data ctx)) = Some data"
    "length data = 48" "take (length ?r) data = ?r"
    using assms(1) less_imp_le [OF short] poke_0 [of ?r "ctx_data ctx"] by (cases "?r = []") (auto simp: wf_encode_def)
  with encode_update_loop_eq [OF assms(2-5), of junk] short show ?thesis
    by (intro exI [of _ "ctx\<lparr>ctx_data := data, data_used := length ?r\<rparr>"])
      (cases "?r = []", auto simp: encode_update_rest_def wf_encode_def pending_def assms(6,7))
qed

lemma EVP_EncodeUpdate_eq:
  assumes wf: "wf_encode ctx" and n: "n \<le> length inp" and out: "out = b64_lines (pending ctx @ take n inp)"
    and room: "out = [] \<or> length out < length mem" and lim: "length mem < SIZE_LIMIT"
  shows "\<exists>ctx'. EVP_EncodeUpdate ctx mem inp n = 
      Some (if length out > INT_MAX then 0 else length out, written out mem, ctx') \<and>
      wf_encode ctx' \<and> pending ctx' = b64_rest (pending ctx @ take n inp)"
proof -
  let ?xs = "take n inp"
  consider (empty) "n = 0" | (short) "n \<noteq> 0" "n < 48 - data_used ctx"
    | (start) "n \<noteq> 0" "48 - data_used ctx \<le> n" "data_used ctx = 0"
    | (fill) "n \<noteq> 0" "48 - data_used ctx \<le> n" "data_used ctx \<noteq> 0"
    by linarith
  then show ?thesis
  proof cases
    case empty
    with wf out show ?thesis by (simp add: EVP_EncodeUpdate_def) (simp add: wf_encode_def)
  next
    case short
    have l: "length ?xs = n" using n by simp
    have "data_used ctx + n \<le> 48" using short by linarith
    then obtain data where "poke (ctx_data ctx) (data_used ctx) ?xs = Some data" "length data = 48"
      "take (data_used ctx + n) data = pending ctx @ ?xs"
      using fill_line [OF wf, of ?xs, unfolded l] by blast
    with short n wf out show ?thesis
      by (simp add: EVP_EncodeUpdate_def) (simp add: wf_encode_def pending_def)
  next
    case start
    then have p: "pending ctx = []" by (simp add: pending_def)
    with start encode_update_rest_eq [OF wf, of ?xs mem 0 0 "[]" inp "drop n inp" n] room lim n out
    show ?thesis by (force simp: EVP_EncodeUpdate_def)
  next
    case fill
    let ?todo = "48 - data_used ctx"
    let ?ys = "drop ?todo ?xs"
    obtain data where d: "poke (ctx_data ctx) (data_used ctx) (take ?todo inp) = Some data" "length data = 48"
      "data = pending ctx @ take ?todo inp"
      using fill_line [OF wf, of "take ?todo inp"] fill n wf by (auto simp: wf_encode_def)
    have "take ?todo inp @ ?ys = ?xs" using fill(2)
      by (metis append_take_drop_id min_absorb1 take_take)
    then have split: "pending ctx @ ?xs = data @ ?ys" by (simp add: d(3))
    have ys: "drop ?todo inp = ?ys @ drop n inp" using fill(2)
        append_take_drop_id [of "n - ?todo" "drop ?todo inp"] by (simp add: drop_take)
    note bl = b64_line [OF d(2), of ?ys] and len = length_b64_line [OF d(2)]
    have room': "65 + length (b64_lines ?ys) < length mem" using room by (simp add: out split bl len)
    note step = line_step [OF d(2) _ lim, where pre = "[]" and dst = 0, simplified]
    let ?ctx = "ctx\<lparr>ctx_data := data, data_used := 0\<rparr>"
    have w: "wf_encode ?ctx" using d(2) by (simp add: wf_encode_def)
    have r1: "b64_lines ?ys = [] \<or> length (b64_lines ?ys) < length (0 # drop 66 mem)" using room' by auto
    have r2: "length (0 # drop 66 mem) < SIZE_LIMIT" using lim room' by simp
    have r3: "65 + length (b64_lines ?ys) < SIZE_LIMIT" using room' lim by linarith
    have r4: "65 = length (b64 data @ [10])" by (simp add: len)
    have r5: "n - ?todo = length ?ys" using n by simp
    obtain ctx' where t: "encode_update_rest ?ctx ((b64 data @ [10]) @ 0 # drop 66 mem) 65 (drop ?todo inp) (n - ?todo) 65 =
        Some (if 65 + length (b64_lines ?ys) > INT_MAX then 0 else 65 + length (b64_lines ?ys),
          (b64 data @ [10]) @ written (b64_lines ?ys) (0 # drop 66 mem), ctx') \<and>
        wf_encode ctx' \<and> pending ctx' = b64_rest ?ys"
      using encode_update_rest_eq [OF w r1 r2 r3 r4 ys r5] by blast
    have "EVP_EncodeUpdate ctx mem inp n =
        encode_update_rest ?ctx ((b64 data @ [10]) @ 0 # drop 66 mem) 65 (drop ?todo inp) (n - ?todo) 65"
      using fill d(1) step(1) [of "[]"] step(2,3) room' by (simp add: EVP_EncodeUpdate_def Let_def)
    moreover have "(b64 data @ [10]) @ written (b64_lines ?ys) (0 # drop 66 mem) = written out mem"
      using written_append [of "b64 data @ [10]" "b64_lines ?ys" mem] by (simp add: out split bl len)
    ultimately show ?thesis using t by (simp add: out split bl len)
  qed
qed

lemma EVP_EncodeFinal_eq:
  assumes wf: "wf_encode ctx" and out: "out = b64_text (pending ctx)"
    and room: "out = [] \<or> length out < length mem" and lim: "length mem < SIZE_LIMIT"
  shows "\<exists>ctx'. EVP_EncodeFinal ctx mem = Some (length out, written out mem, ctx') \<and>
    wf_encode ctx' \<and> pending ctx' = []"
proof (cases "data_used ctx = 0")
  case True
  with wf out show ?thesis by (auto simp: EVP_EncodeFinal_def b64_text_def wf_encode_def pending_def)
next
  case False
  have p: "length (pending ctx) < 48" "pending ctx \<noteq> []" using wf False by (auto simp: wf_encode_def pending_def)
  then have o: "out = b64 (pending ctx) @ [10]" by (simp add: out b64_text_def)
  let ?l = "length (b64 (pending ctx))"
  have "EVP_EncodeBlock mem 0 (ctx_data ctx) (data_used ctx) =
      Some (?l, b64 (pending ctx) @ 0 # drop (?l + 1) mem)"
    using EVP_EncodeBlock_eq [of "data_used ctx" "ctx_data ctx" mem "[]"] wf room lim o
    by (simp add: wf_encode_def pending_def)
  moreover have "poke (b64 (pending ctx) @ 0 # drop (?l + 1) mem) ?l [10] = Some (b64 (pending ctx) @ 10 # drop (?l + 1) mem)"
    using poke_append [of "[10]" "0 # drop (?l + 1) mem" "b64 (pending ctx)"] by simp
  moreover have "poke (b64 (pending ctx) @ 10 # drop (?l + 1) mem) (?l + 1) [0] = Some (written out mem)"
    using poke_append [of "[0]" "drop (?l + 1) mem" "b64 (pending ctx) @ [10]"] room
    by (simp add: o written_def Suc_le_eq)
  ultimately show ?thesis
    using False wf by (auto simp: EVP_EncodeFinal_def o wf_encode_def pending_def)
qed

section \<open>Decoding\<close>

lemma unat_quad:
  assumes "w < 64" "x < 64" "y < 64" "z < 64"
  shows "unat (push_bit 18 (ucast (of_nat w :: u8)) OR push_bit 12 (ucast (of_nat x :: u8)) OR
    push_bit 6 (ucast (of_nat y :: u8)) OR ucast (of_nat z :: u8) :: u32) = ((w * 64 + x) * 64 + y) * 64 + z"
proof -
  have u: "unat (ucast (of_nat k :: u8) :: u32) = k" if "k < 64" for k
    using that by (simp add: unat_ucast_up unat_of_nat)
  have 1: "unat (push_bit 6 (ucast (of_nat y :: u8)) OR ucast (of_nat z :: u8) :: u32) = y * 64 + z"
    using assms by (subst unat_push_or) (simp_all add: u)
  have 2: "unat (push_bit 12 (ucast (of_nat x :: u8)) OR push_bit 6 (ucast (of_nat y :: u8)) OR
      ucast (of_nat z :: u8) :: u32) = x * 4096 + (y * 64 + z)"
    using assms by (subst unat_push_or) (simp_all add: u 1)
  show ?thesis
    using assms by (subst unat_push_or) (simp_all add: u 2)
qed

lemma base64_decode_quad_eq:
  assumes c: "map base64_ascii_to_bin [c0, c1, c2, c3] = map of_nat [w, x, y, z]"
    and lim: "w < 64" "x < 64" "y < 64" "z < 64" and pad: "c0 \<noteq> 61" "c1 \<noteq> 61"
    and v: "v = ((w * 64 + x) * 64 + y) * 64 + z"
  shows "base64_decode_quad (c0 # c1 # c2 # c3 # r) =
    (if c2 = 61 then if c3 = 61 then Some [of_nat (v div 65536)] else None
     else if c3 = 61 then Some [of_nat (v div 65536), of_nat (v div 256)]
     else Some [of_nat (v div 65536), of_nat (v div 256), of_nat v])"
proof -
  have n: "of_nat k \<noteq> (0xff :: u8)" if "k < 64" for k
  proof
    assume "of_nat k = (0xff :: u8)"
    then have "unat (of_nat k :: u8) = unat (0xff :: u8)" by simp
    with that show False by (simp add: unat_of_nat)
  qed
  have d: "ucast (drop_bit k (u :: u32)) = (of_nat (unat u div 2 ^ k) :: u8)" for k u
    by (simp add: word_unat_eq_iff unat_ucast_u8 unat_drop unat_of_nat_u8)
  have d0: "ucast (u :: u32) = (of_nat (unat u) :: u8)" for u
    by (simp add: word_unat_eq_iff unat_ucast_u8 unat_of_nat_u8)
  note q = unat_quad [OF lim, folded v]
  have b: "base64_ascii_to_bin c0 = of_nat w" "base64_ascii_to_bin c1 = of_nat x"
    "base64_ascii_to_bin c2 = of_nat y" "base64_ascii_to_bin c3 = of_nat z" using c by simp_all
  have i: "(c0 # c1 # c2 # c3 # r) ! 0 = c0" "(c0 # c1 # c2 # c3 # r) ! 1 = c1"
    "(c0 # c1 # c2 # c3 # r) ! 2 = c2" "(c0 # c1 # c2 # c3 # r) ! 3 = c3" by simp_all
  have p: "push_bit 3 (of_bool False) OR push_bit 2 (of_bool False) OR push_bit 1 (of_bool s) OR of_bool t =
      (if s then if t then 3 else 2 else if t then 1 else 0 :: u32)" for s t
    by (cases s; cases t) simp_all
  have ne: "(1 :: u32) \<noteq> 0" "(3 :: u32) \<noteq> 0" "(3 :: u32) \<noteq> 1" "(2 :: u32) \<noteq> 0" "(2 :: u32) \<noteq> 1" "(2 :: u32) \<noteq> 3"
    by simp_all
  have pow: "(2::nat) ^ 16 = 65536" "(2::nat) ^ 8 = 256" by simp_all
  have pf: "(c0 = 61) = False" "(c1 = 61) = False" using pad by simp_all
  show ?thesis
    unfolding base64_decode_quad_def Let_def i b d unfolding d0 q pow pf p
    using n [OF lim(1)] n [OF lim(2)] n [OF lim(3)] n [OF lim(4)]
    by (cases "c2 = 61"; cases "c3 = 61"; simp only: if_True if_False ne simp_thms)
qed

lemma triple_of_digits:
  fixes a b c :: nat
  shows "((a div 4 * 64 + (a mod 4 * 16 + b div 16)) * 64 + (b mod 16 * 4 + c div 64)) * 64 + c mod 64 =
    a * 65536 + b * 256 + c"
proof -
  have "(4 * w + r) * 65536 + (16 * q + s) * 256 + (64 * u + z) =
      ((w * 64 + (r * 16 + q)) * 64 + (s * 4 + u)) * 64 + z" for w r q s u z :: nat
    by simp
  from this [of "a div 4" "a mod 4" "b div 16" "b mod 16" "c div 64" "c mod 64"]
  show ?thesis by (simp only: mult_div_mod_eq)
qed

lemma triple_div:
  fixes a b c :: nat
  assumes "b < 256" "c < 256"
  shows "(a * 65536 + b * 256 + c) div 65536 = a" "(a * 65536 + b * 256 + c) div 256 = a * 256 + b"
  using assms by simp_all

lemma of_nat_bytes:
  "of_nat (unat a * 256 + unat b) = (b :: u8)" "of_nat (unat a * 65536 + unat b * 256 + unat c) = (c :: u8)"
proof -
  have "unat a * 65536 + unat b * 256 + unat c = (unat a * 256 + unat b) * 256 + unat c" by simp
  then have "(unat a * 65536 + unat b * 256 + unat c) mod 256 = unat c" by (simp only: mod_mult_self3 mod_less unat_u8_less)
  then show "of_nat (unat a * 256 + unat b) = (b :: u8)" "of_nat (unat a * 65536 + unat b * 256 + unat c) = (c :: u8)"
    by (simp_all add: word_unat_eq_iff unat_of_nat_u8 del: of_nat_add of_nat_mult)
qed

lemma decode_quad_b64:
  "base64_decode_quad (b64 [a] @ r) = Some [a]"
  "base64_decode_quad (b64 [a, b] @ r) = Some [a, b]"
  "base64_decode_quad (take 4 (b64 (a # b # c # bs)) @ r) = Some [a, b, c]"
proof -
  have lim: "unat x div 4 < 64" "unat x mod 4 * 16 + unat y div 16 < 64" 
    "unat x mod 16 * 4 + unat y div 64 < 64" "unat y mod 64 < 64" for x y :: u8
    using unat_u8_less [of x] unat_u8_less [of y] by linarith+
  have pad: "base64_ascii_to_bin 61 = of_nat 0" by (simp add: base64_ascii_to_bin_eq)
  note v = b64_char_value
  have q: "base64_decode_quad (c0 # c1 # c2 # c3 # r) =
    (if c2 = 61 then if c3 = 61 then Some [a] else None
     else if c3 = 61 then Some [a, b] else Some [a, b, c])"
    if "c0 = b64_char (unat a div 4)" "c1 = b64_char (unat a mod 4 * 16 + unat b div 16)"
      "c2 = 61 \<and> unat b mod 16 * 4 + unat c div 64 = 0 \<or> c2 = b64_char (unat b mod 16 * 4 + unat c div 64)"
      "c3 = 61 \<and> unat c mod 64 = 0 \<or> c3 = b64_char (unat c mod 64)" for a b c :: u8 and c0 c1 c2 c3
  proof -
    have "map base64_ascii_to_bin [c0, c1, c2, c3] = map of_nat
        [unat a div 4, unat a mod 4 * 16 + unat b div 16, unat b mod 16 * 4 + unat c div 64, unat c mod 64]"
      unfolding list.map that(1,2) v(1) [OF lim(1)] v(1) [OF lim(2)] 
      using that(3,4) v(1) [OF lim(3) [of b c]] v(1) [OF lim(4) [of c]] pad
      by (elim disjE conjE) (simp_all only:)
    moreover have "c0 \<noteq> 61" "c1 \<noteq> 61" using that(1,2) v(2) lim by simp_all
    ultimately have "base64_decode_quad (c0 # c1 # c2 # c3 # r) = (let v = ((unat a div 4 * 64 +
        (unat a mod 4 * 16 + unat b div 16)) * 64 + (unat b mod 16 * 4 + unat c div 64)) * 64 + unat c mod 64 in
        if c2 = 61 then if c3 = 61 then Some [of_nat (v div 65536)] else None
        else if c3 = 61 then Some [of_nat (v div 65536), of_nat (v div 256)]
        else Some [of_nat (v div 65536), of_nat (v div 256), of_nat v])"
      unfolding Let_def
      by (intro base64_decode_quad_eq [OF _ lim(1) [of a] lim(2) [of a b] lim(3) [of b c] lim(4) [of c] _ _ refl])
    then show ?thesis
      by (simp only: Let_def triple_of_digits triple_div unat_u8_less of_nat_unat ucast_id of_nat_bytes)
  qed
  show "base64_decode_quad (b64 [a] @ r) = Some [a]" 
    using q [of _ a _ 0 61 0 61] by simp
  show "base64_decode_quad (b64 [a, b] @ r) = Some [a, b]"
    using q [of _ a _ b _ 0 61] v(2) [OF lim(3) [of b 0]] by simp
  show "base64_decode_quad (take 4 (b64 (a # b # c # bs)) @ r) = Some [a, b, c]"
    using q [of _ a _ b _ c _] v(2) [OF lim(3) [of b c]] v(2) [OF lim(4) [of c]] by simp
qed

subsection \<open>In one call\<close>

lemma decode_base64_loop_eq:
  assumes "length xs \<le> length rest" and "out = length pre" and "i = length d"
    and "n = length d + length (b64 xs)"
  shows "decode_base64_loop (pre @ rest) out (d @ b64 xs @ junk) n i =
    Some (Some (length pre + length xs), pre @ xs @ drop (length xs) rest)"
  using assms
proof (induction xs arbitrary: pre rest out d i n rule: b64.induct)
  case 1
  then show ?case by (simp add: decode_base64_loop.simps)
next
  case (2 a)
  have "decode_base64_loop (pre @ a # drop 1 rest) (out + 1) (d @ b64 [a] @ junk) n (i + 4) =
      Some (Some (out + 1), pre @ a # drop 1 rest)"
    using 2 by (simp add: decode_base64_loop.simps)
  with 2 decode_quad_b64(1) [of a junk] poke_append [of "[a]" rest pre] show ?case
    by (subst decode_base64_loop.simps) (simp del: b64.simps add: length_b64)
next
  case (3 a b)
  have "decode_base64_loop (pre @ a # b # drop 2 rest) (out + 2) (d @ b64 [a, b] @ junk) n (i + 4) =
      Some (Some (out + 2), pre @ a # b # drop 2 rest)"
    using 3 by (simp add: decode_base64_loop.simps)
  with 3 decode_quad_b64(2) [of a b junk] poke_append [of "[a, b]" rest pre] show ?case
    by (subst decode_base64_loop.simps) (simp del: b64.simps add: length_b64 numeral_2_eq_2)
next
  case (4 a b c bs)
  obtain q where q: "length q = 4" "b64 (a # b # c # bs) = q @ b64 bs"
    and dq: "\<And>r. base64_decode_quad (q @ r) = Some [a, b, c]"
    using that [of "take 4 (b64 (a # b # c # bs))"] decode_quad_b64(3) [of a b c bs] by simp
  have "decode_base64_loop ((pre @ [a, b, c]) @ drop 3 rest) (out + 3) ((d @ q) @ b64 bs @ junk) n (i + 4) =
      Some (Some (length (pre @ [a, b, c]) + length bs), (pre @ [a, b, c]) @ bs @ drop (length bs) (drop 3 rest))"
    using 4(2-) q by (intro "4.IH") simp_all
  moreover have "i < n" "3 \<le> length rest" using 4(2-) q by simp_all
  ultimately show ?case
    using 4(2-4) dq [of "b64 bs @ junk"] poke_append [of "[a, b, c]" rest pre]
    by (subst decode_base64_loop.simps) (simp del: b64.simps add: q(2) numeral_3_eq_3)
qed

lemma EVP_DecodeBase64_b64:
  assumes "n = length (b64 xs)" and "3 * (n div 4) \<le> max_out" and "length xs \<le> length mem"
  shows "EVP_DecodeBase64 mem max_out (b64 xs @ junk) n = Some (Some (length xs), xs @ drop (length xs) mem)"
  using decode_base64_loop_eq [of xs mem 0 "[]" 0 "[]" n junk] assms
  by (simp add: EVP_DecodeBase64_def EVP_DecodedLength_def length_b64 mult.commute)

subsection \<open>As a stream\<close>

definition base64_space :: "u8 \<Rightarrow> bool" where
  "base64_space c = (c = 32 \<or> c = 9 \<or> c = 13 \<or> c = 10)"

text \<open>
  The decoder without its buffers: the state is the unfinished quad and whether the end was
  seen; the result has the bytes decoded and whether the characters were accepted.
\<close>

fun decode_chars :: "bytes \<Rightarrow> bool \<Rightarrow> bytes \<Rightarrow> bytes \<times> bool \<times> bytes \<times> bool" where
  "decode_chars q e [] = (q, e, [], True)"
| "decode_chars q e (c # cs) =
     (if base64_space c then decode_chars q e cs
      else if e then (q, e, [], False)
      else if length q = 3
      then (case base64_decode_quad (q @ [c]) of
              None \<Rightarrow> (q, e, [], False)
            | Some bs \<Rightarrow> (case decode_chars [] (length bs < 3) cs of (q', e', out, ok) \<Rightarrow> (q', e', bs @ out, ok)))
      else decode_chars (q @ [c]) e cs)"

lemma decode_chars_append:
  "decode_chars q e (xs @ ys) =
     (case decode_chars q e xs of (q', e', out, ok) \<Rightarrow>
        if ok then (case decode_chars q' e' ys of (q'', e'', out', ok') \<Rightarrow> (q'', e'', out @ out', ok'))
        else (q', e', out, ok))"
proof (induction q e xs rule: decode_chars.induct)
  case (2 q e c cs)
  then show ?case by (cases "base64_decode_quad (q @ [c])") (auto split: prod.splits)
qed (simp split: prod.splits)

lemma decode_chars_quad:
  assumes "decode_chars q e cs = (q', e', out, ok)" and "length q < 4" 
  shows "length q' < 4"
  using assms by (induction q e cs arbitrary: q' e' out ok rule: decode_chars.induct)
    (auto split: if_splits option.splits prod.splits)

lemma base64_decode_quad_length: "base64_decode_quad q = Some bs \<Longrightarrow> 0 < length bs \<and> length bs \<le> 3"
  by (auto simp: base64_decode_quad_def Let_def split: if_splits)

lemma decode_chars_length:
  assumes "decode_chars q e cs = (q', e', out, ok)" and "length q < 4"
  shows "length out \<le> 3 * ((length q + length cs) div 4)"
  using assms
proof (induction q e cs arbitrary: q' e' out ok rule: decode_chars.induct)
  case (2 q e c cs)
  have m: "3 * ((length q + length cs) div 4) \<le> 3 * ((length q + length (c # cs)) div 4)" 
    by (simp add: div_le_mono)
  show ?case
  proof (cases "base64_space c")
    case True
    then have "length out \<le> 3 * ((length q + length cs) div 4)"
      using 2 by (intro "2.IH"(1)) simp_all
    with m show ?thesis by linarith
  next
    case False
    note nsp = this
    show ?thesis
    proof (cases "e \<or> length q \<noteq> 3 \<or> base64_decode_quad (q @ [c]) = None")
      case True
      with nsp 2 show ?thesis by (auto split: if_splits)
    next
      case False
      then obtain bs where bs: "base64_decode_quad (q @ [c]) = Some bs" "\<not> e" "length q = 3" by auto
      obtain q1 e1 o1 ok1 where r: "decode_chars [] (length bs < 3) cs = (q1, e1, o1, ok1)" by (metis prod_cases4)
      have "length o1 \<le> 3 * (length cs div 4)"
        using "2.IH"(2) [OF nsp bs(2,3,1) r] by simp
      moreover have "out = bs @ o1" using "2.prems"(1) nsp bs r by simp
      moreover have "(3 + length (c # cs)) div 4 = length cs div 4 + 1" by simp
      ultimately show ?thesis using bs(3) base64_decode_quad_length [OF bs(1)] by simp
    qed
  qed
qed simp

definition wf_decode :: "evp_encode_ctx_st \<Rightarrow> bool" where
  "wf_decode ctx = (data_used ctx < 4 \<and> length (ctx_data ctx) = 48 \<and> \<not> error_encountered ctx)"

lemma base64_decode_quad_prefix: "length q = 4 \<Longrightarrow> base64_decode_quad (q @ r) = base64_decode_quad q"
  by (simp add: base64_decode_quad_def nth_append)

lemma decode_update_loop_eq:
  assumes "wf_decode ctx" and "decode_chars (pending ctx) (eof_seen ctx) cs = (q, e, out, ok)"
    and "length out \<le> length rest" and "dst = length pre"
  shows "\<exists>ctx'. decode_update_loop ctx (pre @ rest) dst cs =
      Some (ctx', pre @ out @ drop (length out) rest, dst + length out, ok) \<and>
      (if ok then wf_decode ctx' \<and> pending ctx' = q \<and> eof_seen ctx' = e else error_encountered ctx')"
  using assms
proof (induction cs arbitrary: ctx q e out ok rest pre dst)
  case Nil
  then show ?case by auto
next
  case (Cons c cs)
  have wf: "data_used ctx < 4" "length (ctx_data ctx) = 48" "length (pending ctx) = data_used ctx"
    using Cons.prems(1) by (auto simp: wf_decode_def pending_def)
  obtain data where data: "poke (ctx_data ctx) (data_used ctx) [c] = Some data" "length data = 48"
    "take (data_used ctx + 1) data = pending ctx @ [c]"
    using wf by (auto simp: poke_def pending_def)
  let ?ctx = "ctx\<lparr>ctx_data := data, data_used := data_used ctx + 1\<rparr>"
  show ?case
  proof (cases "base64_space c \<or> eof_seen ctx")
    case True
    show ?thesis
    proof (cases "base64_space c")
      case True
      with Cons.IH [of ctx q e out ok rest dst pre] Cons.prems show ?thesis by (simp add: base64_space_def)
    next
      case False
      with True have "out = []" "\<not> ok" "e = eof_seen ctx" using Cons.prems(2) by auto
      with True False show ?thesis by (simp add: base64_space_def)
    qed
  next
    case False
    note go = this
    show ?thesis
    proof (cases "data_used ctx = 3")
      case False
      have "wf_decode ?ctx" "pending ?ctx = pending ctx @ [c]"
        using Cons.prems(1) wf data False by (auto simp: wf_decode_def pending_def)
      moreover have "decode_update_loop ctx (pre @ rest) dst (c # cs) = decode_update_loop ?ctx (pre @ rest) dst cs"
        using go False data(1) by (simp add: base64_space_def)
      ultimately show ?thesis
        using Cons.IH [of ?ctx q e out ok rest dst pre] Cons.prems(2-4) go False wf(3) by simp
    next
      case True
      have four: "take 4 data = pending ctx @ [c]" using data(3) True by simp
      then have quad: "base64_decode_quad data = base64_decode_quad (pending ctx @ [c])"
        using base64_decode_quad_prefix [of "take 4 data" "drop 4 data", unfolded append_take_drop_id] data(2) wf(3) True by simp
      show ?thesis
      proof (cases "base64_decode_quad data")
        case None
        then show ?thesis using Cons.prems go True data(1) wf(3) quad
          by (auto simp: base64_space_def)
      next
        case (Some bs)
        let ?fin = "length bs < 3"
        let ?c2 = "if ?fin then ?ctx\<lparr>data_used := 0, eof_seen := True\<rparr> else ?ctx\<lparr>data_used := 0\<rparr>"
        obtain q1 e1 o1 ok1 where r: "decode_chars [] ?fin cs = (q1, e1, o1, ok1)" by (metis prod_cases4)
        then have res: "out = bs @ o1" "q = q1" "e = e1" "ok = ok1"
          using Cons.prems(2) go True Some quad wf(3) by auto
        have c2: "wf_decode ?c2" "pending ?c2 = []" "eof_seen ?c2 = ?fin"
          using Cons.prems(1) data(2) go by (auto simp: wf_decode_def pending_def)
        have "decode_update_loop ctx (pre @ rest) dst (c # cs) =
            decode_update_loop ?c2 ((pre @ bs) @ drop (length bs) rest) (dst + length bs) cs"
          using go True data(1) Some poke_append [of bs rest pre] Cons.prems(3,4) res(1)
          by (simp add: base64_space_def Let_def)
        moreover have "decode_chars (pending ?c2) (eof_seen ?c2) cs = (q1, e1, o1, ok1)" by (simp only: c2 r)
        moreover have "length o1 \<le> length (drop (length bs) rest)" "dst + length bs = length (pre @ bs)"
          using Cons.prems(3,4) res(1) by auto
        ultimately obtain ctx' where
          "decode_update_loop ctx (pre @ rest) dst (c # cs) =
            Some (ctx', (pre @ bs) @ o1 @ drop (length o1) (drop (length bs) rest), dst + length bs + length o1, ok1)"
          "if ok1 then wf_decode ctx' \<and> pending ctx' = q1 \<and> eof_seen ctx' = e1 else error_encountered ctx'"
          using Cons.IH [OF c2(1)] by metis
        then show ?thesis by (intro exI [of _ ctx']) (simp add: res add.assoc add.commute [of "length o1"])
      qed
    qed
  qed
qed

lemma b64_no_space: "c \<in> set (b64 xs) \<Longrightarrow> \<not> base64_space c"
proof (induction xs rule: b64.induct)
  case (2 a)
  have "unat a div 4 < 64" "unat a mod 4 * 16 < 64" using unat_u8_less [of a] by linarith+
  from this [THEN b64_char_value(3)] show ?case using 2 by (auto simp: base64_space_def)
next
  case (3 a b)
  have "unat a div 4 < 64" "unat a mod 4 * 16 + unat b div 16 < 64" "unat b mod 16 * 4 < 64"
    using unat_u8_less [of a] unat_u8_less [of b] by linarith+
  from this [THEN b64_char_value(3)] show ?case using 3 by (auto simp: base64_space_def)
next
  case (4 a b c bs)
  have "unat a div 4 < 64" "unat a mod 4 * 16 + unat b div 16 < 64" 
    "unat b mod 16 * 4 + unat c div 64 < 64" "unat c mod 64 < 64"
    using unat_u8_less [of a] unat_u8_less [of b] unat_u8_less [of c] by linarith+
  from this [THEN b64_char_value(3)] show ?case using 4 by (auto simp: base64_space_def)
qed simp

lemma decode_chars_four:
  assumes "length q = 4" and "\<forall>c \<in> set q. \<not> base64_space c" and "base64_decode_quad q = Some bs"
  shows "decode_chars [] False (q @ cs) =
    (case decode_chars [] (length bs < 3) cs of (q', e, out, ok) \<Rightarrow> (q', e, bs @ out, ok))"
proof -
  obtain c0 c1 c2 c3 where "q = [c0, c1, c2, c3]"
    using assms(1) by (auto simp: numeral_eq_Suc length_Suc_conv)
  then show ?thesis using assms by (simp split: prod.splits)
qed

lemma decode_chars_b64:
  "decode_chars [] False (b64 xs @ cs) =
     (case decode_chars [] (length xs mod 3 \<noteq> 0) cs of (q, e, out, ok) \<Rightarrow> (q, e, xs @ out, ok))"
proof (induction xs rule: b64.induct)
  case (2 a)
  then show ?case
    using decode_chars_four [of "b64 [a]" "[a]" cs] b64_no_space [of _ "[a]"] decode_quad_b64(1) [of a "[]"] by simp
next
  case (3 a b)
  then show ?case
    using decode_chars_four [of "b64 [a, b]" "[a, b]" cs] b64_no_space [of _ "[a, b]"]
      decode_quad_b64(2) [of a b "[]"] by simp
next
  case (4 a b c bs)
  let ?q = "take 4 (b64 (a # b # c # bs))"
  have "length ?q = 4" by simp
  moreover have "\<forall>c \<in> set ?q. \<not> base64_space c" using b64_no_space by (blast dest: in_set_takeD)
  moreover have "base64_decode_quad ?q = Some [a, b, c]" using decode_quad_b64(3) [of a b c bs "[]"] by simp
  ultimately have "decode_chars [] False (?q @ b64 bs @ cs) =
    (case decode_chars [] (length [a, b, c] < 3) (b64 bs @ cs) of (q', e, out, ok) \<Rightarrow> (q', e, [a, b, c] @ out, ok))"
    by (rule decode_chars_four)
  moreover have "(length [a, b, c] < 3) = False" by simp
  moreover have "b64 (a # b # c # bs) @ cs = ?q @ b64 bs @ cs" by simp
  moreover have "length (a # b # c # bs) mod 3 = length bs mod 3" by simp
  ultimately show ?case using 4 by (simp only:) (simp split: prod.splits)
qed (simp split: prod.splits)

lemma decode_chars_text:
  "decode_chars [] False (b64_text xs) = ([], length xs mod 3 \<noteq> 0, xs, True)"
proof (induction xs rule: line_induct)
  case (short xs)
  then show ?case using decode_chars_b64 [of xs "[10]"] by (simp add: b64_text_def base64_space_def)
next
  case (line l xs)
  have "b64_text (l @ xs) = b64 l @ 10 # b64_text xs"
    using line.hyps by (simp add: b64_text_def b64_line)
  moreover have "(48 + length xs) mod 3 = length xs mod 3" by presburger
  ultimately show ?case using line decode_chars_b64 [of l "10 # b64_text xs"] by (simp add: base64_space_def)
qed

section \<open>Sequences of calls\<close>

text \<open>
  A client that encodes or decodes in several calls, each with its input and its own output
  buffer, and appends the bytes that each call reports. The decoding client stops on an error.
\<close>

fun encode_stream ::
  "evp_encode_ctx_st \<Rightarrow> (bytes \<times> bytes) list \<Rightarrow> (bytes \<times> evp_encode_ctx_st) option" where
  "encode_stream ctx [] = Some ([], ctx)"
| "encode_stream ctx ((inp, mem) # calls) =
     do {
       (n, mem, ctx) \<leftarrow> EVP_EncodeUpdate ctx mem inp (length inp);
       (out, ctx) \<leftarrow> encode_stream ctx calls;
       Some (take n mem @ out, ctx) }"

fun decode_stream ::
  "evp_encode_ctx_st \<Rightarrow> (bytes \<times> bytes) list \<Rightarrow> (bool \<times> bytes \<times> evp_encode_ctx_st) option" where
  "decode_stream ctx [] = Some (True, [], ctx)"
| "decode_stream ctx ((inp, mem) # calls) =
     do {
       (r, n, mem, ctx) \<leftarrow> EVP_DecodeUpdate ctx mem inp (length inp);
       if r = - 1 then Some (False, [], ctx)
       else do {
         (ok, out, ctx) \<leftarrow> decode_stream ctx calls;
         Some (ok, take n mem @ out, ctx) } }"

text \<open>
  Output buffers that are large enough for their call, which writes no more than \<open>INT_MAX\<close> bytes. The
  length of an encoding call's output is an \<open>int\<close>: above \<open>INT_MAX\<close> the code reports 0 bytes, and a
  decoding call fails.
\<close>

definition encode_room :: "(bytes \<times> bytes) \<Rightarrow> bool" where
  "encode_room call =
     (65 * ((47 + length (fst call)) div 48) < length (snd call) \<and> length (snd call) < SIZE_LIMIT \<and>
      65 * ((47 + length (fst call)) div 48) \<le> INT_MAX)"

definition decode_room :: "(bytes \<times> bytes) \<Rightarrow> bool" where
  "decode_room call =
     (3 * ((3 + length (fst call)) div 4) \<le> length (snd call) \<and> 3 * ((3 + length (fst call)) div 4) \<le> INT_MAX)"

text \<open>What the bound of the encoder excludes: lines longer than \<open>INT_MAX\<close> are written and not reported.\<close>

lemma encode_update_drops:
  assumes "wf_encode ctx" and "n \<le> length inp" and "out = b64_lines (pending ctx @ take n inp)"
    and "INT_MAX < length out" and "length out < length mem" and "length mem < SIZE_LIMIT"
  shows "\<exists>ctx'. EVP_EncodeUpdate ctx mem inp n = Some (0, written out mem, ctx')"
  using EVP_EncodeUpdate_eq [OF assms(1-3) _ assms(6)] assms(4,5) by auto

lemma EVP_EncodeInit_wf: "wf_encode EVP_EncodeInit" "pending EVP_EncodeInit = []"
  by (simp_all add: wf_encode_def pending_def EVP_EncodeInit_def)

lemma EVP_DecodeInit_wf: "wf_decode EVP_DecodeInit" "pending EVP_DecodeInit = []" "\<not> eof_seen EVP_DecodeInit"
  by (simp_all add: wf_decode_def pending_def EVP_DecodeInit_def)

lemma encode_stream_eq:
  assumes "wf_encode ctx" and "\<forall>call \<in> set calls. encode_room call"
  shows "\<exists>ctx'. encode_stream ctx calls = Some (b64_lines (pending ctx @ concat (map fst calls)), ctx') \<and>
    wf_encode ctx' \<and> pending ctx' = b64_rest (pending ctx @ concat (map fst calls))"
  using assms
proof (induction calls arbitrary: ctx)
  case Nil
  then show ?case by (auto simp: wf_encode_def)
next
  case (Cons call calls)
  obtain inp mem where call: "call = (inp, mem)" by (cases call)
  let ?out = "b64_lines (pending ctx @ inp)"
  have room: "65 * ((47 + length inp) div 48) < length mem" "length mem < SIZE_LIMIT" "65 * ((47 + length inp) div 48) \<le> INT_MAX"
    using Cons.prems(2) by (auto simp: call encode_room_def)
  have "(length (pending ctx) + length inp) div 48 \<le> (47 + length inp) div 48"
    using Cons.prems(1) by (intro div_le_mono) (simp add: wf_encode_def)
  then have len: "length ?out < length mem" "length ?out \<le> INT_MAX" using room(1,3) by (simp_all add: length_b64_lines)
  obtain ctx1 where u: "EVP_EncodeUpdate ctx mem inp (length inp) = Some (length ?out, written ?out mem, ctx1)"
    and w1: "wf_encode ctx1" "pending ctx1 = b64_rest (pending ctx @ inp)"
    using EVP_EncodeUpdate_eq [OF Cons.prems(1) order_refl refl, of inp mem] len room(2)
    by auto
  obtain ctx2 where "encode_stream ctx1 calls = Some (b64_lines (pending ctx1 @ concat (map fst calls)), ctx2)"
    "wf_encode ctx2" "pending ctx2 = b64_rest (pending ctx1 @ concat (map fst calls))"
    using Cons.IH [OF w1(1)] Cons.prems(2) by auto
  then show ?case
    using b64_lines_append [of "pending ctx @ inp" "concat (map fst calls)"] by (simp add: call u w1)
qed

lemma EVP_DecodeUpdate_eq:
  assumes wf: "wf_decode ctx" and d: "decode_chars (pending ctx) (eof_seen ctx) inp = (q, e, out, True)"
    and room: "decode_room (inp, mem)"
  shows "\<exists>ctx'. EVP_DecodeUpdate ctx mem inp (length inp) =
      Some (if e then 0 else 1, length out, out @ drop (length out) mem, ctx') \<and>
    wf_decode ctx' \<and> pending ctx' = q \<and> eof_seen ctx' = e"
proof -
  have "length (pending ctx) < 4" using wf by (simp add: wf_decode_def pending_def)
  then have "length out \<le> 3 * ((length (pending ctx) + length inp) div 4)"
    by (rule decode_chars_length [OF d])
  also have "\<dots> \<le> 3 * ((3 + length inp) div 4)"
    using \<open>length (pending ctx) < 4\<close> by (intro mult_le_mono2 div_le_mono) simp
  finally have len: "length out \<le> length mem" "length out \<le> INT_MAX" using room by (auto simp: decode_room_def)
  obtain ctx' where "decode_update_loop ctx mem 0 inp = Some (ctx', out @ drop (length out) mem, length out, True)"
    "wf_decode ctx'" "pending ctx' = q" "eof_seen ctx' = e"
    using decode_update_loop_eq [OF wf d len(1), of 0 "[]"] by auto
  with wf len(2) show ?thesis by (simp add: EVP_DecodeUpdate_def wf_decode_def)
qed

lemma decode_stream_eq:
  assumes "wf_decode ctx" and "decode_chars (pending ctx) (eof_seen ctx) (concat (map fst calls)) = (q, e, out, True)"
    and "\<forall>call \<in> set calls. decode_room call"
  shows "\<exists>ctx'. decode_stream ctx calls = Some (True, out, ctx') \<and> wf_decode ctx' \<and> pending ctx' = q"
  using assms
proof (induction calls arbitrary: ctx out)
  case Nil
  then show ?case by simp
next
  case (Cons call calls)
  obtain inp mem where call: "call = (inp, mem)" by (cases call)
  obtain q1 e1 o1 o2 where d: "decode_chars (pending ctx) (eof_seen ctx) inp = (q1, e1, o1, True)"
    "decode_chars q1 e1 (concat (map fst calls)) = (q, e, o2, True)" "out = o1 @ o2"
    using Cons.prems(2) by (auto simp: call decode_chars_append split: prod.splits if_splits)
  obtain ctx1 where "EVP_DecodeUpdate ctx mem inp (length inp) =
      Some (if e1 then 0 else 1, length o1, o1 @ drop (length o1) mem, ctx1)"
    "wf_decode ctx1" "pending ctx1 = q1" "eof_seen ctx1 = e1"
    using EVP_DecodeUpdate_eq [OF Cons.prems(1) d(1)] Cons.prems(3) by (auto simp: call)
  moreover obtain ctx2 where "decode_stream ctx1 calls = Some (True, o2, ctx2)" "wf_decode ctx2" "pending ctx2 = q"
    using Cons.IH [of ctx1 o2] calculation(2-4) d(2) Cons.prems(3) by auto
  ultimately show ?case by (simp add: call d(3))
qed

section \<open>Properties\<close>

lemma base64_stream_text:
  assumes "\<forall>call \<in> set calls. encode_room call" and "66 \<le> length mem" and "length mem < SIZE_LIMIT"
  shows "\<exists>out ctx n mem' ctx'. encode_stream EVP_EncodeInit calls = Some (out, ctx) \<and>
    EVP_EncodeFinal ctx mem = Some (n, mem', ctx') \<and> data_used ctx' = 0 \<and>
    out @ take n mem' = b64_text (concat (map fst calls))"
proof -
  let ?xs = "concat (map fst calls)"
  obtain ctx where s: "encode_stream EVP_EncodeInit calls = Some (b64_lines ?xs, ctx)"
    "wf_encode ctx" "pending ctx = b64_rest ?xs"
    using encode_stream_eq [OF EVP_EncodeInit_wf(1) assms(1)] by (auto simp: EVP_EncodeInit_wf)
  let ?out = "b64_text (pending ctx)"
  have "(length (pending ctx) + 2) div 3 \<le> (47 + 2) div 3"
    using s(2) by (intro div_le_mono) (simp add: wf_encode_def)
  then have "length ?out < length mem"
    using s(2) assms(2) by (auto simp: b64_text_def wf_encode_def length_b64)
  then obtain ctx' where f: "EVP_EncodeFinal ctx mem = Some (length ?out, written ?out mem, ctx')"
    "wf_encode ctx'" "pending ctx' = []"
    using EVP_EncodeFinal_eq [OF s(2) refl, of mem] assms(3) by auto
  then have "data_used ctx' = 0" by (auto simp: wf_encode_def pending_def)
  moreover have "b64_lines ?xs @ ?out = b64_text ?xs" by (simp add: s(3) b64_text_def)
  ultimately show ?thesis using s(1) f(1) by (simp add: take_written)
qed

text \<open>C16: The streaming encoder: whatever the chunks in which the input arrives, the bytes reported by
  the updates and the final call are the base64 text of the whole input, in lines of 64
  characters, provided that each output buffer has the 65 bytes per started line that its call
  may complete and one more for the zero byte, and that these are at most \<open>INT_MAX\<close> (about 1.6 GB of input
  in a call; above it \<open>EVP_EncodeUpdate\<close> reports no bytes, and the text is lost). No call writes outside
  its buffer.\<close>

theorem base64_stream_encodes:
  assumes "\<forall>call \<in> set calls. encode_room call" and "66 \<le> length mem" and "length mem < SIZE_LIMIT"
  shows "\<exists>out ctx n mem' ctx'. encode_stream EVP_EncodeInit calls = Some (out, ctx) \<and>
    EVP_EncodeFinal ctx mem = Some (n, mem', ctx') \<and> data_used ctx' = 0 \<and>
    out @ take n mem' = b64_text (concat (map fst calls))"
  by (rule base64_stream_text) fact+

theorem base64_stream_encodes_witness:
  "\<exists>out ctx n mem' ctx'.
    encode_stream EVP_EncodeInit [([77, 97], replicate 70 0), ([110], replicate 70 0)] = Some (out, ctx) \<and>
    EVP_EncodeFinal ctx (replicate 70 0) = Some (n, mem', ctx') \<and> data_used ctx' = 0 \<and>
    out @ take n mem' = b64_text [77, 97, 110]"
  using base64_stream_encodes [of "[([77, 97], replicate 70 0), ([110], replicate 70 0)]" "replicate 70 0"]
  by (simp add: encode_room_def INT_MAX_def SIZE_LIMIT_def)

text \<open>C15: Encoding and decoding as streams: the text that any sequence of encoding calls produces, cut
  into pieces in any way and given to any sequence of decoding calls, is decoded to the original
  bytes without an error, and the decoder reports that it ended on a full quad. Each call gets an output
  buffer with room for what it may write (65 bytes per started line and a zero byte, or 3 per started
  quad), and that is at most \<open>INT_MAX\<close> bytes.\<close>

theorem base64_stream_roundtrip:
  assumes "\<forall>call \<in> set calls. encode_room call" and "66 \<le> length mem" and "length mem < SIZE_LIMIT"
    and "encode_stream EVP_EncodeInit calls = Some (out, ctx)"
    and "EVP_EncodeFinal ctx mem = Some (n, mem', ctx')"
    and "concat (map fst calls') = out @ take n mem'"
    and "\<forall>call \<in> set calls'. decode_room call"
  shows "\<exists>ctx''. decode_stream EVP_DecodeInit calls' = Some (True, concat (map fst calls), ctx'') \<and>
    EVP_DecodeFinal ctx'' = 1"
proof -
  have "concat (map fst calls') = b64_text (concat (map fst calls))"
    using base64_stream_text [OF assms(1-3)] assms(4-6) by auto
  then have "decode_chars (pending EVP_DecodeInit) (eof_seen EVP_DecodeInit) (concat (map fst calls')) =
      ([], length (concat (map fst calls)) mod 3 \<noteq> 0, concat (map fst calls), True)"
    by (simp only: EVP_DecodeInit_wf decode_chars_text) 
  from decode_stream_eq [OF EVP_DecodeInit_wf(1) this assms(7)]
  show ?thesis by (auto simp: EVP_DecodeFinal_def wf_decode_def pending_def)
qed


theorem base64_stream_roundtrip_witness:
  "\<exists>ctx''. decode_stream EVP_DecodeInit
      [([84, 87], replicate 10 0), ([70, 117, 10], replicate 10 0)] = Some (True, [77, 97, 110], ctx'') \<and>
    EVP_DecodeFinal ctx'' = 1"
proof -
  obtain out ctx n mem' ctx' where
    "encode_stream EVP_EncodeInit [([77, 97], replicate 70 0), ([110], replicate 70 0)] = Some (out, ctx)"
    "EVP_EncodeFinal ctx (replicate 70 0) = Some (n, mem', ctx')"
    "out @ take n mem' = b64_text [77, 97, 110]"
    using base64_stream_text [of "[([77, 97], replicate 70 0), ([110], replicate 70 0)]" "replicate 70 0"]
    by (auto simp: encode_room_def INT_MAX_def SIZE_LIMIT_def)
  moreover have "b64_text [77, 97, 110] = [84, 87, 70, 117, 10]"
    by (simp add: b64_text_def b64_char_def b64_alphabet_def)
  ultimately show ?thesis
    using base64_stream_roundtrip [of "[([77, 97], replicate 70 0), ([110], replicate 70 0)]" "replicate 70 0"
        out ctx n mem' ctx' "[([84, 87], replicate 10 0), ([70, 117, 10], replicate 10 0)]"]
    by (simp add: encode_room_def decode_room_def INT_MAX_def SIZE_LIMIT_def)
qed

lemma EVP_EncodedLength_eq:
  assumes "EVP_EncodedLength n = Some m" and "n < SIZE_LIMIT"
  shows "m = (n + 2) div 3 * 4 + 1" "m < SIZE_LIMIT"
proof -
  let ?k = "size_add n 2 div 3"
  from assms(1) have ok: "\<not> size_add n 2 < n" "size_mul ?k 4 div 4 = ?k" "\<not> size_add (size_mul ?k 4) 1 < size_mul ?k 4"
    and m: "m = size_add (size_mul ?k 4) 1"
    by (auto simp: EVP_EncodedLength_def Let_def split: if_splits)
  have "n + 2 < SIZE_LIMIT" using ok(1) size_add_overflow [OF assms(2), of 2] by (simp add: SIZE_LIMIT_def)
  then have k: "?k = (n + 2) div 3" by (simp add: size_add_small)
  have "size_mul ?k 4 < SIZE_LIMIT" by (simp add: size_mul_def)
  moreover have "?k * 4 \<le> size_mul ?k 4" using ok(2) by (metis div_mult_mod_eq le_add1)
  ultimately have mul: "size_mul ?k 4 = ?k * 4" by (intro size_mul_small) linarith
  have "?k * 4 < SIZE_LIMIT" using \<open>size_mul ?k 4 < SIZE_LIMIT\<close> mul by simp
  from size_add_overflow [OF this, of 1] ok(3) have "?k * 4 + 1 < SIZE_LIMIT"
    by (simp add: mul SIZE_LIMIT_def)
  then show "m = (n + 2) div 3 * 4 + 1" "m < SIZE_LIMIT"
    unfolding m mul by (simp_all only: size_add_small k)
qed

text \<open>C17: In one call: \<open>EVP_EncodeBlock\<close> fills a buffer of \<open>EVP_EncodedLength\<close> bytes exactly (the
  RFC 4648 encoding and a zero byte), and \<open>EVP_DecodeBase64\<close> reads the original bytes back into a
  buffer of \<open>EVP_DecodedLength\<close> bytes, leaving the rest of that buffer alone.\<close>

theorem base64_block_roundtrip:
  assumes "EVP_EncodedLength (length xs) = Some m" and "length mem = m" and "length xs < SIZE_LIMIT"
    and "EVP_DecodedLength (m - 1) = Some max_out" and "length mem2 = max_out"
  shows "EVP_EncodeBlock mem 0 xs (length xs) = Some (m - 1, b64 xs @ [0]) \<and>
    EVP_DecodeBase64 mem2 max_out (b64 xs @ [0]) (m - 1) =
      Some (Some (length xs), xs @ drop (length xs) mem2)"
proof
  note m = EVP_EncodedLength_eq [OF assms(1,3)]
  then have len: "length (b64 xs) = m - 1" "0 < m" by (simp_all add: length_b64)
  show "EVP_EncodeBlock mem 0 xs (length xs) = Some (m - 1, b64 xs @ [0])"
    using EVP_EncodeBlock_eq [of "length xs" xs mem "[]"] len assms(2) m(2) by simp
  have "max_out = 3 * ((m - 1) div 4)" using assms(4) by (simp add: EVP_DecodedLength_def mult.commute split: if_splits)
  moreover have "length xs \<le> max_out" unfolding calculation m(1) by simp
  ultimately show "EVP_DecodeBase64 mem2 max_out (b64 xs @ [0]) (m - 1) =
      Some (Some (length xs), xs @ drop (length xs) mem2)"
    using EVP_DecodeBase64_b64 [of "m - 1" xs max_out mem2 "[0]"] len assms(5) by simp
qed

theorem base64_block_roundtrip_witness:
  "EVP_EncodeBlock (replicate 9 7) 0 [77, 97, 110, 0] 4 = Some (8, [84, 87, 70, 117, 65, 65, 61, 61, 0]) \<and>
   EVP_DecodeBase64 (replicate 6 9) 6 [84, 87, 70, 117, 65, 65, 61, 61, 0] 8 =
     Some (Some 4, [77, 97, 110, 0] @ drop 4 (replicate 6 9))"
proof -
  have l: "length [77, 97, 110, 0 :: u8] = 4" by simp
  have e: "b64 [77, 97, 110, 0] @ [0] = [84, 87, 70, 117, 65, 65, 61, 61, 0]"
    by (simp add: b64_char_def b64_alphabet_def)
  have "EVP_EncodedLength 4 = Some 9" by code_simp
  moreover have "EVP_DecodedLength (9 - 1) = Some 6" by code_simp
  ultimately show ?thesis
    using base64_block_roundtrip [of "[77, 97, 110, 0]" 9 "replicate 9 7" 6 "replicate 6 9", unfolded l e]
    by (simp add: SIZE_LIMIT_def)
qed

lemma decode_update_loop_error:
  assumes "decode_update_loop ctx mem out cs = Some (ctx', mem', n, False)"
  shows "error_encountered ctx'"
  using assms
proof (induction cs arbitrary: ctx mem out)
  case (Cons c cs)
  from Cons.prems show ?case
    by (auto simp: Let_def bind_eq_Some_conv split: if_splits option.splits intro: Cons.IH)
qed simp

text \<open>C18: An error of the streaming decoder is final: after an update that returned -1, every later
  update returns -1 with no output and leaves its buffer alone, and so does the final call.\<close>

theorem base64_error_sticks:
  assumes "EVP_DecodeUpdate ctx mem inp n = Some (- 1, k, mem', ctx')"
  shows "EVP_DecodeUpdate ctx' mem2 inp2 n2 = Some (- 1, 0, mem2, ctx') \<and> EVP_DecodeFinal ctx' = - 1"
proof -
  have "error_encountered ctx'"
    using assms by (auto simp: EVP_DecodeUpdate_def bind_eq_Some_conv split: if_splits
        dest: decode_update_loop_error arg_cong [where f = error_encountered])
  then show ?thesis by (simp add: EVP_DecodeUpdate_def EVP_DecodeFinal_def)
qed

theorem base64_error_sticks_witness:
  "\<exists>ctx. EVP_DecodeUpdate EVP_DecodeInit [] [61, 61, 61, 61] 4 = Some (- 1, 0, [], ctx) \<and>
    EVP_DecodeUpdate ctx [9] [84, 87, 70, 117] 4 = Some (- 1, 0, [9], ctx) \<and> EVP_DecodeFinal ctx = - 1"
proof -
  have "base64_decode_quad (61 # 61 # 61 # 61 # r) = None" for r
    by (simp add: base64_decode_quad_def base64_ascii_to_bin_eq Let_def)
  then have "\<exists>ctx. EVP_DecodeUpdate EVP_DecodeInit [] [61, 61, 61, 61] 4 = Some (- 1, 0, [], ctx)"
    by (simp add: EVP_DecodeUpdate_def EVP_DecodeInit_def poke_def Let_def)
  then show ?thesis using base64_error_sticks by metis
qed

end
