(* ===== verification/LHash.thy ===== *)
theory LHash
  imports Mem "HOL-Library.Multiset"
begin

text \<open>
  \<open>crypto/lhash/lhash.c\<close>: the hash table with chaining. A chain is the list of its items and
  \<open>buckets\<close> the array of chains; a pointer to a pointer into a chain is the bucket and the
  position in it, which is the length of the chain when it points to the \<open>NULL\<close> at the end.
  \<open>call_hash_func\<close> and \<open>call_cmp_func\<close> only call the table's functions, so the table holds
  the functions themselves. The callback of \<open>lh_doall_arg\<close> may change its argument, not the table.
\<close>

unbundle bit_operations_syntax

record 'd lhash_item_st =
  item_data :: 'd
  item_hash :: u32

record 'd lhash_st =
  num_items :: nat
  buckets :: "'d lhash_item_st list list"
  num_buckets :: nat
  callback_depth :: u32
  lh_comp :: "'d \<Rightarrow> 'd \<Rightarrow> int"
  lh_hash :: "'d \<Rightarrow> u32"

definition kMinNumBuckets :: nat where "kMinNumBuckets = 16"
definition kMaxAverageChainLength :: nat where "kMaxAverageChainLength = 2"
definition kMinAverageChainLength :: nat where "kMinAverageChainLength = 1"

definition lh_new :: "mem_env \<Rightarrow> ('d \<Rightarrow> u32) \<Rightarrow> ('d \<Rightarrow> 'd \<Rightarrow> int) \<Rightarrow> 'd lhash_st option" where
  "lh_new env hash cmp =
     (if OPENSSL_malloc env 48 = None then None
      else if OPENSSL_malloc env (8 * kMinNumBuckets) = None then None
      else Some \<lparr>num_items = 0, buckets = replicate kMinNumBuckets [], num_buckets = kMinNumBuckets,
        callback_depth = 0, lh_comp = cmp, lh_hash = hash\<rparr>)"

definition lh_num_items :: "'d lhash_st \<Rightarrow> nat" where
  "lh_num_items lh = num_items lh"

text \<open>The walk along a chain up to the first item that matches.\<close>

fun chain_pos :: "('d \<Rightarrow> bool) \<Rightarrow> 'd lhash_item_st list \<Rightarrow> nat" where
  "chain_pos P [] = 0"
| "chain_pos P (cur # chain) = (if P (item_data cur) then 0 else Suc (chain_pos P chain))"

definition get_next_ptr_and_hash :: "'d lhash_st \<Rightarrow> 'd \<Rightarrow> u32 \<times> nat \<times> nat" where
  "get_next_ptr_and_hash lh data =
     (let hash = lh_hash lh data;
          b = unat hash mod num_buckets lh
      in (hash, b, chain_pos (\<lambda>d. lh_comp lh d data = 0) (buckets lh ! b)))"

definition get_next_ptr_by_key :: "'d lhash_st \<Rightarrow> 'k \<Rightarrow> u32 \<Rightarrow> ('k \<Rightarrow> 'd \<Rightarrow> int) \<Rightarrow> nat \<times> nat" where
  "get_next_ptr_by_key lh key key_hash cmp_key =
     (let b = unat key_hash mod num_buckets lh
      in (b, chain_pos (\<lambda>d. cmp_key key d = 0) (buckets lh ! b)))"

text \<open>\<open>*next_ptr == NULL ? NULL : (*next_ptr)->data\<close>\<close>

definition item_at :: "'d lhash_st \<Rightarrow> nat \<Rightarrow> nat \<Rightarrow> 'd option" where
  "item_at lh b pos = (if pos < length (buckets lh ! b) then Some (item_data (buckets lh ! b ! pos)) else None)"

definition lh_retrieve :: "'d lhash_st \<Rightarrow> 'd \<Rightarrow> 'd option" where
  "lh_retrieve lh data = (let (_, b, pos) = get_next_ptr_and_hash lh data in item_at lh b pos)"

definition lh_retrieve_key :: "'d lhash_st \<Rightarrow> 'k \<Rightarrow> u32 \<Rightarrow> ('k \<Rightarrow> 'd \<Rightarrow> int) \<Rightarrow> 'd option" where
  "lh_retrieve_key lh key key_hash cmp_key =
     (let (b, pos) = get_next_ptr_by_key lh key key_hash cmp_key in item_at lh b pos)"

definition move_item :: "nat \<Rightarrow> 'd lhash_item_st \<Rightarrow> 'd lhash_item_st list list \<Rightarrow> 'd lhash_item_st list list" where
  "move_item new_num_buckets cur new_buckets =
     (let new_bucket = unat (item_hash cur) mod new_num_buckets
      in new_buckets[new_bucket := cur # new_buckets ! new_bucket])"

definition lh_rebucket :: "mem_env \<Rightarrow> 'd lhash_st \<Rightarrow> nat \<Rightarrow> 'd lhash_st" where
  "lh_rebucket env lh new_num_buckets =
     (let alloc_size = size_mul 8 new_num_buckets
      in if alloc_size div 8 \<noteq> new_num_buckets then lh
         else if OPENSSL_malloc env alloc_size = None then lh
         else lh\<lparr>num_buckets := new_num_buckets,
           buckets := fold (fold (move_item new_num_buckets)) (buckets lh) (replicate new_num_buckets [])\<rparr>)"

definition lh_maybe_resize :: "mem_env \<Rightarrow> 'd lhash_st \<Rightarrow> 'd lhash_st" where
  "lh_maybe_resize env lh =
     (if callback_depth lh > 0 then lh
      else
        let avg_chain_length = num_items lh div num_buckets lh
        in if avg_chain_length > kMaxAverageChainLength
           then let new_num_buckets = size_mul (num_buckets lh) 2
                in if new_num_buckets > num_buckets lh then lh_rebucket env lh new_num_buckets else lh
           else if avg_chain_length < kMinAverageChainLength \<and> num_buckets lh > kMinNumBuckets
           then let new_num_buckets = num_buckets lh div 2;
                    new_num_buckets =
                      (if new_num_buckets < kMinNumBuckets then kMinNumBuckets else new_num_buckets)
                in lh_rebucket env lh new_num_buckets
           else lh)"

text \<open>The return value, \<open>*old_data\<close> and the table.\<close>

definition lh_insert :: "mem_env \<Rightarrow> 'd lhash_st \<Rightarrow> 'd \<Rightarrow> bool \<times> 'd option \<times> 'd lhash_st" where
  "lh_insert env lh data =
     (let (hash, b, pos) = get_next_ptr_and_hash lh data
      in case item_at lh b pos of
           Some old \<Rightarrow>
             (True, Some old,
              lh\<lparr>buckets := (buckets lh)[b := (buckets lh ! b)[pos := (buckets lh ! b ! pos)\<lparr>item_data := data\<rparr>]]\<rparr>)
         | None \<Rightarrow>
             if OPENSSL_malloc env 24 = None then (False, None, lh)
             else
               (True, None,
                lh_maybe_resize env
                  (lh\<lparr>buckets := (buckets lh)[b := buckets lh ! b @ [\<lparr>item_data = data, item_hash = hash\<rparr>]],
                     num_items := num_items lh + 1\<rparr>)))"

definition lh_delete :: "mem_env \<Rightarrow> 'd lhash_st \<Rightarrow> 'd \<Rightarrow> 'd option \<times> 'd lhash_st" where
  "lh_delete env lh data =
     (let (_, b, pos) = get_next_ptr_and_hash lh data
      in case item_at lh b pos of
           None \<Rightarrow> (None, lh)
         | Some ret \<Rightarrow>
             (Some ret,
              lh_maybe_resize env
                (lh\<lparr>buckets := (buckets lh)[b := take pos (buckets lh ! b) @ drop (pos + 1) (buckets lh ! b)],
                   num_items := num_items lh - 1\<rparr>)))"

definition lh_doall_arg :: "mem_env \<Rightarrow> 'd lhash_st \<Rightarrow> ('d \<Rightarrow> 'a \<Rightarrow> 'a) \<Rightarrow> 'a \<Rightarrow> 'a \<times> 'd lhash_st" where
  "lh_doall_arg env lh func arg =
     (let lh = (if callback_depth lh < - 1 then lh\<lparr>callback_depth := callback_depth lh + 1\<rparr> else lh);
          arg = fold (fold (\<lambda>cur. func (item_data cur))) (buckets lh) arg;
          lh = (if callback_depth lh < - 1 then lh\<lparr>callback_depth := callback_depth lh - 1\<rparr> else lh)
      in (arg, lh_maybe_resize env lh))"

text \<open>\<^const>\<open>None\<close> is a \<open>NULL\<close> string. The string ends at its first zero byte.\<close>

fun lh_strhash :: "bytes option \<Rightarrow> u32" where
  "lh_strhash None = 0"
| "lh_strhash (Some c) = OPENSSL_hash32 c (length (takeWhile (\<lambda>b. b \<noteq> 0) c))"

end
