(* ===== verification/LHash_Spec.thy ===== *)
theory LHash_Spec
  imports LHash
begin

text \<open>
  What \<open>lhash.c\<close> promises: with a comparison that is an equivalence and a hash that respects
  it, the table is a finite map from the classes of equal elements, whatever the resizing does.
\<close>

section \<open>The table as a multiset of elements\<close>

text \<open>What a client of the table must give it: \<open>lhash_cmp_func\<close> and \<open>lhash_hash_func\<close> agree.\<close>

locale hash_key =
  fixes cmp :: "'d \<Rightarrow> 'd \<Rightarrow> int" and hash :: "'d \<Rightarrow> u32"
  assumes refl: "cmp x x = 0"
    and sym: "cmp x y = 0 \<Longrightarrow> cmp y x = 0"
    and trans: "cmp x y = 0 \<Longrightarrow> cmp y z = 0 \<Longrightarrow> cmp x z = 0"
    and hash: "cmp x y = 0 \<Longrightarrow> hash x = hash y"

definition chain_items :: "'d lhash_item_st list \<Rightarrow> 'd multiset" where
  "chain_items c = mset (map item_data c)"

definition bucket_items :: "'d lhash_item_st list list \<Rightarrow> 'd multiset" where
  "bucket_items bs = sum_list (map chain_items bs)"

definition lh_items :: "'d lhash_st \<Rightarrow> 'd multiset" where
  "lh_items lh = bucket_items (buckets lh)"

lemma chain_items_simps [simp]:
  "chain_items [] = {#}" "chain_items (x # c) = add_mset (item_data x) (chain_items c)"
  "chain_items (c @ c') = chain_items c + chain_items c'"
  by (simp_all add: chain_items_def)

lemma bucket_items_update:
  "b < length bs \<Longrightarrow> bucket_items (bs[b := c]) + chain_items (bs ! b) = bucket_items bs + chain_items c"
proof (induction bs arbitrary: b)
  case (Cons x bs)
  then show ?case by (cases b) (auto simp: bucket_items_def algebra_simps)
qed simp

lemma bucket_items_replicate [simp]: "bucket_items (replicate n []) = {#}"
  by (induction n) (auto simp: bucket_items_def)

lemma in_bucket_items: "d \<in># bucket_items bs \<longleftrightarrow> (\<exists>b < length bs. d \<in># chain_items (bs ! b))"
  by (induction bs) (auto simp: bucket_items_def nth_Cons' less_Suc_eq_0_disj)

text \<open>Every item is in the bucket of its hash value.\<close>

definition placed :: "('d \<Rightarrow> u32) \<Rightarrow> 'd lhash_item_st list list \<Rightarrow> nat \<Rightarrow> bool" where
  "placed hash bs n =
     (length bs = n \<and>
      (\<forall>b < n. \<forall>it \<in> set (bs ! b). item_hash it = hash (item_data it) \<and> unat (item_hash it) mod n = b))"

lemma placed_at:
  "placed hash bs n \<Longrightarrow> b < n \<Longrightarrow> it \<in> set (bs ! b) \<Longrightarrow> item_hash it = hash (item_data it) \<and> unat (item_hash it) mod n = b"
  unfolding placed_def by blast

lemma placed_update:
  assumes "placed hash bs n"
    and "\<And>it. it \<in> set c \<Longrightarrow> item_hash it = hash (item_data it) \<and> unat (item_hash it) mod n = b"
  shows "placed hash (bs[b := c]) n"
  unfolding placed_def
proof (intro conjI allI impI ballI)
  show "length (bs[b := c]) = n" using assms(1) by (simp add: placed_def)
  fix b' it assume "b' < n" "it \<in> set (bs[b := c] ! b')"
  then have "it \<in> set c \<and> b' = b \<or> it \<in> set (bs ! b')"
    using assms(1) by (cases "b' = b") (auto simp: placed_def)
  then have "item_hash it = hash (item_data it) \<and> unat (item_hash it) mod n = b'"
    using assms(2) placed_at [OF assms(1) \<open>b' < n\<close>] by blast
  then show "item_hash it = hash (item_data it)" "unat (item_hash it) mod n = b'" by blast+
qed

text \<open>At most one element of each class.\<close>

definition one_each :: "('d \<Rightarrow> 'd \<Rightarrow> int) \<Rightarrow> 'd multiset \<Rightarrow> bool" where
  "one_each cmp M = (\<forall>x. size (filter_mset (\<lambda>d. cmp d x = 0) M) \<le> 1)"

definition wf_lhash :: "('d \<Rightarrow> 'd \<Rightarrow> int) \<Rightarrow> ('d \<Rightarrow> u32) \<Rightarrow> 'd lhash_st \<Rightarrow> bool" where
  "wf_lhash cmp hash lh =
     (lh_comp lh = cmp \<and> lh_hash lh = hash \<and> kMinNumBuckets \<le> num_buckets lh \<and>
      placed hash (buckets lh) (num_buckets lh) \<and> num_items lh = size (lh_items lh) \<and> one_each cmp (lh_items lh))"

lemma lh_new_wf:
  assumes "lh_new env hash cmp = Some lh"
  shows "wf_lhash cmp hash lh" "lh_items lh = {#}"
  using assms by (auto simp: lh_new_def wf_lhash_def placed_def one_each_def lh_items_def split: if_splits)

lemma chain_pos_props:
  "chain_pos P c \<le> length c"
  "chain_pos P c < length c \<Longrightarrow> P (item_data (c ! chain_pos P c))"
  "chain_pos P c = length c \<longleftrightarrow> (\<forall>d \<in># chain_items c. \<not> P d)"
  by (induction c) auto

section \<open>Resizing\<close>

lemma move_item_keeps:
  assumes "placed hash bs n" and "0 < n" and "item_hash cur = hash (item_data cur)"
  shows "placed hash (move_item n cur bs) n \<and>
    bucket_items (move_item n cur bs) = add_mset (item_data cur) (bucket_items bs)"
proof -
  let ?b = "unat (item_hash cur) mod n"
  have b: "?b < length bs" using assms(1,2) by (simp add: placed_def)
  have "placed hash (move_item n cur bs) n"
    unfolding move_item_def Let_def
  proof (rule placed_update [OF assms(1)])
    fix it assume "it \<in> set (cur # bs ! ?b)"
    then consider "it = cur" | "it \<in> set (bs ! ?b)" by auto
    then show "item_hash it = hash (item_data it) \<and> unat (item_hash it) mod n = ?b"
    proof cases
      case 1
      then show ?thesis using assms(3) by simp
    next
      case 2
      moreover have "?b < n" using assms(2) by simp
      ultimately show ?thesis using placed_at [OF assms(1)] by blast
    qed
  qed
  moreover have "bucket_items (move_item n cur bs) = add_mset (item_data cur) (bucket_items bs)"
    using bucket_items_update [OF b, of "cur # bs ! ?b"] by (simp add: move_item_def Let_def)
  ultimately show ?thesis ..
qed

lemma move_chain_keeps:
  assumes "placed hash bs n" and "0 < n" and "\<forall>it \<in> set c. item_hash it = hash (item_data it)"
  shows "placed hash (fold (move_item n) c bs) n \<and>
    bucket_items (fold (move_item n) c bs) = chain_items c + bucket_items bs"
  using assms(1,3)
proof (induction c arbitrary: bs)
  case (Cons cur c)
  with move_item_keeps [OF Cons.prems(1) assms(2), of cur] show ?case by auto
qed simp

lemma move_buckets_keeps:
  assumes "placed hash new n" and "0 < n" and "\<forall>c \<in> set bs. \<forall>it \<in> set c. item_hash it = hash (item_data it)"
  shows "placed hash (fold (fold (move_item n)) bs new) n \<and>
    bucket_items (fold (fold (move_item n)) bs new) = bucket_items bs + bucket_items new"
  using assms(1,3)
proof (induction bs arbitrary: new)
  case (Cons c bs)
  with move_chain_keeps [OF Cons.prems(1) assms(2), of c] show ?case by (auto simp: bucket_items_def algebra_simps)
qed (simp add: bucket_items_def)

lemma lh_rebucket_keeps:
  assumes "wf_lhash cmp hash lh" and "kMinNumBuckets \<le> n"
  shows "wf_lhash cmp hash (lh_rebucket env lh n) \<and> lh_items (lh_rebucket env lh n) = lh_items lh"
proof -
  have "\<forall>c \<in> set (buckets lh). \<forall>it \<in> set c. item_hash it = hash (item_data it)"
    using assms(1) by (auto simp: wf_lhash_def placed_def set_conv_nth)
  moreover have n: "0 < n" using assms(2) by (simp add: kMinNumBuckets_def)
  moreover have "placed hash (replicate n []) n" by (simp add: placed_def)
  ultimately have "placed hash (fold (fold (move_item n)) (buckets lh) (replicate n [])) n \<and>
    bucket_items (fold (fold (move_item n)) (buckets lh) (replicate n [])) = bucket_items (buckets lh)"
    using move_buckets_keeps [of hash "replicate n []" n "buckets lh"] by simp
  with assms show ?thesis by (auto simp: lh_rebucket_def Let_def wf_lhash_def lh_items_def)
qed

lemma lh_maybe_resize_keeps:
  assumes "wf_lhash cmp hash lh"
  shows "wf_lhash cmp hash (lh_maybe_resize env lh) \<and> lh_items (lh_maybe_resize env lh) = lh_items lh"
proof -
  have m: "kMinNumBuckets \<le> num_buckets lh" using assms by (simp add: wf_lhash_def)
  show ?thesis
    using assms m lh_rebucket_keeps [OF assms] by (auto simp: lh_maybe_resize_def Let_def)
qed

section \<open>Finding, inserting and deleting\<close>

definition found :: "('d \<Rightarrow> 'd \<Rightarrow> int) \<Rightarrow> 'd multiset \<Rightarrow> 'd \<Rightarrow> 'd option \<Rightarrow> bool" where
  "found cmp M x r = (case r of None \<Rightarrow> \<forall>d \<in># M. cmp d x \<noteq> 0 | Some d \<Rightarrow> d \<in># M \<and> cmp d x = 0)"

text \<open>The elements after an insertion and after a deletion.\<close>

definition without :: "'d multiset \<Rightarrow> 'd option \<Rightarrow> 'd multiset" where
  "without M r = (case r of None \<Rightarrow> M | Some d \<Rightarrow> M - {#d#})"

lemma found_unique:
  assumes "one_each cmp M" and "found cmp M x r" and "found cmp M x r'"
  shows "r = r'"
proof (cases r; cases r')
  fix d d' assume r: "r = Some d" "r' = Some d'"
  let ?F = "filter_mset (\<lambda>d. cmp d x = 0) M"
  have mem: "d \<in># ?F" "d' \<in># ?F" using assms(2,3) r by (auto simp: found_def)
  then have "size ?F \<noteq> 0" by auto
  moreover have "size ?F \<le> 1" using assms(1) by (simp add: one_each_def)
  ultimately have "size ?F = 1" by linarith
  then obtain e where "?F = {#e#}" by (rule size_1_singleton_mset [THEN exE])
  with mem r show "r = r'" by simp
qed (use assms(2,3) in \<open>auto simp: found_def\<close>)

lemma found_find: "found cmp (mset ds) x (find (\<lambda>d. cmp d x = 0) ds)"
  by (induction ds) (auto simp: found_def split: option.splits)

lemma mset_exchange:
  fixes A :: "'a multiset"
  assumes "A + C = B + C'" and "C' + D = C + X"
  shows "A + D = B + X"
proof -
  have "A + D + C = A + C + D" by (simp only: ac_simps)
  also have "\<dots> = B + (C' + D)" by (simp only: assms(1) add.assoc)
  also have "\<dots> = B + X + C" by (simp only: assms(2) ac_simps)
  finally show ?thesis by simp
qed

lemma wf_lhashD:
  assumes "wf_lhash cmp hash lh"
  shows "lh_comp lh = cmp" "lh_hash lh = hash" "placed hash (buckets lh) (num_buckets lh)"
    "num_items lh = size (lh_items lh)" "one_each cmp (lh_items lh)" "length (buckets lh) = num_buckets lh"
    "0 < num_buckets lh"
proof -
  have w: "lh_comp lh = cmp \<and> lh_hash lh = hash \<and> kMinNumBuckets \<le> num_buckets lh \<and>
    placed hash (buckets lh) (num_buckets lh) \<and> num_items lh = size (lh_items lh) \<and> one_each cmp (lh_items lh)"
    using assms unfolding wf_lhash_def .
  then show "lh_comp lh = cmp" "lh_hash lh = hash" "placed hash (buckets lh) (num_buckets lh)"
    "num_items lh = size (lh_items lh)" "one_each cmp (lh_items lh)" by blast+
  then show "length (buckets lh) = num_buckets lh" unfolding placed_def by blast
  have "kMinNumBuckets \<le> num_buckets lh" using w by blast
  then show "0 < num_buckets lh" by (simp add: kMinNumBuckets_def)
qed

context hash_key
begin

lemma one_each_without: 
  assumes "one_each cmp M"
  shows "one_each cmp (without M r)"
  unfolding one_each_def
proof
  fix x
  have "without M r \<subseteq># M" by (simp add: without_def split: option.splits)
  then have "size {#d \<in># without M r. cmp d x = 0#} \<le> size {#d \<in># M. cmp d x = 0#}"
    by (intro size_mset_mono multiset_filter_mono)
  also have "\<dots> \<le> 1" using assms by (simp add: one_each_def)
  finally show "size {#d \<in># without M r. cmp d x = 0#} \<le> 1" .
qed

lemma without_none:
  assumes "one_each cmp M" and "found cmp M x r" and "d \<in># without M r"
  shows "cmp d x \<noteq> 0"
proof
  assume eq: "cmp d x = 0"
  obtain e where e: "r = Some e" "e \<in># M" "cmp e x = 0"
    using assms(2,3) eq by (auto simp: found_def without_def split: option.splits)
  obtain N where N: "M = add_mset e N" "d \<in># N"
    using assms(3) e multi_member_split [OF e(2)] by (auto simp: without_def)
  then obtain N' where "M = add_mset e (add_mset d N')" using multi_member_split [of d N] by auto
  then have "size {#d \<in># M. cmp d x = 0#} > 1" using eq e(3) by simp
  with assms(1) show False by (simp add: one_each_def not_le [symmetric])
qed

lemma one_each_insert:
  assumes "one_each cmp M" and "found cmp M x r"
  shows "one_each cmp (add_mset x (without M r))"
  unfolding one_each_def
proof
  fix y
  show "size (filter_mset (\<lambda>d. cmp d y = 0) (add_mset x (without M r))) \<le> 1"
  proof (cases "cmp x y = 0")
    case True
    have "cmp d y \<noteq> 0" if "d \<in># without M r" for d
      using without_none [OF assms that] trans [of d y x] sym True by blast
    then have "filter_mset (\<lambda>d. cmp d y = 0) (without M r) = {#}" by (auto simp: multiset_eq_iff count_eq_zero_iff) 
    then show ?thesis using True by simp
  next
    case False
    then show ?thesis using one_each_without [OF assms(1)] by (simp add: one_each_def)
  qed
qed

lemma next_ptr:
  assumes "wf_lhash cmp hash lh" and "get_next_ptr_and_hash lh x = (h, b, pos)"
  shows "h = hash x" "b = unat h mod num_buckets lh" "b < length (buckets lh)" "pos \<le> length (buckets lh ! b)"
    "found cmp (lh_items lh) x (item_at lh b pos)"
proof -
  have n: "0 < num_buckets lh" "length (buckets lh) = num_buckets lh"
    using wf_lhashD [OF assms(1)] by simp_all
  show hb: "h = hash x" "b = unat h mod num_buckets lh" and b: "b < length (buckets lh)"
    using assms(2) n wf_lhashD [OF assms(1)] by (auto simp: get_next_ptr_and_hash_def Let_def)
  let ?c = "buckets lh ! b"
  have pos: "pos = chain_pos (\<lambda>d. cmp d x = 0) ?c"
    using assms(2) wf_lhashD [OF assms(1)] by (auto simp: get_next_ptr_and_hash_def Let_def)
  then show le: "pos \<le> length ?c" by (simp add: chain_pos_props)
  show "found cmp (lh_items lh) x (item_at lh b pos)"
  proof (cases "pos < length ?c")
    case True
    then have "cmp (item_data (?c ! pos)) x = 0" using chain_pos_props(2) [of "\<lambda>d. cmp d x = 0" ?c] pos by simp
    moreover have "item_data (?c ! pos) \<in># lh_items lh"
      using True b by (auto simp: lh_items_def in_bucket_items chain_items_def)
    ultimately show ?thesis using True by (simp add: found_def item_at_def)
  next
    case False
    then have none: "\<forall>d \<in># chain_items ?c. cmp d x \<noteq> 0" using le pos chain_pos_props(3) by (metis (mono_tags, lifting) le_neq_implies_less)
    have "cmp d x \<noteq> 0" if "d \<in># lh_items lh" for d
    proof
      assume eq: "cmp d x = 0"
      obtain i it where it: "i < num_buckets lh" "it \<in> set (buckets lh ! i)" "d = item_data it"
        using \<open>d \<in># lh_items lh\<close> n by (auto simp: lh_items_def in_bucket_items chain_items_def)
      then have "unat (hash d) mod num_buckets lh = i"
        using placed_at [OF wf_lhashD(3) [OF assms(1)] it(1,2)] it(3) by metis
      then have "i = b" using hash [OF eq] hb by simp
      with it none eq show False by (auto simp: chain_items_def)
    qed
    with False show ?thesis by (simp add: found_def item_at_def)
  qed
qed

lemma retrieve:
  assumes "wf_lhash cmp hash lh"
  shows "found cmp (lh_items lh) x (lh_retrieve lh x)"
  using next_ptr(5) [OF assms] by (cases "get_next_ptr_and_hash lh x") (auto simp: lh_retrieve_def)


lemma insert:
  assumes "wf_lhash cmp hash lh" and "lh_insert env lh x = (ok, old, lh')"
  shows "found cmp (lh_items lh) x old \<and>
    (ok \<and> wf_lhash cmp hash lh' \<and> lh_items lh' = add_mset x (without (lh_items lh) old) \<or>
     \<not> ok \<and> old = None \<and> lh' = lh \<and> OPENSSL_malloc env 24 = None)"
proof -
  obtain h b pos where g: "get_next_ptr_and_hash lh x = (h, b, pos)" by (metis prod_cases3)
  note p = next_ptr [OF assms(1) g]
  have one: "one_each cmp (lh_items lh)" and placed: "placed hash (buckets lh) (num_buckets lh)"
    and num: "num_items lh = size (lh_items lh)" and n: "b < num_buckets lh"
    using wf_lhashD [OF assms(1)] p(3) by simp_all
  let ?c = "buckets lh ! b"
  show ?thesis
  proof (cases "item_at lh b pos")
    case (Some d)
    then have pos: "pos < length ?c" "item_data (?c ! pos) = d" by (auto simp: item_at_def split: if_splits)
    let ?c' = "?c[pos := (?c ! pos)\<lparr>item_data := x\<rparr>]"
    have res: "ok" "old = Some d" "lh' = lh\<lparr>buckets := (buckets lh)[b := ?c']\<rparr>"
      using assms(2) g Some by (auto simp: lh_insert_def)
    have eq: "hash d = hash x" using p(5) hash by (auto simp: found_def Some)
    have "chain_items ?c' + {#d#} = chain_items ?c + {#x#}"
      using pos mset_update [of pos "map item_data ?c" x] nth_mem_mset [of pos "map item_data ?c"]
      by (simp add: chain_items_def map_update)
    then have "bucket_items ((buckets lh)[b := ?c']) + {#d#} = bucket_items (buckets lh) + {#x#}"
      by (rule mset_exchange [OF bucket_items_update [OF p(3), of ?c']])
    moreover obtain N where N: "lh_items lh = add_mset d N"
      using p(5) multi_member_split [of d "lh_items lh"] by (auto simp: found_def Some)
    ultimately have items: "lh_items lh' = add_mset x (without (lh_items lh) old)"
      by (simp add: res lh_items_def without_def)
    have "placed hash (buckets lh') (num_buckets lh')"
      unfolding res(3)
    proof (simp, rule placed_update [OF placed])
      fix it assume "it \<in> set ?c'"
      then have "it = (?c ! pos)\<lparr>item_data := x\<rparr> \<or> it \<in> set ?c" using set_update_subset_insert by fastforce
      moreover have "?c ! pos \<in> set ?c" using pos by simp
      from placed_at [OF placed n this] have "item_hash (?c ! pos) = hash x" "unat (item_hash (?c ! pos)) mod num_buckets lh = b"
        unfolding pos(2) eq by blast+
      then have "item_hash ((?c ! pos)\<lparr>item_data := x\<rparr>) = hash (item_data ((?c ! pos)\<lparr>item_data := x\<rparr>)) \<and>
          unat (item_hash ((?c ! pos)\<lparr>item_data := x\<rparr>)) mod num_buckets lh = b" by simp
      ultimately show "item_hash it = hash (item_data it) \<and> unat (item_hash it) mod num_buckets lh = b"
        using placed_at [OF placed n, of it] by blast
    qed
    moreover have "one_each cmp (lh_items lh')" unfolding items using one_each_insert [OF one] p(5) res(2) Some by simp
    moreover have "size (lh_items lh') = num_items lh'"
      using N num unfolding items by (simp add: res without_def)
    ultimately have "wf_lhash cmp hash lh'" using assms(1) by (simp add: wf_lhash_def res(3))
    with items p(5) res Some show ?thesis by simp
  next
    case None
    note none = this
    let ?new = "\<lparr>item_data = x, item_hash = h\<rparr>"
    let ?lh = "lh\<lparr>buckets := (buckets lh)[b := ?c @ [?new]], num_items := num_items lh + 1\<rparr>"
    show ?thesis
    proof (cases "OPENSSL_malloc env 24 = None")
      case True
      then show ?thesis using assms(2) g None p(5) by (simp add: lh_insert_def)
    next
      case False
      have res: "ok" "old = None" "lh' = lh_maybe_resize env ?lh"
        using assms(2) g None False by (simp_all add: lh_insert_def)
      have "bucket_items ((buckets lh)[b := ?c @ [?new]]) + {#} = bucket_items (buckets lh) + {#x#}"
        by (rule mset_exchange [OF bucket_items_update [OF p(3)]]) simp
      then have items: "lh_items ?lh = add_mset x (lh_items lh)" by (simp add: lh_items_def)
      have "placed hash (buckets ?lh) (num_buckets ?lh)"
      proof (simp, rule placed_update [OF placed])
        fix it assume "it \<in> set (?c @ [?new])"
        then consider "it \<in> set ?c" | "it = ?new" by auto
        then show "item_hash it = hash (item_data it) \<and> unat (item_hash it) mod num_buckets lh = b"
        proof cases
          case 1
          then show ?thesis by (rule placed_at [OF placed n])
        next
          case 2
          then show ?thesis using p(1,2) by simp
        qed
      qed
      moreover have "one_each cmp (lh_items ?lh)"
        unfolding items using one_each_insert [OF one p(5)] none by (simp add: without_def)
      ultimately have "wf_lhash cmp hash ?lh" using assms(1) num items by (simp add: wf_lhash_def)
      from lh_maybe_resize_keeps [OF this, of env] items res p(5) none show ?thesis by (simp add: without_def)
    qed
  qed
qed

lemma delete:
  assumes "wf_lhash cmp hash lh" and "lh_delete env lh x = (old, lh')"
  shows "found cmp (lh_items lh) x old \<and> wf_lhash cmp hash lh' \<and> lh_items lh' = without (lh_items lh) old"
proof -
  obtain h b pos where g: "get_next_ptr_and_hash lh x = (h, b, pos)" by (metis prod_cases3)
  note p = next_ptr [OF assms(1) g]
  have one: "one_each cmp (lh_items lh)" and placed: "placed hash (buckets lh) (num_buckets lh)"
    and num: "num_items lh = size (lh_items lh)" and n: "b < num_buckets lh"
    using wf_lhashD [OF assms(1)] p(3) by simp_all
  let ?c = "buckets lh ! b"
  show ?thesis
  proof (cases "item_at lh b pos")
    case None
    with assms g p(5) show ?thesis by (simp add: lh_delete_def without_def)
  next
    case (Some d)
    then have pos: "pos < length ?c" "item_data (?c ! pos) = d" by (auto simp: item_at_def split: if_splits)
    let ?c' = "take pos ?c @ drop (pos + 1) ?c"
    let ?lh = "lh\<lparr>buckets := (buckets lh)[b := ?c'], num_items := num_items lh - 1\<rparr>"
    have res: "old = Some d" "lh' = lh_maybe_resize env ?lh"
      using assms(2) g Some by (simp_all add: lh_delete_def)
    have "?c = take pos ?c @ ?c ! pos # drop (pos + 1) ?c" using pos(1) by (simp add: id_take_nth_drop)
    then have "chain_items ?c = chain_items (take pos ?c @ ?c ! pos # drop (pos + 1) ?c)" by simp
    then have "chain_items ?c' + {#d#} = chain_items ?c + {#}" using pos(2) by simp
    then have "bucket_items ((buckets lh)[b := ?c']) + {#d#} = bucket_items (buckets lh) + {#}"
      by (rule mset_exchange [OF bucket_items_update [OF p(3), of ?c']])
    then have items: "lh_items lh = add_mset d (lh_items ?lh)" by (simp add: lh_items_def)
    then have w: "lh_items ?lh = without (lh_items lh) old" by (simp add: res without_def)
    have "placed hash (buckets ?lh) (num_buckets ?lh)"
    proof (simp, rule placed_update [OF placed])
      fix it assume "it \<in> set (take pos ?c @ drop (Suc pos) ?c)"
      then have "it \<in> set ?c" by (auto dest: in_set_takeD in_set_dropD)
      then show "item_hash it = hash (item_data it) \<and> unat (item_hash it) mod num_buckets lh = b"
        by (rule placed_at [OF placed n])
    qed
    moreover have "one_each cmp (lh_items ?lh)" unfolding w by (rule one_each_without [OF one])
    moreover have "num_items ?lh = size (lh_items ?lh)" using num items by simp
    ultimately have "wf_lhash cmp hash ?lh" using assms(1) by (simp add: wf_lhash_def)
    from lh_maybe_resize_keeps [OF this, of env] w res p(5) Some show ?thesis by simp
  qed
qed

end


section \<open>The table as a map\<close>

text \<open>Programs over a table, with what each call returns: the old, deleted or found element.\<close>

datatype 'd lh_op = Insert 'd | Delete 'd | Retrieve 'd

fun run_table :: "mem_env \<Rightarrow> 'd lh_op list \<Rightarrow> 'd lhash_st \<Rightarrow> 'd option list" where
  "run_table env [] lh = []"
| "run_table env (Insert x # ops) lh = (case lh_insert env lh x of (_, old, lh) \<Rightarrow> old # run_table env ops lh)"
| "run_table env (Delete x # ops) lh = (case lh_delete env lh x of (old, lh) \<Rightarrow> old # run_table env ops lh)"
| "run_table env (Retrieve x # ops) lh = lh_retrieve lh x # run_table env ops lh"

text \<open>The reference: a list without two equal elements.\<close>

fun run_list :: "('d \<Rightarrow> 'd \<Rightarrow> int) \<Rightarrow> 'd lh_op list \<Rightarrow> 'd list \<Rightarrow> 'd option list" where
  "run_list cmp [] ds = []"
| "run_list cmp (Insert x # ops) ds =
     find (\<lambda>d. cmp d x = 0) ds # run_list cmp ops (x # filter (\<lambda>d. cmp d x \<noteq> 0) ds)"
| "run_list cmp (Delete x # ops) ds =
     find (\<lambda>d. cmp d x = 0) ds # run_list cmp ops (filter (\<lambda>d. cmp d x \<noteq> 0) ds)"
| "run_list cmp (Retrieve x # ops) ds = find (\<lambda>d. cmp d x = 0) ds # run_list cmp ops ds"

context hash_key
begin

lemma mset_without:
  assumes "one_each cmp (mset ds)"
  shows "mset (filter (\<lambda>d. cmp d x \<noteq> 0) ds) = without (mset ds) (find (\<lambda>d. cmp d x = 0) ds)"
proof -
  let ?r = "find (\<lambda>d. cmp d x = 0) ds" and ?P = "\<lambda>d. cmp d x \<noteq> 0"
  have "filter_mset ?P (without (mset ds) ?r) = without (mset ds) ?r"
  proof (rule multiset_eqI)
    fix a
    show "count (filter_mset ?P (without (mset ds) ?r)) a = count (without (mset ds) ?r) a"
      using without_none [OF assms found_find, of a x] by (cases "cmp a x = 0") (auto simp: count_eq_zero_iff)
  qed
  moreover have "filter_mset ?P (without (mset ds) ?r) = filter_mset ?P (mset ds)"
    using found_find [of cmp ds x] by (auto simp: without_def found_def split: option.splits)
  ultimately show ?thesis by (simp add: mset_filter)
qed

lemma program:
  assumes "wf_lhash cmp hash lh" and "OPENSSL_malloc env 24 \<noteq> None" and "lh_items lh = mset ds"
  shows "run_table env ops lh = run_list cmp ops ds"
  using assms(1,3)
proof (induction ops arbitrary: lh ds)
  case (Cons op ops)
  have one: "one_each cmp (mset ds)" using wf_lhashD(5) [OF Cons.prems(1)] Cons.prems(2) by simp
  note eq = found_unique [OF one _ found_find]
  show ?case
  proof (cases op)
    case (Insert x)
    obtain ok old lh' where i: "lh_insert env lh x = (ok, old, lh')" by (metis prod_cases3)
    from insert [OF Cons.prems(1) i] assms(2) Cons.prems(2)
    have r: "found cmp (mset ds) x old" "wf_lhash cmp hash lh'" "lh_items lh' = add_mset x (without (mset ds) old)" by auto
    have "lh_items lh' = mset (x # filter (\<lambda>d. cmp d x \<noteq> 0) ds)"
      by (simp only: r(3) eq [OF r(1)] mset.simps mset_without [OF one])
    from Cons.IH [OF r(2) this] eq [OF r(1)]
    show ?thesis by (simp only: Insert run_table.simps run_list.simps i prod.case)
  next
    case (Delete x)
    obtain old lh' where d: "lh_delete env lh x = (old, lh')" by fastforce
    from delete [OF Cons.prems(1) d] Cons.prems(2)
    have r: "found cmp (mset ds) x old" "wf_lhash cmp hash lh'" "lh_items lh' = without (mset ds) old" by auto
    have "lh_items lh' = mset (filter (\<lambda>d. cmp d x \<noteq> 0) ds)"
      by (simp only: r(3) eq [OF r(1)] mset_without [OF one])
    from Cons.IH [OF r(2) this] eq [OF r(1)]
    show ?thesis by (simp only: Delete run_table.simps run_list.simps d prod.case)
  next
    case (Retrieve x)
    have "found cmp (mset ds) x (lh_retrieve lh x)" using retrieve [OF Cons.prems(1), of x] Cons.prems(2) by simp
    from Cons.IH [OF Cons.prems] eq [OF this]
    show ?thesis by (simp only: Retrieve run_table.simps run_list.simps)
  qed
qed simp

end


text \<open>C strings with \<open>strcmp\<close> and \<open>lh_strhash\<close>, as the tables of names use them, meet the contract.\<close>

fun libc_strcmp :: "bytes \<Rightarrow> bytes \<Rightarrow> int" where
  "libc_strcmp (a # as) (b # bs) =
     (if a \<noteq> b then (if a < b then - 1 else 1) else if a = 0 then 0 else libc_strcmp as bs)"
| "libc_strcmp (a # as) [] = (if a = 0 then 0 else 1)"
| "libc_strcmp [] (b # bs) = (if b = 0 then 0 else - 1)"
| "libc_strcmp [] [] = 0"

definition c_string :: "bytes \<Rightarrow> bytes" where
  "c_string s = takeWhile (\<lambda>c. c \<noteq> 0) s"

lemma libc_strcmp_0: "libc_strcmp a b = 0 \<longleftrightarrow> c_string a = c_string b"
  by (induction a b rule: libc_strcmp.induct) (auto simp: c_string_def)

lemma OPENSSL_hash32_take: "n \<le> length s \<Longrightarrow> OPENSSL_hash32 s n = OPENSSL_hash32 (take n s) n"
  unfolding OPENSSL_hash32_def by (rule fold_cong) simp_all

lemma lh_strhash_string: "lh_strhash (Some s) = OPENSSL_hash32 (c_string s) (length (c_string s))"
proof -
  have "take (length (c_string s)) s = c_string s" by (simp add: c_string_def takeWhile_eq_take [symmetric])
  then show ?thesis
    using OPENSSL_hash32_take [of "length (c_string s)" s]
    by (simp add: c_string_def length_takeWhile_le)
qed

interpretation strings: hash_key libc_strcmp "\<lambda>s. lh_strhash (Some s)"
  by unfold_locales (simp_all only: libc_strcmp_0 lh_strhash_string)

section \<open>Properties\<close>

text \<open>C24: The hash table is a finite map: on a new table, every program of insertions, deletions and
  retrievals returns what the same program returns on a plain list without equal elements, for
  every comparison and hash function that agree with each other, and whatever resizing takes place or
  fails for lack of memory (the memory for single items is assumed).\<close>

theorem lhash_is_a_map:
  assumes "hash_key cmp hash" and "lh_new env hash cmp = Some lh" and "OPENSSL_malloc env 24 \<noteq> None"
  shows "run_table env ops lh = run_list cmp ops []"
  by (rule hash_key.program [OF assms(1) lh_new_wf(1) [OF assms(2)] assms(3)]) (simp add: lh_new_wf [OF assms(2)])

theorem lhash_is_a_map_witness:
  "\<exists>lh. lh_new roomy_env (\<lambda>s. lh_strhash (Some s)) libc_strcmp = Some lh \<and>
    run_table roomy_env [Insert [97, 0, 1], Insert [97, 0, 2], Retrieve [97], Delete [97, 0], Retrieve [97, 0]] lh =
      [None, Some [97, 0, 1], Some [97, 0, 2], Some [97, 0, 2], None]"
proof -
  have m: "OPENSSL_malloc roomy_env n \<noteq> None" if "n < 2 ^ 62" for n
    using that by (simp add: roomy_malloc PTRDIFF_LIMIT_def OPENSSL_MALLOC_PREFIX_def)
  then obtain lh where lh: "lh_new roomy_env (\<lambda>s. lh_strhash (Some s)) libc_strcmp = Some lh"
    by (auto simp: lh_new_def kMinNumBuckets_def)
  have l: "run_list libc_strcmp [Insert [97, 0, 1], Insert [97, 0, 2], Retrieve [97], Delete [97, 0], Retrieve [97, 0]] [] =
      [None, Some [97, 0, 1], Some [97, 0, 2], Some [97, 0, 2], None]" by simp
  have "run_table roomy_env ops lh = run_list libc_strcmp ops []" for ops
    by (rule lhash_is_a_map [OF strings.hash_key_axioms lh m]) simp
  from trans [OF this l] lh show ?thesis by (intro exI conjI)
qed




end
