(* ===== verification/Spec2Isabelle.thy ===== *)
theory Spec2Isabelle
  imports CBB_Safety BER Set_Of OID ASN1_Time MBString ASN1_String CBB_Programs Base64_Spec Stack_Spec LHash_Spec Unicode
begin

text \<open>
  \<^bold>\<open>The program.\<close> The repository is a notes application for iOS. Its own code is Swift; what it
  ships in C is the BoringSSL copy under \<open>ProductivityApp/Pods/BoringSSL-GRPC/src\<close>, which carries every
  connection to its database. This development models the layer of that library on which all the rest
  stands and through which all untrusted bytes enter: parsing and building of byte strings and DER, the
  older ASN.1 strings and times, base64, the containers. Paths below are relative to that directory.

  \<^bold>\<open>Parts, theories and sources.\<close> Definitions keep the names of the C functions; a loop or an inner
  block that needs a name of its own is called after its function.

  \<^item> \<open>Prelude\<close>: integer types, \<open>size_t\<close> with its wrap-around, the outcome of a function that
    returns 1 or 0 and updates its argument (\<open>and_then\<close> is \<open>if (!f(...)) return 0;\<close>), byte strings as numbers.
  \<^item> \<open>Mem\<close>: \<open>crypto/mem.c\<close> and the wrappers of \<open>crypto/internal.h\<close>. A \<open>mem_env\<close> says which
    allocations succeed and what fresh memory holds.
  \<^item> \<open>CBS\<close>, \<open>ASN1_Values\<close>: \<open>crypto/bytestring/cbs.c\<close>. A \<open>CBS\<close> is the memory from its pointer to the
    end of the object and its length field. \<open>DER\<close> is the specification of tags, lengths and elements and
    \<open>Readers\<close> the theorems about the getters.
  \<^item> \<open>CBB\<close>, \<open>CBB_ASN1\<close>: \<open>crypto/bytestring/cbb.c\<close>. The live \<open>CBB\<close>s of one builder are a chain of
    frames over one buffer; a \<open>CBB *\<close> is a depth in the chain. \<open>CBB_Spec\<close> gives the abstract state, the
    byte strings written at each level, and the contract of a call; \<open>CBB_Calls\<close> shows that every call meets
    it and \<open>CBB_Programs\<close> what sequences of successful calls do. \<open>Set_Of\<close> (sorting a \<open>SET OF\<close>) and \<open>OID\<close> (object
    identifiers as text, with the second half in \<open>cbs.c\<close>) complete the file; \<open>CBB_Safety\<close> lets all calls
    of the file, failed ones included, run in any order, and holds the memory-safety invariant.
  \<^item> \<open>BER\<close>: \<open>crypto/bytestring/ber.c\<close>, a client of parser and builder.
  \<^item> \<open>Unicode\<close>: \<open>crypto/bytestring/unicode.c\<close>. \<open>MBString\<close>: \<open>crypto/asn1/a_mbstr.c\<close>, a client of the
    readers of code points, the builder and \<open>ASN1_String\<close> (\<open>crypto/asn1/asn1_lib.c\<close>).
  \<^item> \<open>Calendar\<close>: \<open>crypto/asn1/time_support.c\<close>. \<open>ASN1_Time\<close>: \<open>a_utctm.c\<close>, \<open>a_gentm.c\<close> and \<open>a_time.c\<close> of
    \<open>crypto/asn1\<close>, clients of \<open>Calendar\<close> and \<open>ASN1_String\<close>.
  \<^item> \<open>Base64\<close> (with \<open>Base64_Spec\<close>): \<open>crypto/base64/base64.c\<close>, a client of \<open>Constant_Time\<close>
    (\<open>crypto/internal.h\<close>). \<open>Stack\<close> (\<open>Stack_Spec\<close>): \<open>crypto/stack/stack.c\<close>. \<open>LHash\<close> (\<open>LHash_Spec\<close>):
    \<open>crypto/lhash/lhash.c\<close>.

  \<^bold>\<open>Interfaces.\<close> \<open>reader\<close> and \<open>codec\<close> are the contracts of the getters: a getter stays inside its
  \<open>CBS\<close>; a codec accepts exactly the encodings of its values, so that no encoding is a prefix of
  another. \<open>builder_call\<close> and \<open>appender\<close> are those of the builder: a call refines an operation on the
  levels, records a failure, fails after one, and succeeds when the result fits the buffer. Code that runs
  over a builder (object identifiers, strings, BER, \<open>SET OF\<close>) is proved through \<open>builder_call\<close> alone.
  \<open>hash_key\<close> is what a client of the hash table must give it. All are interpreted on the definitions
  of the model. What the code takes from outside is an argument: the comparison functions, the
  callbacks, \<open>qsort\<close> (which sorts with every function that orders the elements of the array),
  \<open>gmtime_r\<close> and the allocator.

  \<^bold>\<open>What is shown.\<close>

  \<^item> Memory safety: whatever getters a program runs on a \<open>CBS\<close>, and whatever calls it makes on a builder,
    failed calls included, no access leaves the object (for a builder as long as no length of a buffer wraps
    around in \<open>OPENSSL_malloc\<close>); a stack always has a free slot; a base64 text of one call fills the
    buffer of its announced length exactly.
  \<^item> Exactness of parsing: elements, tags, INTEGERs, UTF-8, object identifiers and base64 are accepted
    in exactly their canonical form. The characters of Unicode and of a \<open>PrintableString\<close> are stated on
    their own, as the standards list them.
  \<^item> Refinement: programs over a builder compute the abstract levels; a \<open>SET OF\<close> is sorted; the conversion
    from BER follows the relation \<open>ber_der\<close> and yields DER only; streams of base64 equal the encoding of the
    whole; a hash table is a finite map; the search of a stack finds the first match; the day numbers are those of the
    Gregorian calendar.
  \<^item> Round trips: what the builder writes the parser reads; object identifiers, headers, times
    and base64 survive their text.
  \<^item> Errors: a builder with a recorded failure and a failed decoder stay failed; a failing deep copy frees what it
    made; a conversion fails only for the reasons stated.

  \<^bold>\<open>Bounds and termination.\<close> Integers have their C width; lengths are naturals on which every sum
  and product that the code checks is taken modulo $2^{64}$. No function carries fuel. Loops over a
  \<open>CBS\<close> end because every turn consumes input, also for lengths that are no valid \<open>CBS\<close>
  (\<open>any_element_consumes\<close>). The loops of \<open>ber.c\<close>, whose recursive calls leave the position for the next turn, are
  partial functions with a theorem that they return. An allocation above \<open>PTRDIFF_MAX\<close> fails, as the C library
  documents. The addition of the size prefix in \<open>OPENSSL_malloc\<close> is modelled with its wrap-around. The
  calendar computes on unbounded integers; the years and offsets for which the C types do not overflow
  are hypotheses, and \<open>date_to_julian_fits\<close> states that they suffice. A base64 call is limited to \<open>INT_MAX\<close>
  bytes of output, above which the code reports none.

  \<^bold>\<open>Findings.\<close> Where the code does not do what it means to, or a comment of it says otherwise, a lemma shows
  it: \<open>reserve_wraps\<close> (the size prefix of \<open>OPENSSL_malloc\<close> wraps around), \<open>did_write_ignores_error\<close> and
  \<open>did_write_failure_forgotten\<close> (\<open>CBB_did_write\<close> and the error of a builder), \<open>nested_ber_missed\<close> (BER in a nested
  element is forgotten), \<open>trailing_element_converted\<close> (what follows the first element is converted too),
  \<open>nul_is_printable\<close> and \<open>store_leaves_freed\<close> (\<open>a_mbstr.c\<close>), \<open>impossible_date_accepted\<close> (\<open>a_utctm.c\<close>),
  \<open>five_digit_year_rejected\<close> (\<open>a_gentm.c\<close>), \<open>date_to_julian_overflows\<close> (\<open>time_support.c\<close>, where \<open>julian_adj\<close>
  overflows also for offsets from $2^{31}$ seconds on) and \<open>sk_set_breaks_search\<close> (\<open>sk_set\<close> leaves the sorted flag).

  \<^bold>\<open>Not modelled.\<close> The effects of releasing and clearing memory, the error queue and debug
  assertions other than those of \<open>CBB_data\<close> and \<open>CBB_len\<close>; the templates of \<open>tasn_*.c\<close> and what macros generate from
  them; the rest of BoringSSL (cryptography with its assembly variants, X.509, TLS); gRPC, abseil,
  LevelDB, nanopb and Firebase, which are C++, Objective-C or generated code over threads, files and the
  network; the Swift application. The modelled functions depend on none of these.
\<close>

end
